(* ===== verification/Prelude.thy ===== *)
theory Prelude
  imports Main "HOL-Library.Word"
begin

text \<open>
  Shared ground of the development: the fixed-width integer types of \<^verbatim>\<open>utils.h\<close>, the result
  type by which every undefined behaviour of the C code is a value, memory cells indexed by
  addresses with \<open>0\<close> as \<^verbatim>\<open>NULL\<close>, singly linked segments in such a memory, the decimal
  output of \<^verbatim>\<open>printf("%u")\<close> with the truncation of \<^verbatim>\<open>snprintf\<close>, and the decimal input of
  \<^verbatim>\<open>atoi\<close>.  The lemmas declared \<open>[simp]\<close> or collected in \<open>res_simps\<close> carry the proofs of the
  component theories.
\<close>

unbundle bit_operations_syntax

named_theorems res_simps "unfolding and inversion of results"

section \<open>Machine integers\<close>

text \<open>The integer types of \<^verbatim>\<open>utils.h\<close>; \<open>char\<close> is signed and is converted where it is read.\<close>

type_synonym u8 = "8 word"
type_synonym u16 = "16 word"
type_synonym u32 = "32 word"
type_synonym u64 = "64 word"

lemma unat_of_nat_small: "n < 2 ^ LENGTH('a) \<Longrightarrow> unat (of_nat n :: 'a::len word) = n"
  by (simp add: unat_of_nat take_bit_nat_eq_self)

lemma of_nat_eq_0_small:
  "n < 2 ^ LENGTH('a) \<Longrightarrow> (of_nat n :: 'a::len word) = 0 \<longleftrightarrow> n = 0"
  by (simp only: word_unat_eq_iff unat_of_nat_small unat_0)

lemma of_nat_eq_1_small:
  "n < 2 ^ LENGTH('a) \<Longrightarrow> (of_nat n :: 'a::len word) = 1 \<longleftrightarrow> n = 1"
  by (simp only: word_unat_eq_iff unat_of_nat_small unat_1)

lemma unat_succ_less: "i < n \<Longrightarrow> unat (i + 1) = Suc (unat (i :: 'a::len word))"
proof -
  assume "i < n"
  then have "Suc (unat i) \<le> unat n" by (simp add: word_less_nat_alt)
  also have "unat n < 2 ^ LENGTH('a)" by simp
  finally have "Suc (unat i) < 2 ^ LENGTH('a)" .
  then show ?thesis by (simp add: unat_word_ariths)
qed

section \<open>Results: undefined behaviour as a value\<close>

text \<open>
  C code that dereferences \<^verbatim>\<open>NULL\<close>, touches memory that was released, releases a pointer that
  \<^verbatim>\<open>malloc\<close> never returned or reads past the end of a buffer has no defined result.  Each such
  access is an \<open>Inl\<close> value of the model and stops the operation that made it; so do a failed assertion and
  an overflow of a signed integer.
\<close>

datatype ub = Null_deref | Use_after_free | Invalid_free | Out_of_bounds | Assert_failed | Signed_overflow

type_synonym 'a res = "ub + 'a"

definition rbind :: "'a res \<Rightarrow> ('a \<Rightarrow> 'b res) \<Rightarrow> 'b res" where
  "rbind m f = (case m of Inl e \<Rightarrow> Inl e | Inr x \<Rightarrow> f x)"

lemma rbind_Inl [simp]: "rbind (Inl e) f = Inl e"
  by (simp add: rbind_def)

lemma rbind_Inr [simp]: "rbind (Inr x) f = f x"
  by (simp add: rbind_def)

lemma rbind_eq_Inr [res_simps]: "rbind m f = Inr y \<longleftrightarrow> (\<exists>x. m = Inr x \<and> f x = Inr y)"
  by (simp add: rbind_def split: sum.split)

lemma rbind_eq_Inl [res_simps]:
  "rbind m f = Inl e \<longleftrightarrow> m = Inl e \<or> (\<exists>x. m = Inr x \<and> f x = Inl e)"
  by (simp add: rbind_def split: sum.split)

lemma rbind_assoc: "rbind (rbind m f) g = rbind m (\<lambda>x. rbind (f x) g)"
  by (simp add: rbind_def split: sum.split)

lemma rbind_cong [fundef_cong]:
  "\<lbrakk>m = m'; \<And>x. m' = Inr x \<Longrightarrow> f x = f' x\<rbrakk> \<Longrightarrow> rbind m f = rbind m' f'"
  by (simp add: rbind_def split: sum.split)

text \<open>Operations that may not return: \<open>None\<close> is a run that never ends.\<close>

definition obind :: "'a res option \<Rightarrow> ('a \<Rightarrow> 'b res option) \<Rightarrow> 'b res option" where
  "obind m f = (case m of None \<Rightarrow> None | Some (Inl e) \<Rightarrow> Some (Inl e) | Some (Inr x) \<Rightarrow> f x)"

lemma obind_simps [simp]: "obind None f = None" "obind (Some (Inl e)) f = Some (Inl e)" "obind (Some (Inr x)) f = f x"
  by (simp_all add: obind_def)

section \<open>Memory cells\<close>

type_synonym addr = nat

abbreviation (input) NULL :: addr where "NULL \<equiv> 0"

text \<open>Dereferencing: \<^verbatim>\<open>NULL\<close> and released cells are told apart.\<close>

definition deref :: "(addr \<rightharpoonup> 'c) \<Rightarrow> addr \<Rightarrow> 'c res" where
  "deref h a = (if a = NULL then Inl Null_deref
     else case h a of None \<Rightarrow> Inl Use_after_free | Some c \<Rightarrow> Inr c)"

lemma deref_Some [simp]: "a \<noteq> NULL \<Longrightarrow> h a = Some c \<Longrightarrow> deref h a = Inr c"
  by (simp add: deref_def)

lemma deref_NULL [simp]: "deref h NULL = Inl Null_deref"
  by (simp add: deref_def)

lemma deref_eq_Inr [res_simps]: "deref h a = Inr c \<longleftrightarrow> a \<noteq> NULL \<and> h a = Some c"
  by (auto simp: deref_def split: option.splits)

text \<open>\<^verbatim>\<open>free\<close>: releasing \<^verbatim>\<open>NULL\<close> does nothing, releasing anything not allocated is undefined.\<close>

definition free_cell :: "(addr \<rightharpoonup> 'c) \<Rightarrow> addr \<Rightarrow> (addr \<rightharpoonup> 'c) res" where
  "free_cell h a = (if a = NULL then Inr h
     else case h a of None \<Rightarrow> Inl Invalid_free | Some _ \<Rightarrow> Inr (h(a := None)))"

lemma free_cell_Some [simp]: "a \<noteq> NULL \<Longrightarrow> h a = Some c \<Longrightarrow> free_cell h a = Inr (h(a := None))"
  by (simp add: free_cell_def)

section \<open>Linked segments\<close>

text \<open>
  \<open>lseg h nx p as q\<close>: from \<open>p\<close>, following the field \<open>nx\<close> of allocated cells, one visits exactly
  the addresses \<open>as\<close> and arrives at \<open>q\<close>.
\<close>

fun lseg :: "(addr \<rightharpoonup> 'c) \<Rightarrow> ('c \<Rightarrow> addr) \<Rightarrow> addr \<Rightarrow> addr list \<Rightarrow> addr \<Rightarrow> bool" where
  "lseg h nx p [] q \<longleftrightarrow> p = q"
| "lseg h nx p (a # as) q \<longleftrightarrow>
     p = a \<and> a \<noteq> NULL \<and> (case h a of None \<Rightarrow> False | Some c \<Rightarrow> lseg h nx (nx c) as q)"

lemma lseg_append:
  "lseg h nx p (as @ bs) q \<longleftrightarrow> (\<exists>r. lseg h nx p as r \<and> lseg h nx r bs q)"
  by (induction as arbitrary: p) (auto split: option.splits)

lemma lseg_upd_other [simp]:
  "a \<notin> set as \<Longrightarrow> lseg (h(a := v)) nx p as q \<longleftrightarrow> lseg h nx p as q"
  by (induction as arbitrary: p) (auto split: option.splits)

lemma lseg_cells: "lseg h nx p as q \<Longrightarrow> a \<in> set as \<Longrightarrow> a \<noteq> NULL \<and> h a \<noteq> None"
  by (induction as arbitrary: p) (auto split: option.splits)

lemma lseg_NULL_start [simp]: "lseg h nx NULL as q \<longleftrightarrow> as = [] \<and> q = NULL"
  by (cases as) auto

lemma lseg_unique: "lseg h nx p as NULL \<Longrightarrow> lseg h nx p bs NULL \<Longrightarrow> as = bs"
proof (induction as arbitrary: p bs)
  case Nil
  then show ?case by simp
next
  case (Cons a as)
  from Cons.prems(1) obtain c where c: "h a = Some c" "lseg h nx (nx c) as NULL" "p = a" "a \<noteq> NULL"
    by (auto split: option.splits)
  with Cons.prems(2) obtain bs' where bs: "bs = a # bs'" "lseg h nx (nx c) bs' NULL"
    by (cases bs) auto
  from Cons.IH [OF c(2) bs(2)] bs(1) show ?case by simp
qed

lemma lseg_distinct: "lseg h nx p as NULL \<Longrightarrow> distinct as"
proof (induction as arbitrary: p)
  case Nil
  then show ?case by simp
next
  case (Cons a as)
  then obtain c where c: "h a = Some c" "lseg h nx (nx c) as NULL"
    by (auto split: option.splits)
  have "a \<notin> set as"
  proof
    assume "a \<in> set as"
    then obtain us vs where as: "as = us @ a # vs" by (auto simp: in_set_conv_decomp)
    with c have "lseg h nx (nx c) vs NULL" by (auto simp: lseg_append)
    with c(2) have "as = vs" by (rule lseg_unique)
    with as show False by simp
  qed
  with Cons c show ?case by simp
qed

section \<open>Decimal text\<close>

text \<open>
  \<^verbatim>\<open>printf("%u", n)\<close> and the truncation of \<^verbatim>\<open>snprintf(buf, n, ...)\<close>, which stores at most
  \<open>n - 1\<close> characters before the terminating zero.
\<close>

definition digit_char :: "nat \<Rightarrow> char" where
  "digit_char d = char_of (48 + d)"

fun show_u :: "nat \<Rightarrow> string" where
  "show_u n = (if n < 10 then [digit_char n] else show_u (n div 10) @ [digit_char (n mod 10)])"

declare show_u.simps [simp del]

definition snprintf :: "nat \<Rightarrow> string \<Rightarrow> string" where
  "snprintf n s = take (n - 1) s"

lemma length_show_u: "n < 10 ^ k \<Longrightarrow> 0 < k \<Longrightarrow> length (show_u n) \<le> k"
proof (induction n arbitrary: k rule: show_u.induct)
  case (1 n)
  show ?case
  proof (cases "n < 10")
    case True
    with "1.prems" show ?thesis by (simp add: show_u.simps [of n])
  next
    case False
    with "1.prems" have "k \<noteq> 1" by (auto intro: ccontr)
    with "1.prems" obtain j where k: "k = Suc j" "0 < j" by (cases k) auto
    with "1.prems" have "n div 10 < 10 ^ j" by auto
    with "1.IH" False k have "length (show_u (n div 10)) \<le> j" by blast
    with False k show ?thesis by (simp add: show_u.simps [of n])
  qed
qed

lemma show_u_nonempty [simp]: "show_u n \<noteq> []"
  by (subst show_u.simps) simp

lemma snprintf_fits: "length s < n \<Longrightarrow> snprintf n s = s"
  by (simp add: snprintf_def)

end
