(* ===== verification/Queue.thy ===== *)
theory Queue
  imports Prelude
begin

text \<open>
  The queue of \<^verbatim>\<open>utils.c\<close>: a singly linked list of \<^verbatim>\<open>queue_elem\<close> cells with a head and a tail
  pointer and a 32-bit element count.  The first half is the pointer code over an explicit memory
  of cells; the second half is the list-level queue the server and the thread pool are stated
  over, the interface \<open>fifo_queue\<close> that both satisfy, and the refinement between them.
\<close>

section \<open>The pointer code\<close>

record 'v queue_elem =
  elem_value :: 'v
  elem_next :: addr

record queue =
  elems_count :: u32
  q_head :: addr
  q_tail :: addr

text \<open>
  The memory of cells, with the first address \<^verbatim>\<open>malloc\<close> has not handed out yet.  A released cell
  is \<open>None\<close> and its address is not handed out again.
\<close>

record 'v qmem =
  cells :: "addr \<rightharpoonup> 'v queue_elem"
  brk :: addr

definition qmem_ok :: "'v qmem \<Rightarrow> bool" where
  "qmem_ok m \<longleftrightarrow> 0 < brk m \<and> (\<forall>a. brk m \<le> a \<longrightarrow> cells m a = None)"

definition malloc_elem :: "'v qmem \<Rightarrow> 'v queue_elem \<Rightarrow> addr \<times> 'v qmem" where
  "malloc_elem m e = (brk m, m\<lparr>cells := (cells m)(brk m \<mapsto> e), brk := Suc (brk m)\<rparr>)"

text \<open>Writing the field \<^verbatim>\<open>next\<close> through a pointer.\<close>

definition set_next :: "'v qmem \<Rightarrow> addr \<Rightarrow> addr \<Rightarrow> 'v qmem res" where
  "set_next m a n = rbind (deref (cells m) a)
     (\<lambda>e. Inr (m\<lparr>cells := (cells m)(a \<mapsto> e\<lparr>elem_next := n\<rparr>)\<rparr>))"

definition queue_init :: queue where
  "queue_init = \<lparr>elems_count = 0, q_head = NULL, q_tail = NULL\<rparr>"

text \<open>
  The queue argument is a pointer: \<open>None\<close> is \<^verbatim>\<open>NULL\<close>, \<open>Some q\<close> the structure it points to, given
  back with the updates.  \<^verbatim>\<open>queue_pop\<close> gives \<open>None\<close> where the code returns \<^verbatim>\<open>NULL\<close>.
\<close>

definition queue_pop :: "'v qmem \<Rightarrow> queue option \<Rightarrow> ('v option \<times> 'v qmem \<times> queue option) res" where
  "queue_pop m qp = (case qp of
     None \<Rightarrow> Inr (None, m, None)
   | Some q \<Rightarrow>
       (let elem = q_head q in
        if elem = NULL then Inr (None, m, Some q)
        else rbind (deref (cells m) elem) (\<lambda>e.
          let value = elem_value e;
              q1 = q\<lparr>q_head := elem_next e\<rparr>;
              q2 = q1\<lparr>elems_count := elems_count q1 - 1\<rparr>
          in rbind (free_cell (cells m) elem) (\<lambda>h.
               Inr (Some value, m\<lparr>cells := h\<rparr>, Some q2)))))"

definition queue_push :: "'v qmem \<Rightarrow> queue option \<Rightarrow> 'v \<Rightarrow> ('v qmem \<times> queue option) res" where
  "queue_push m qp value = (case qp of
     None \<Rightarrow> Inr (m, None)
   | Some q \<Rightarrow>
       (let (elem, m1) = malloc_elem m \<lparr>elem_value = value, elem_next = NULL\<rparr> in
        rbind
          (if elems_count q = 0 then
             Inr (m1, q\<lparr>q_head := elem, q_tail := elem\<rparr>)
           else if elems_count q = 1 then
             rbind (set_next m1 (q_head q) elem) (\<lambda>m2. Inr (m2, q\<lparr>q_tail := elem\<rparr>))
           else
             rbind (set_next m1 (q_tail q) elem) (\<lambda>m2. Inr (m2, q\<lparr>q_tail := elem\<rparr>)))
          (\<lambda>(m2, q2). Inr (m2, Some (q2\<lparr>elems_count := elems_count q2 + 1\<rparr>)))))"

text \<open>
  \<^verbatim>\<open>queue_iterate\<close> walks the list and hands every value to its argument; the model returns the
  values in the order of the calls.  A cyclic list would make it run forever, which is the
  outer \<open>None\<close>.
\<close>

partial_function (option) iterate_loop ::
  "(addr \<rightharpoonup> 'v queue_elem) \<Rightarrow> addr \<Rightarrow> 'v list \<Rightarrow> 'v list res option" where
  "iterate_loop h cur acc =
     (if cur = NULL then Some (Inr acc)
      else case h cur of
        None \<Rightarrow> Some (Inl Use_after_free)
      | Some e \<Rightarrow> iterate_loop h (elem_next e) (acc @ [elem_value e]))"

definition queue_iterate :: "'v qmem \<Rightarrow> queue option \<Rightarrow> 'v list res option" where
  "queue_iterate m qp = (case qp of
     None \<Rightarrow> Some (Inr [])
   | Some q \<Rightarrow> if elems_count q = 0 then Some (Inr []) else iterate_loop (cells m) (q_head q) [])"

partial_function (option) struct_free_loop ::
  "(addr \<rightharpoonup> 'v queue_elem) \<Rightarrow> addr \<Rightarrow> (addr \<rightharpoonup> 'v queue_elem) res option" where
  "struct_free_loop h cur =
     (if cur = NULL then Some (Inr h)
      else case h cur of
        None \<Rightarrow> Some (Inl Use_after_free)
      | Some e \<Rightarrow> struct_free_loop (h(cur := None)) (elem_next e))"

definition queue_struct_free :: "'v qmem \<Rightarrow> queue option \<Rightarrow> 'v qmem res option" where
  "queue_struct_free m qp = (case qp of
     None \<Rightarrow> Some (Inr m)
   | Some q \<Rightarrow> map_option (map_sum id (\<lambda>h. m\<lparr>cells := h\<rparr>)) (struct_free_loop (cells m) (q_head q)))"

section \<open>What the pointers mean\<close>

text \<open>
  \<open>queue_nodes m q as\<close>: the cells of the queue are \<open>as\<close>, in order.  The tail pointer is only
  constrained while there is an element: \<^verbatim>\<open>queue_pop\<close> leaves it dangling when it empties the
  queue, and the empty branch of \<^verbatim>\<open>queue_push\<close> never reads it.
\<close>

definition queue_nodes :: "'v qmem \<Rightarrow> queue \<Rightarrow> addr list \<Rightarrow> bool" where
  "queue_nodes m q as \<longleftrightarrow> qmem_ok m \<and> lseg (cells m) elem_next (q_head q) as NULL
     \<and> length as < 2 ^ 32 \<and> elems_count q = of_nat (length as)
     \<and> (as \<noteq> [] \<longrightarrow> q_tail q = last as)"

definition node_values :: "(addr \<rightharpoonup> 'v queue_elem) \<Rightarrow> addr list \<Rightarrow> 'v list" where
  "node_values h as = map (\<lambda>a. elem_value (the (h a))) as"

text \<open>The memory holds the queue with the values \<open>xs\<close> and, besides the cells of the queue, exactly the cells \<open>R\<close>.\<close>

definition queue_in :: "(addr \<rightharpoonup> 'v queue_elem) \<Rightarrow> 'v qmem \<Rightarrow> queue \<Rightarrow> 'v list \<Rightarrow> bool" where
  "queue_in R m q xs \<longleftrightarrow>
     (\<exists>as. queue_nodes m q as \<and> node_values (cells m) as = xs \<and> cells m |` (- set as) = R)"

lemma node_values_simps [simp]:
  "node_values h [] = []"
  "node_values h (a # as) = elem_value (the (h a)) # node_values h as"
  "node_values h (as @ bs) = node_values h as @ node_values h bs"
  "length (node_values h as) = length as"
  by (simp_all add: node_values_def)

lemma node_values_upd_other [simp]: "a \<notin> set as \<Longrightarrow> node_values (h(a := c)) as = node_values h as"
  by (auto simp: node_values_def)

lemma node_values_upd_next:
  "h a = Some e \<Longrightarrow> node_values (h(a \<mapsto> e\<lparr>elem_next := n\<rparr>)) as = node_values h as"
  by (auto simp: node_values_def)

lemma queue_nodes_fresh: "queue_nodes m q as \<Longrightarrow> brk m \<notin> set as"
  by (auto simp: queue_nodes_def qmem_ok_def dest: lseg_cells)

lemma queue_init_holds: "qmem_ok m \<Longrightarrow> queue_in (cells m) m queue_init []"
  by (auto simp: queue_in_def queue_nodes_def queue_init_def intro: exI [of _ "[]"])

lemma malloc_elem_ok: "qmem_ok m \<Longrightarrow> qmem_ok (snd (malloc_elem m e))"
  by (auto simp: qmem_ok_def malloc_elem_def)

lemma qmem_ok_upd: "qmem_ok m \<Longrightarrow> cells m a \<noteq> None \<Longrightarrow> qmem_ok (m\<lparr>cells := (cells m)(a := c)\<rparr>)"
  by (auto simp: qmem_ok_def)

text \<open>Linking a fresh cell behind the last one.\<close>

lemma lseg_snoc:
  assumes "lseg h nx p (as @ [l]) NULL" and "h l = Some e" and "b \<noteq> l" and "b \<noteq> NULL"
    and "b \<notin> set as" and "nx e' = b" and "nx f = NULL"
  shows "lseg (h(b \<mapsto> f, l \<mapsto> e')) nx p (as @ [l, b]) NULL"
proof -
  have "l \<notin> set as" using lseg_distinct [OF assms(1)] by simp
  with assms show ?thesis by (auto simp: lseg_append)
qed

lemma queue_push_link:
  assumes Q: "queue_nodes m q (as @ [l])" and cap: "length as + 2 < 2 ^ 32" and t: "t = l"
  shows "\<exists>m'. rbind (set_next (snd (malloc_elem m \<lparr>elem_value = x, elem_next = NULL\<rparr>)) t (brk m))
             (\<lambda>m2. Inr (m2, q\<lparr>q_tail := brk m\<rparr>)) = Inr (m', q\<lparr>q_tail := brk m\<rparr>)
           \<and> queue_nodes m' (q\<lparr>q_tail := brk m, elems_count := elems_count q + 1\<rparr>) (as @ [l, brk m])
           \<and> node_values (cells m') (as @ [l, brk m]) = node_values (cells m) (as @ [l]) @ [x]
           \<and> cells m' |` (- set (as @ [l, brk m])) = cells m |` (- set (as @ [l]))"
proof -
  let ?new = "\<lparr>elem_value = x, elem_next = NULL\<rparr> :: 'a queue_elem"
  from Q obtain e where l: "cells m l = Some e" "l \<noteq> NULL" and ok: "qmem_ok m"
    and seg: "lseg (cells m) elem_next (q_head q) (as @ [l]) NULL"
    by (fastforce simp: queue_nodes_def dest: lseg_cells)
  have fresh: "brk m \<notin> set (as @ [l])" using Q by (rule queue_nodes_fresh)
  have ok1: "qmem_ok (snd (malloc_elem m ?new))" using ok by (rule malloc_elem_ok)
  let ?h = "(cells m)(brk m \<mapsto> ?new, l \<mapsto> e\<lparr>elem_next := brk m\<rparr>)"
  let ?m = "(snd (malloc_elem m ?new))\<lparr>cells := ?h\<rparr>"
  have set: "set_next (snd (malloc_elem m ?new)) l (brk m) = Inr ?m"
    using l fresh by (auto simp: set_next_def malloc_elem_def)
  have "qmem_ok ?m"
    using qmem_ok_upd [OF ok1, of l] l fresh by (auto simp: malloc_elem_def)
  moreover have "lseg ?h elem_next (q_head q) (as @ [l, brk m]) NULL"
    by (rule lseg_snoc [OF seg l(1)]) (use fresh ok in \<open>auto simp: qmem_ok_def\<close>)
  moreover have "l \<notin> set as" using lseg_distinct [OF seg] by simp
  moreover have "?h |` (- set (as @ [l, brk m])) = cells m |` (- set (as @ [l]))"
    using ok by (auto simp: restrict_map_def fun_eq_iff qmem_ok_def)
  ultimately show ?thesis
    using Q cap t set fresh l by (auto simp: queue_nodes_def)
qed

text \<open>
  \<^verbatim>\<open>queue_push\<close> appends.  Its three branches agree because with exactly one element the head and
  the tail are the same cell.
\<close>

lemma queue_push_holds:
  assumes H: "queue_in R m q xs" and cap: "length xs + 1 < 2 ^ 32"
  shows "\<exists>m' q'. queue_push m (Some q) x = Inr (m', Some q') \<and> queue_in R m' q' (xs @ [x])"
proof -
  from H obtain as where Q: "queue_nodes m q as" and xs: "node_values (cells m) as = xs"
    and R: "cells m |` (- set as) = R"
    by (auto simp: queue_in_def)
  then have len: "length as = length xs" and cnt: "elems_count q = of_nat (length xs)"
    by (auto simp: queue_nodes_def)
  have small: "length xs < 2 ^ LENGTH(32)" using cap by simp
  show ?thesis
  proof (cases as rule: rev_cases)
    case Nil
    then have "elems_count q = 0" "xs = []" using cnt len by auto
    moreover have "queue_in R (snd (malloc_elem m \<lparr>elem_value = x, elem_next = NULL\<rparr>))
        (q\<lparr>q_head := brk m, q_tail := brk m, elems_count := elems_count q + 1\<rparr>) [x]"
      using Q Nil R malloc_elem_ok [of m]
      by (auto simp: queue_in_def queue_nodes_def malloc_elem_def qmem_ok_def restrict_map_def fun_eq_iff
            intro!: exI [of _ "[brk m]"])
    ultimately show ?thesis
      by (simp add: queue_push_def malloc_elem_def Let_def)
  next
    case (snoc bs l)
    have n0: "elems_count q \<noteq> 0"
      using cnt len snoc of_nat_eq_0_small [OF small] by auto
    have tail: "q_tail q = l" using Q snoc by (simp add: queue_nodes_def)
    have head: "elems_count q = 1 \<Longrightarrow> q_head q = l"
      using cnt len snoc of_nat_eq_1_small [OF small] Q by (auto simp: queue_nodes_def)
    obtain m' where m': "rbind (set_next (snd (malloc_elem m \<lparr>elem_value = x, elem_next = NULL\<rparr>)) l (brk m))
             (\<lambda>m2. Inr (m2, q\<lparr>q_tail := brk m\<rparr>)) = Inr (m', q\<lparr>q_tail := brk m\<rparr>)"
      and nodes: "queue_nodes m' (q\<lparr>q_tail := brk m, elems_count := elems_count q + 1\<rparr>) (bs @ [l, brk m])"
      and vals: "node_values (cells m') (bs @ [l, brk m]) = xs @ [x]"
      and rest: "cells m' |` (- set (bs @ [l, brk m])) = R"
      using queue_push_link [of m q bs l l x] Q snoc cap len xs R by auto
    have "queue_push m (Some q) x
        = Inr (m', Some (q\<lparr>q_tail := brk m, elems_count := elems_count q + 1\<rparr>))"
      using m' n0 tail head by (auto simp: queue_push_def malloc_elem_def Let_def)
    then show ?thesis using nodes vals rest unfolding queue_in_def by blast
  qed
qed

lemma queue_pop_holds_Nil:
  "queue_in R m q [] \<Longrightarrow> queue_pop m (Some q) = Inr (None, m, Some q)"
  by (auto simp: queue_in_def queue_nodes_def queue_pop_def node_values_def)

lemma queue_pop_holds_Cons:
  assumes "queue_in R m q (x # xs)"
  shows "\<exists>m' q'. queue_pop m (Some q) = Inr (Some x, m', Some q') \<and> queue_in R m' q' xs"
proof -
  from assms obtain a as e where Q: "queue_nodes m q (a # as)"
    and e: "cells m a = Some e" "a \<noteq> NULL" "elem_value e = x" "q_head q = a"
    and seg: "lseg (cells m) elem_next (elem_next e) as NULL"
    and xs: "node_values (cells m) as = xs" and R: "cells m |` (- set (a # as)) = R"
    by (fastforce simp: queue_in_def queue_nodes_def node_values_def split: option.splits)
  have "a \<notin> set as"
    using Q lseg_distinct [of "cells m" elem_next "q_head q" "a # as"] by (auto simp: queue_nodes_def)
  then have "queue_nodes (m\<lparr>cells := (cells m)(a := None)\<rparr>)
      (q\<lparr>q_head := elem_next e, elems_count := elems_count q - 1\<rparr>) as
    \<and> node_values ((cells m)(a := None)) as = xs"
    using Q e seg xs by (auto simp: queue_nodes_def qmem_ok_def)
  moreover have "((cells m)(a := None)) |` (- set as) = R"
    unfolding R [symmetric] by (auto simp: restrict_map_def fun_eq_iff)
  moreover have "queue_pop m (Some q) = Inr (Some x, m\<lparr>cells := (cells m)(a := None)\<rparr>,
      Some (q\<lparr>q_head := elem_next e, elems_count := elems_count q - 1\<rparr>))"
    using e by (simp add: queue_pop_def Let_def)
  ultimately show ?thesis by (auto simp: queue_in_def intro!: exI [of _ as])
qed

text \<open>Both walks stop and see every element once.\<close>

lemma iterate_loop_lseg:
  "lseg h elem_next p as NULL \<Longrightarrow> iterate_loop h p acc = Some (Inr (acc @ node_values h as))"
proof (induction as arbitrary: p acc)
  case Nil
  then show ?case by (subst iterate_loop.simps) simp
next
  case (Cons a as)
  then show ?case
    by (subst iterate_loop.simps) (auto split: option.splits)
qed

lemma struct_free_loop_lseg:
  "lseg h elem_next p as NULL \<Longrightarrow> struct_free_loop h p = Some (Inr (h |` (- set as)))"
proof (induction as arbitrary: p h)
  case Nil
  then show ?case by (subst struct_free_loop.simps) (simp add: restrict_map_def)
next
  case (Cons a as)
  from Cons.prems obtain e where e: "p = a" "a \<noteq> NULL" "h a = Some e"
    "lseg h elem_next (elem_next e) as NULL"
    by (auto split: option.splits)
  have "a \<notin> set as" using lseg_distinct [OF Cons.prems] by simp
  with e(4) have "lseg (h(a := None)) elem_next (elem_next e) as NULL" by simp
  have "struct_free_loop h p = struct_free_loop (h(a := None)) (elem_next e)"
    using e by (subst struct_free_loop.simps) simp
  also have "\<dots> = Some (Inr ((h(a := None)) |` (- set as)))"
    by (rule Cons.IH) fact
  also have "(h(a := None)) |` (- set as) = h |` (- set (a # as))"
    by (auto simp: restrict_map_def fun_eq_iff)
  finally show ?case .
qed

section \<open>The interface and its two implementations\<close>

text \<open>What the users of the queue call, and what they get back.\<close>

datatype 'v queue_op = Push 'v | Pop | Iterate | Count

datatype 'v queue_reply = Pushed | Popped "'v option" | Iterated "'v list" | Counted u32

text \<open>
  A run of operations on an implementation, given by its \<open>push\<close>, \<open>pop\<close>, \<open>iterate\<close> and \<open>count\<close>.  The outer \<open>None\<close> is an
  operation that never returns, \<open>Inl\<close> an access to memory that is not there.
\<close>

fun queue_run :: "('v \<Rightarrow> 'q \<Rightarrow> 'q res) \<Rightarrow> ('q \<Rightarrow> ('v option \<times> 'q) res) \<Rightarrow> ('q \<Rightarrow> 'v list res option) \<Rightarrow> ('q \<Rightarrow> u32)
    \<Rightarrow> 'v queue_op list \<Rightarrow> 'q \<Rightarrow> ('v queue_reply list \<times> 'q) res option" where
  "queue_run push pop iterate count [] q = Some (Inr ([], q))"
| "queue_run push pop iterate count (c # cs) q =
     (case (case c of
          Push x \<Rightarrow> Some (map_sum id (\<lambda>q1. (Pushed, q1)) (push x q))
        | Pop \<Rightarrow> Some (map_sum id (\<lambda>(v, q1). (Popped v, q1)) (pop q))
        | Iterate \<Rightarrow> map_option (map_sum id (\<lambda>vs. (Iterated vs, q))) (iterate q)
        | Count \<Rightarrow> Some (Inr (Counted (count q), q))) of
        None \<Rightarrow> None
      | Some (Inl e) \<Rightarrow> Some (Inl e)
      | Some (Inr (r, q1)) \<Rightarrow> map_option (map_sum id (map_prod ((#) r) id)) (queue_run push pop iterate count cs q1))"

text \<open>The same operations on a list: pushing appends, popping takes the first element off.\<close>

fun list_reply :: "'v queue_op \<Rightarrow> 'v list \<Rightarrow> 'v queue_reply" where
  "list_reply (Push x) ys = Pushed"
| "list_reply Pop ys = Popped (if ys = [] then None else Some (hd ys))"
| "list_reply Iterate ys = Iterated ys"
| "list_reply Count ys = Counted (of_nat (length ys))"

fun list_after :: "'v queue_op \<Rightarrow> 'v list \<Rightarrow> 'v list" where
  "list_after (Push x) ys = ys @ [x]"
| "list_after Pop ys = List.tl ys"
| "list_after _ ys = ys"

fun list_run :: "'v queue_op list \<Rightarrow> 'v list \<Rightarrow> 'v queue_reply list \<times> 'v list" where
  "list_run [] ys = ([], ys)"
| "list_run (c # cs) ys = map_prod ((#) (list_reply c ys)) id (list_run cs (list_after c ys))"

lemma list_after_length: "length (list_after c ys) \<le> Suc (length ys)"
  by (cases c) auto

text \<open>
  What the users of the queue rely on: first in, first out, walking changes nothing and sees every element, the count is
  the number of elements modulo \<open>2 ^ 32\<close>, popping an empty queue is harmless.
\<close>

locale fifo_queue =
  fixes invar :: "'q \<Rightarrow> bool"
    and abs :: "'q \<Rightarrow> 'v list"
    and push :: "'v \<Rightarrow> 'q \<Rightarrow> 'q res"
    and pop :: "'q \<Rightarrow> ('v option \<times> 'q) res"
    and iterate :: "'q \<Rightarrow> 'v list res option"
    and count :: "'q \<Rightarrow> u32"
  assumes push_ok: "invar q \<Longrightarrow> length (abs q) + 1 < 2 ^ 32 \<Longrightarrow>
            \<exists>q'. push x q = Inr q' \<and> invar q' \<and> abs q' = abs q @ [x]"
    and pop_empty: "invar q \<Longrightarrow> abs q = [] \<Longrightarrow> pop q = Inr (None, q)"
    and pop_ok: "invar q \<Longrightarrow> abs q = x # xs \<Longrightarrow>
            \<exists>q'. pop q = Inr (Some x, q') \<and> invar q' \<and> abs q' = xs"
    and iterate_ok: "invar q \<Longrightarrow> iterate q = Some (Inr (abs q))"
    and count_ok: "invar q \<Longrightarrow> count q = of_nat (length (abs q))"
    and small: "invar q \<Longrightarrow> length (abs q) < 2 ^ 32"

context fifo_queue
begin

lemma run_ok:
  "invar q \<Longrightarrow> length (abs q) + length cs < 2 ^ 32 \<Longrightarrow>
    \<exists>q'. queue_run push pop iterate count cs q = Some (Inr (fst (list_run cs (abs q)), q'))
      \<and> invar q' \<and> abs q' = snd (list_run cs (abs q))"
proof (induction cs arbitrary: q)
  case Nil
  then show ?case by simp
next
  case (Cons c cs)
  have next_run: "\<exists>q'. map_option (map_sum id (map_prod ((#) r) id)) (queue_run push pop iterate count cs q1)
        = Some (Inr (r # fst (list_run cs (abs q1)), q')) \<and> invar q' \<and> abs q' = snd (list_run cs (abs q1))"
    if "invar q1" "abs q1 = list_after c (abs q)" for q1 r
    using Cons.IH [of q1] that Cons.prems(2) list_after_length [of c "abs q"] by fastforce
  show ?case
  proof (cases c)
    case (Push x)
    then obtain q1 where "push x q = Inr q1" "invar q1" "abs q1 = abs q @ [x]"
      using push_ok [of q x] Cons.prems by auto
    then show ?thesis using next_run [of q1 Pushed] Push by auto
  next
    case Pop
    show ?thesis
    proof (cases "abs q")
      case Nil
      then show ?thesis using next_run [of q "Popped None"] pop_empty [of q] Pop Cons.prems by auto
    next
      case (Cons y ys)
      then obtain q1 where "pop q = Inr (Some y, q1)" "invar q1" "abs q1 = ys"
        using pop_ok [of q y ys] Cons.prems by auto
      then show ?thesis using next_run [of q1 "Popped (Some y)"] Pop Cons by auto
    qed
  next
    case Iterate
    then show ?thesis using next_run [of q "Iterated (abs q)"] iterate_ok [of q] Cons.prems by auto
  next
    case Count
    then show ?thesis using next_run [of q "Counted (count q)"] count_ok [of q] Cons.prems by auto
  qed
qed

lemma count_zero: "invar q \<Longrightarrow> count q = 0 \<longleftrightarrow> abs q = []"
  using count_ok [of q] small [of q] of_nat_eq_0_small [of "length (abs q)", where 'a = 32]
  by simp

end

subsection \<open>The pointer queue\<close>

type_synonym 'v hqueue = "'v qmem \<times> queue"

definition hq_invar :: "(addr \<rightharpoonup> 'v queue_elem) \<Rightarrow> 'v hqueue \<Rightarrow> bool" where
  "hq_invar R mq \<longleftrightarrow> (\<exists>xs. queue_in R (fst mq) (snd mq) xs)"

definition hq_iterate :: "'v hqueue \<Rightarrow> 'v list res option" where
  "hq_iterate mq = queue_iterate (fst mq) (Some (snd mq))"

definition hq_list :: "'v hqueue \<Rightarrow> 'v list" where
  "hq_list mq = (case hq_iterate mq of Some (Inr xs) \<Rightarrow> xs | _ \<Rightarrow> [])"

definition hq_push :: "'v \<Rightarrow> 'v hqueue \<Rightarrow> 'v hqueue res" where
  "hq_push x mq = rbind (queue_push (fst mq) (Some (snd mq)) x)
     (\<lambda>(m, qp). case qp of None \<Rightarrow> Inl Null_deref | Some q \<Rightarrow> Inr (m, q))"

definition hq_pop :: "'v hqueue \<Rightarrow> ('v option \<times> 'v hqueue) res" where
  "hq_pop mq = rbind (queue_pop (fst mq) (Some (snd mq)))
     (\<lambda>(v, m, qp). case qp of None \<Rightarrow> Inl Null_deref | Some q \<Rightarrow> Inr (v, m, q))"

definition hq_count :: "'v hqueue \<Rightarrow> u32" where
  "hq_count mq = elems_count (snd mq)"

lemma queue_iterate_in:
  assumes "queue_in R m q xs"
  shows "queue_iterate m (Some q) = Some (Inr xs)"
proof -
  from assms obtain as where Q: "queue_nodes m q as" "node_values (cells m) as = xs"
    by (auto simp: queue_in_def)
  then have "length as < 2 ^ LENGTH(32)" by (simp add: queue_nodes_def)
  from of_nat_eq_0_small [OF this] Q show ?thesis
    by (auto simp: queue_iterate_def queue_nodes_def iterate_loop_lseg)
qed

lemma queue_free_in:
  assumes "queue_in R m q xs"
  shows "queue_struct_free m (Some q) = Some (Inr (m\<lparr>cells := R\<rparr>))"
proof -
  from assms obtain as where "queue_nodes m q as" "cells m |` (- set as) = R"
    by (auto simp: queue_in_def)
  then show ?thesis
    by (auto simp: queue_struct_free_def queue_nodes_def dest!: struct_free_loop_lseg)
qed

lemma queue_in_hq_list: "queue_in R m q xs \<Longrightarrow> hq_list (m, q) = xs"
  by (simp add: hq_list_def hq_iterate_def queue_iterate_in)

lemma queue_in_count:
  "queue_in R m q xs \<Longrightarrow> elems_count q = of_nat (length xs) \<and> length xs < 2 ^ 32"
  by (auto simp: queue_in_def queue_nodes_def)

lemma hq_invar_list: "hq_invar R (m, q) \<and> hq_list (m, q) = xs \<longleftrightarrow> queue_in R m q xs"
  by (auto simp: hq_invar_def queue_in_hq_list)

interpretation hq: fifo_queue "hq_invar R" hq_list hq_push hq_pop hq_iterate hq_count
  for R :: "addr \<rightharpoonup> 'v queue_elem"
proof
  fix q :: "'v hqueue" and x
  assume "hq_invar R q" and "length (hq_list q) + 1 < 2 ^ 32"
  then show "\<exists>q'. hq_push x q = Inr q' \<and> hq_invar R q' \<and> hq_list q' = hq_list q @ [x]"
    using queue_push_holds [of R "fst q" "snd q" _ x]
    by (cases q) (fastforce simp: hq_invar_def hq_push_def queue_in_hq_list)
next
  fix q :: "'v hqueue"
  assume "hq_invar R q" and "hq_list q = []"
  then show "hq_pop q = Inr (None, q)"
    by (cases q) (auto simp: hq_invar_def hq_pop_def queue_in_hq_list queue_pop_holds_Nil)
next
  fix q :: "'v hqueue" and x xs
  assume "hq_invar R q" and "hq_list q = x # xs"
  then show "\<exists>q'. hq_pop q = Inr (Some x, q') \<and> hq_invar R q' \<and> hq_list q' = xs"
    using queue_pop_holds_Cons [of R "fst q" "snd q" x xs]
    by (cases q) (fastforce simp: hq_invar_def hq_pop_def queue_in_hq_list)
next
  fix q :: "'v hqueue"
  assume "hq_invar R q"
  then show "hq_iterate q = Some (Inr (hq_list q))" and "hq_count q = of_nat (length (hq_list q))"
    and "length (hq_list q) < 2 ^ 32"
    using queue_iterate_in [of R "fst q" "snd q"] queue_in_count [of R "fst q" "snd q"]
    by (cases q; auto simp: hq_invar_def queue_in_hq_list hq_iterate_def hq_count_def)+
qed

subsection \<open>The list-level queue\<close>

text \<open>
  The queue as its users see it.  The server keeps its solutions and the pool its tasks in these;
  the interpretation of the same interface above is what lets them stand for the pointer code.
\<close>

type_synonym 'v lqueue = "'v list"

definition lq_push :: "'v \<Rightarrow> 'v lqueue \<Rightarrow> 'v lqueue" where
  "lq_push x q = q @ [x]"

definition lq_pop :: "'v lqueue \<Rightarrow> 'v option \<times> 'v lqueue" where
  "lq_pop q = (case q of [] \<Rightarrow> (None, []) | x # xs \<Rightarrow> (Some x, xs))"

definition lq_count :: "'v lqueue \<Rightarrow> u32" where
  "lq_count q = of_nat (length q)"

lemma lq_pop_simps [simp]: "lq_pop [] = (None, [])" "lq_pop (x # xs) = (Some x, xs)"
  by (simp_all add: lq_pop_def)

lemma lq_count_Nil [simp]: "lq_count [] = 0"
  by (simp add: lq_count_def)

interpretation lq: fifo_queue "\<lambda>q. length q < 2 ^ 32" "\<lambda>q. q" "\<lambda>x q. Inr (lq_push x q)"
    "\<lambda>q. Inr (lq_pop q)" "\<lambda>q. Some (Inr q)" lq_count
  by unfold_locales (auto simp: lq_push_def lq_count_def)

lemma lq_count_zero: "length q < 2 ^ 32 \<Longrightarrow> lq_count q = 0 \<longleftrightarrow> q = []"
  by (rule lq.count_zero)

section \<open>Properties\<close>

text \<open>
  C9: the pointer queue of utils.c refines the first-in first-out list, for every sequence of operations.  Let the memory
  hold a queue with the values \<open>ys\<close> and, besides its cells, the cells \<open>R\<close>.  Then any sequence of \<^verbatim>\<open>queue_push\<close>,
  \<^verbatim>\<open>queue_pop\<close>, \<^verbatim>\<open>queue_iterate\<close> and readings of \<^verbatim>\<open>elems_count\<close>, in any order and short enough for the 32-bit count, returns,
  touches no released cell, and gives operation by operation the answers of the list: a popped value is the oldest one,
  the walk sees every value in order, the count is their number, and popping an empty queue gives \<^verbatim>\<open>NULL\<close>.  Afterwards the
  memory holds the queue with the values of the list, and the cells \<open>R\<close> are as they were; and \<^verbatim>\<open>queue_struct_free\<close>
  then returns and leaves exactly the cells \<open>R\<close>, so the operations leak nothing.  On a queue that is \<^verbatim>\<open>NULL\<close> every operation
  does nothing.
\<close>

theorem queue_refines:
  assumes "queue_in R m q ys" and "length ys + length cs < 2 ^ 32"
  shows "\<exists>m' q'. queue_run hq_push hq_pop hq_iterate hq_count cs (m, q) = Some (Inr (fst (list_run cs ys), m', q'))
    \<and> queue_in R m' q' (snd (list_run cs ys))
    \<and> elems_count q' = of_nat (length (snd (list_run cs ys)))
    \<and> queue_struct_free m' (Some q') = Some (Inr (m'\<lparr>cells := R\<rparr>))
    \<and> queue_push m None x = Inr (m, None) \<and> queue_pop m None = Inr (None, m, None)
    \<and> queue_iterate m None = Some (Inr []) \<and> queue_struct_free m None = Some (Inr m)"
proof -
  have "hq_invar R (m, q)" "hq_list (m, q) = ys" using assms(1) hq_invar_list by blast+
  then obtain mq where "queue_run hq_push hq_pop hq_iterate hq_count cs (m, q) = Some (Inr (fst (list_run cs ys), mq))"
    "hq_invar R mq" "hq_list mq = snd (list_run cs ys)"
    using hq.run_ok [of R "(m, q)" cs] assms(2) by auto
  then have "queue_run hq_push hq_pop hq_iterate hq_count cs (m, q) = Some (Inr (fst (list_run cs ys), fst mq, snd mq))
    \<and> queue_in R (fst mq) (snd mq) (snd (list_run cs ys))"
    using hq_invar_list [of R "fst mq" "snd mq" "hq_list mq"] by simp
  moreover have "queue_push m None x = Inr (m, None) \<and> queue_pop m None = Inr (None, m, None)
    \<and> queue_iterate m None = Some (Inr []) \<and> queue_struct_free m None = Some (Inr m)"
    by (simp add: queue_push_def queue_pop_def queue_iterate_def queue_struct_free_def)
  ultimately show ?thesis using queue_in_count queue_free_in by blast
qed

theorem queue_refines_witness:
  "\<exists>m' q'. queue_run hq_push hq_pop hq_iterate hq_count [Push 4, Pop, Push 5, Push 6, Count, Pop, Iterate, Pop, Pop]
        (\<lparr>cells = [7 \<mapsto> \<lparr>elem_value = 9, elem_next = NULL\<rparr>], brk = 8\<rparr>, queue_init)
      = Some (Inr ([Pushed, Popped (Some 4), Pushed, Pushed, Counted 2, Popped (Some 5), Iterated [6::nat],
          Popped (Some 6), Popped None], m', q'))
    \<and> queue_struct_free m' (Some q') = Some (Inr (m'\<lparr>cells := [7 \<mapsto> \<lparr>elem_value = 9, elem_next = NULL\<rparr>]\<rparr>))"
proof -
  let ?m = "\<lparr>cells = [7 \<mapsto> \<lparr>elem_value = 9 :: nat, elem_next = NULL\<rparr>], brk = 8\<rparr> :: nat qmem"
  have "queue_in (cells ?m) ?m queue_init []"
    by (rule queue_init_holds) (simp add: qmem_ok_def)
  from queue_refines [OF this, where cs = "[Push 4, Pop, Push 5, Push 6, Count, Pop, Iterate, Pop, Pop]" and x = 0]
  show ?thesis by auto
qed

end
