(* ===== verification/Net.thy ===== *)
theory Net
  imports Prelude
begin

text \<open>
  The byte level: how the x86-64 host lays out \<^verbatim>\<open>uint16\<close> and \<^verbatim>\<open>uint32\<close> in memory, the
  conversions \<^verbatim>\<open>htons\<close>, \<^verbatim>\<open>htonl\<close>, \<^verbatim>\<open>ntohs\<close>, \<^verbatim>\<open>ntohl\<close>, reads from a packet buffer, the
  environment of a connected socket, the transfer loop of \<^verbatim>\<open>utils.c\<close> and its
  \<^verbatim>\<open>data_block\<close> functions.
\<close>

section \<open>Byte order\<close>

text \<open>The host is little-endian: the least significant byte comes first.\<close>

definition store16 :: "u16 \<Rightarrow> u8 list" where
  "store16 w = [ucast w, ucast (drop_bit 8 w)]"

definition store32 :: "u32 \<Rightarrow> u8 list" where
  "store32 w = [ucast w, ucast (drop_bit 8 w), ucast (drop_bit 16 w), ucast (drop_bit 24 w)]"

definition load16 :: "u8 \<Rightarrow> u8 \<Rightarrow> u16" where
  "load16 a b = ucast a OR push_bit 8 (ucast b)"

definition load32 :: "u8 \<Rightarrow> u8 \<Rightarrow> u8 \<Rightarrow> u8 \<Rightarrow> u32" where
  "load32 a b c d = ucast a OR push_bit 8 (ucast b) OR push_bit 16 (ucast c) OR push_bit 24 (ucast d)"

definition htons :: "u16 \<Rightarrow> u16" where
  "htons w = load16 (ucast (drop_bit 8 w)) (ucast w)"

definition htonl :: "u32 \<Rightarrow> u32" where
  "htonl w = load32 (ucast (drop_bit 24 w)) (ucast (drop_bit 16 w)) (ucast (drop_bit 8 w)) (ucast w)"

abbreviation ntohs :: "u16 \<Rightarrow> u16" where "ntohs \<equiv> htons"
abbreviation ntohl :: "u32 \<Rightarrow> u32" where "ntohl \<equiv> htonl"

text \<open>Network order, the layout on the wire: most significant byte first.\<close>

definition be16 :: "u16 \<Rightarrow> u8 list" where
  "be16 w = [ucast (drop_bit 8 w), ucast w]"

definition be32 :: "u32 \<Rightarrow> u8 list" where
  "be32 w = [ucast (drop_bit 24 w), ucast (drop_bit 16 w), ucast (drop_bit 8 w), ucast w]"

lemma length_be [simp]: "length (be16 w) = 2" "length (be32 v) = 4"
  by (simp_all add: be16_def be32_def)

lemma length_store [simp]: "length (store16 w) = 2" "length (store32 v) = 4"
  by (simp_all add: store16_def store32_def)

lemma byte_bit_beyond [simp]: "8 \<le> m \<Longrightarrow> \<not> bit (a :: u8) (m + n)"
  by (auto dest: bit_imp_le_length)

lemma store16_load16: "store16 (load16 a b) = [a, b]"
  unfolding store16_def load16_def
  by (auto intro!: bit_word_eqI simp: bit_simps)

lemma load16_store16: "load16 (ucast w) (ucast (drop_bit 8 w)) = w"
  unfolding load16_def by (rule bit_word_eqI) (auto simp: bit_simps)

lemma store32_load32: "store32 (load32 a b c d) = [a, b, c, d]"
  unfolding store32_def load32_def
  by (auto intro!: bit_word_eqI simp: bit_simps)

lemma load32_store32:
  "load32 (ucast w) (ucast (drop_bit 8 w)) (ucast (drop_bit 16 w)) (ucast (drop_bit 24 w)) = w"
proof (rule bit_word_eqI)
  fix n
  assume "n < LENGTH(32)"
  then consider "n < 8" | "8 \<le> n" "n < 16" | "16 \<le> n" "n < 24" | "24 \<le> n" "n < 32" by fastforce
  then show "bit (load32 (ucast w) (ucast (drop_bit 8 w)) (ucast (drop_bit 16 w))
      (ucast (drop_bit 24 w))) n = bit w n"
    by cases (auto simp: load32_def bit_simps)
qed

lemma store16_htons: "store16 (htons w) = be16 w"
  by (simp add: htons_def be16_def store16_load16)

lemma store32_htonl: "store32 (htonl w) = be32 w"
  by (simp add: htonl_def be32_def store32_load32)

lemma ntohs_load16_be16: "ntohs (load16 (ucast (drop_bit 8 w)) (ucast w)) = w"
  using store16_load16 [of "ucast (drop_bit 8 w)" "ucast w"] load16_store16 [of w]
  by (simp add: htons_def store16_def)

lemma ntohl_load32_be32:
  "ntohl (load32 (ucast (drop_bit 24 w)) (ucast (drop_bit 16 w)) (ucast (drop_bit 8 w)) (ucast w)) = w"
  using store32_load32 [of "ucast (drop_bit 24 w)" "ucast (drop_bit 16 w)" "ucast (drop_bit 8 w)" "ucast w"]
    load32_store32 [of w]
  by (simp add: htonl_def store32_def)

lemma store32_inject [simp]: "store32 v = store32 w \<longleftrightarrow> v = w"
proof
  assume "store32 v = store32 w"
  then have "ucast v = (ucast w :: u8)" "ucast (drop_bit 8 v) = (ucast (drop_bit 8 w) :: u8)"
    "ucast (drop_bit 16 v) = (ucast (drop_bit 16 w) :: u8)"
    "ucast (drop_bit 24 v) = (ucast (drop_bit 24 w) :: u8)"
    by (simp_all add: store32_def)
  then show "v = w" by (metis load32_store32)
qed simp

section \<open>Reads from a packet buffer\<close>

text \<open>
  A buffer of \<^verbatim>\<open>malloc(n)\<close> holds \<open>n\<close> bytes; a read that leaves it is undefined.  The multi-byte
  reads are the casts \<^verbatim>\<open>*((uint16*)p)\<close> and \<^verbatim>\<open>*((uint32*)p)\<close>.
\<close>

definition read8 :: "u8 list \<Rightarrow> nat \<Rightarrow> u8 res" where
  "read8 buf i = (if i < length buf then Inr (buf ! i) else Inl Out_of_bounds)"

definition read16 :: "u8 list \<Rightarrow> nat \<Rightarrow> u16 res" where
  "read16 buf i = (if i + 1 < length buf then Inr (load16 (buf ! i) (buf ! (i + 1)))
     else Inl Out_of_bounds)"

definition read32 :: "u8 list \<Rightarrow> nat \<Rightarrow> u32 res" where
  "read32 buf i = (if i + 3 < length buf
     then Inr (load32 (buf ! i) (buf ! (i + 1)) (buf ! (i + 2)) (buf ! (i + 3)))
     else Inl Out_of_bounds)"

lemma read8_append [simp]: "read8 (pre @ b # post) (length pre) = Inr b"
  by (simp add: read8_def)

lemma read16_be16:
  assumes "length pre = i"
  shows "rbind (read16 (pre @ be16 w @ post) i) (\<lambda>v. Inr (ntohs v)) = Inr w"
  using assms by (auto simp: read16_def be16_def nth_append ntohs_load16_be16)

lemma read32_be32:
  assumes "length pre = i"
  shows "rbind (read32 (pre @ be32 w @ post) i) (\<lambda>v. Inr (ntohl v)) = Inr w"
  using assms
  by (auto simp: read32_def be32_def nth_append ntohl_load32_be32)

section \<open>The environment of a connected socket\<close>

text \<open>
  What the kernel and the peer do is an argument of the model: the bytes the peer sends, and for
  the \<open>i\<close>-th call how much \<^verbatim>\<open>recv\<close> finds or how much room \<^verbatim>\<open>send\<close> finds, or the error the call
  fails with.  \<^verbatim>\<open>recv\<close> returning 0 is the orderly shutdown of the peer and, as POSIX has it,
  leaves \<^verbatim>\<open>errno\<close> alone.  \<^verbatim>\<open>EAGAIN\<close> and \<^verbatim>\<open>EWOULDBLOCK\<close> are the same number on Linux: the call
  ran into \<^verbatim>\<open>SO_RCVTIMEO\<close> or \<^verbatim>\<open>SO_SNDTIMEO\<close>.
\<close>

datatype errno = EAGAIN | ECONNRESET | Other_errno nat

datatype rx_event = Avail nat | Rx_fail errno
datatype tx_event = Room nat | Tx_fail errno

record socket =
  sk_in :: "u8 list"
  sk_rx :: "nat \<Rightarrow> rx_event"
  rx_pos :: nat
  sk_out :: "u8 list"
  sk_tx :: "nat \<Rightarrow> tx_event"
  tx_pos :: nat
  sk_errno :: errno

definition recv :: "socket \<Rightarrow> u32 \<Rightarrow> int \<times> u8 list \<times> socket" where
  "recv s len = (case sk_rx s (rx_pos s) of
     Avail k \<Rightarrow> (let bs = take (min k (unat len)) (sk_in s)
       in (int (length bs), bs, s\<lparr>sk_in := drop (length bs) (sk_in s), rx_pos := Suc (rx_pos s)\<rparr>))
   | Rx_fail e \<Rightarrow> (-1, [], s\<lparr>rx_pos := Suc (rx_pos s), sk_errno := e\<rparr>))"

definition send :: "socket \<Rightarrow> u8 list \<Rightarrow> int \<times> socket" where
  "send s bs = (case sk_tx s (tx_pos s) of
     Room k \<Rightarrow> (let ac = take k bs
       in (int (length ac), s\<lparr>sk_out := sk_out s @ ac, tx_pos := Suc (tx_pos s)\<rparr>))
   | Tx_fail e \<Rightarrow> (-1, s\<lparr>tx_pos := Suc (tx_pos s), sk_errno := e\<rparr>))"

section \<open>The transfer loop\<close>

text \<open>
  The buffer argument is the memory at \<^verbatim>\<open>data\<close>; \<open>off\<close> is \<^verbatim>\<open>cur_data_ptr - data\<close>.  Receiving
  overwrites the buffer from \<open>off\<close> on.
\<close>

definition overwrite :: "nat \<Rightarrow> u8 list \<Rightarrow> u8 list \<Rightarrow> u8 list" where
  "overwrite off bs buf = take off buf @ bs @ drop (off + length bs) buf"

definition transfer_step ::
  "bool \<Rightarrow> socket \<Rightarrow> u8 list \<Rightarrow> nat \<Rightarrow> u32 \<Rightarrow> int \<times> u8 list \<times> socket" where
  "transfer_step do_send s data off remaining_len =
     (if do_send
      then (let (n, s') = send s (take (unat remaining_len) (drop off data)) in (n, data, s'))
      else (let (n, bs, s') = recv s remaining_len in (n, overwrite off bs data, s')))"

lemma transfer_step_bound:
  "transfer_step do_send s data off rem = (n, data', s') \<Longrightarrow> nat n \<le> unat rem"
  by (auto simp: transfer_step_def send_def recv_def Let_def
      split: if_splits tx_event.splits rx_event.splits)

lemma unat_minus_transferred:
  assumes "0 < n" and "nat n \<le> unat (rem :: u32)"
  shows "unat (rem - of_int n) = unat rem - nat n"
proof -
  have "nat n < 2 ^ LENGTH(32)" using assms(2) unsigned_less [of rem, where 'a = nat] by simp
  then have u: "unat (of_nat (nat n) :: u32) = nat n" by (rule unat_of_nat_small)
  then have "(of_nat (nat n) :: u32) \<le> rem" using assms(2) by (simp add: word_le_nat_alt)
  then have "unat (rem - of_nat (nat n)) = unat rem - nat n" using u by (simp add: unat_sub)
  then show ?thesis using assms(1) by simp
qed

function transfer_loop ::
  "bool \<Rightarrow> socket \<Rightarrow> u8 list \<Rightarrow> nat \<Rightarrow> u32 \<Rightarrow> int \<times> u8 list \<times> socket" where
  "transfer_loop do_send s data off remaining_len =
     (if 0 < remaining_len then
        (let (transferred, data', s') = transfer_step do_send s data off remaining_len in
         if transferred \<le> 0 then (transferred, data', s')
         else transfer_loop do_send s' data' (off + nat transferred) (remaining_len - of_int transferred))
      else (int off, data, s))"
  by pat_completeness auto
termination
proof (relation "measure (\<lambda>(do_send, s, data, off, rem). unat rem)", simp, goal_cases)
  case (1 do_send s data off rem x transferred y data' s')
  then have "nat transferred \<le> unat rem"
    by (metis transfer_step_bound)
  with 1 have "unat (rem - of_int transferred) = unat rem - nat transferred"
    by (intro unat_minus_transferred) auto
  moreover have "0 < unat rem" using 1(1) by (simp add: word_less_nat_alt)
  ultimately show ?case using 1 by simp
qed

declare transfer_loop.simps [simp del]

lemma transfer_loop_0: "transfer_loop do_send s data off 0 = (int off, data, s)"
  by (subst transfer_loop.simps) simp

lemma transfer_loop_stop:
  "0 < rem \<Longrightarrow> transfer_step do_send s data off rem = (n, d, s1) \<Longrightarrow> n \<le> 0 \<Longrightarrow>
    transfer_loop do_send s data off rem = (n, d, s1)"
  by (subst transfer_loop.simps) simp

lemma transfer_loop_go:
  "0 < rem \<Longrightarrow> transfer_step do_send s data off rem = (n, d, s1) \<Longrightarrow> \<not> n \<le> 0 \<Longrightarrow>
    transfer_loop do_send s data off rem = transfer_loop do_send s1 d (off + nat n) (rem - of_int n)"
  by (subst transfer_loop.simps) simp

text \<open>Induction along the loop: it ends at once, in a failed call, or goes on with less to do.\<close>

lemma transfer_induct [case_names zero fail more]:
  assumes "\<And>s data off. P s data off 0"
    and "\<And>s data off rem n d s1. 0 < rem \<Longrightarrow> transfer_step do_send s data off rem = (n, d, s1) \<Longrightarrow>
           n \<le> 0 \<Longrightarrow> P s data off rem"
    and "\<And>s data off rem n d s1. 0 < rem \<Longrightarrow> transfer_step do_send s data off rem = (n, d, s1) \<Longrightarrow>
           0 < n \<Longrightarrow> nat n \<le> unat rem \<Longrightarrow> unat (rem - of_int n) = unat rem - nat n \<Longrightarrow>
           P s1 d (off + nat n) (rem - of_int n) \<Longrightarrow> P s data off rem"
  shows "P s data off (rem :: u32)"
proof (induction "unat rem" arbitrary: s data off rem rule: less_induct)
  case less
  show ?case
  proof (cases "0 < rem")
    case True
    obtain n d s1 where st: "transfer_step do_send s data off rem = (n, d, s1)"
      by (metis prod_cases3)
    have le: "nat n \<le> unat rem" using st by (rule transfer_step_bound)
    show ?thesis
    proof (cases "n \<le> 0")
      case False
      then have r: "unat (rem - of_int n) = unat rem - nat n"
        using le by (intro unat_minus_transferred) auto
      then have "unat (rem - of_int n) < unat rem" using False le by simp
      from less [OF this] have IH: "P s1 d (off + nat n) (rem - of_int n)" .
      have "0 < n" using False by simp
      then show ?thesis by (rule assms(3) [OF True st _ le r IH])
    qed (use st True in \<open>auto intro: assms(2)\<close>)
  qed (use assms(1) in \<open>simp add: word_gt_0\<close>)
qed

definition transfer_all :: "socket \<Rightarrow> bool \<Rightarrow> u8 list \<Rightarrow> u32 \<Rightarrow> int \<times> u8 list \<times> socket" where
  "transfer_all s do_send data data_len = transfer_loop do_send s data 0 data_len"

definition send_all :: "socket \<Rightarrow> u8 list \<Rightarrow> u32 \<Rightarrow> int \<times> socket" where
  "send_all s data data_len = (let (n, _, s') = transfer_all s True data data_len in (n, s'))"

definition recv_all :: "socket \<Rightarrow> u8 list \<Rightarrow> u32 \<Rightarrow> int \<times> u8 list \<times> socket" where
  "recv_all s data data_len = transfer_all s False data data_len"

section \<open>What the loop transfers\<close>

lemma overwrite_Nil [simp]: "overwrite off [] buf = buf"
  by (simp add: overwrite_def)

lemma length_overwrite [simp]:
  "off + length bs \<le> length buf \<Longrightarrow> length (overwrite off bs buf) = length buf"
  by (simp add: overwrite_def)

lemma overwrite_overwrite:
  "i = off + length xs \<Longrightarrow> i + length ys \<le> length buf \<Longrightarrow>
    overwrite i ys (overwrite off xs buf) = overwrite off (xs @ ys) buf"
  by (simp add: overwrite_def ac_simps)

lemma take_length_take: "take (length (take k xs)) xs = take k xs"
  by (cases "k \<le> length xs") simp_all

lemma take_length_take2: "take (length (take k (take j xs))) xs = take k (take j xs)"
  using take_length_take [of "min k j" xs] by (simp only: take_take)

lemma send_step:
  assumes "transfer_step True s data off rem = (n, data', s')" and "off + unat rem \<le> length data"
  shows "data' = data \<and> (n \<le> 0 \<and> sk_out s' = sk_out s
    \<or> 0 < n \<and> sk_out s' = sk_out s @ take (nat n) (drop off data))"
proof (cases "sk_tx s (tx_pos s)")
  case (Room k)
  define ac where "ac = take k (take (unat rem) (drop off data))"
  have "ac = take (length ac) (drop off data)"
    unfolding ac_def by (rule take_length_take2 [symmetric])
  moreover from Room assms(1) have "n = int (length ac)" "data' = data" "sk_out s' = sk_out s @ ac"
    by (auto simp: transfer_step_def send_def Let_def ac_def)
  ultimately show ?thesis by (cases "ac = []") auto
next
  case (Tx_fail e)
  with assms(1) show ?thesis by (auto simp: transfer_step_def send_def)
qed

lemma recv_step:
  assumes "transfer_step False s data off rem = (n, data', s')"
  shows "n \<le> 0 \<and> data' = data \<and> sk_in s' = sk_in s
    \<or> 0 < n \<and> nat n \<le> length (sk_in s) \<and> data' = overwrite off (take (nat n) (sk_in s)) data
        \<and> sk_in s' = drop (nat n) (sk_in s)"
proof (cases "sk_rx s (rx_pos s)")
  case (Avail k)
  define bs where "bs = take (min k (unat rem)) (sk_in s)"
  have "bs = take (length bs) (sk_in s)" "length bs \<le> length (sk_in s)"
    unfolding bs_def by (rule take_length_take [symmetric]) simp
  moreover from Avail assms(1) have "n = int (length bs)" "data' = overwrite off bs data"
    "sk_in s' = drop (length bs) (sk_in s)"
    by (auto simp: transfer_step_def recv_def Let_def bs_def)
  ultimately show ?thesis by (cases "bs = []") auto
next
  case (Rx_fail e)
  with assms(1) show ?thesis by (auto simp: transfer_step_def recv_def)
qed

text \<open>
  Whatever the connection does, the bytes on the wire grow by a prefix of the data; the loop
  reports the whole length exactly when that prefix is all of it.
\<close>

lemma send_loop_spec:
  assumes "transfer_loop True s data off rem = (r, data', s')" and "off + unat rem \<le> length data"
  shows "\<exists>m. sk_out s' = sk_out s @ take m (drop off data)
    \<and> (m = unat rem \<and> r = int (off + unat rem) \<or> m < unat rem \<and> r \<le> 0)"
  using assms
proof (induction s data off rem arbitrary: r data' s' rule: transfer_induct [where do_send = True])
  case (zero s data off)
  then show ?case by (auto simp: transfer_loop_0)
next
  case (fail s data off rem n d s1)
  have "0 < unat rem" using fail.hyps(1) by (simp add: word_less_nat_alt)
  with fail transfer_loop_stop [OF fail.hyps] send_step [OF fail.hyps(2)] show ?case
    by (auto intro: exI [of _ 0])
next
  case (more s data off rem n d s1)
  have d: "d = data" and out: "sk_out s1 = sk_out s @ take (nat n) (drop off data)"
    using send_step [OF more.hyps(2) more.prems(2)] more.hyps(3) by auto
  have "transfer_loop True s1 d (off + nat n) (rem - of_int n) = (r, data', s')"
    using more.prems(1) transfer_loop_go [OF more.hyps(1,2)] more.hyps(3) by simp
  from more.IH [OF this] d more.hyps more.prems(2)
  obtain m where m: "sk_out s' = sk_out s1 @ take m (drop (off + nat n) data)"
    "m = unat rem - nat n \<and> r = int (off + unat rem) \<or> m < unat rem - nat n \<and> r \<le> 0"
    by auto
  have "sk_out s' = sk_out s @ take (nat n + m) (drop off data)"
    using m(1) out by (simp add: take_add [of "nat n" m] add.commute [of off])
  with m(2) more.hyps(4) show ?case by (auto intro!: exI [of _ "nat n + m"])
qed

lemma recv_loop_spec:
  assumes "transfer_loop False s data off rem = (r, data', s')" and "off + unat rem \<le> length data"
  shows "\<exists>m. m \<le> length (sk_in s) \<and> data' = overwrite off (take m (sk_in s)) data
    \<and> sk_in s' = drop m (sk_in s)
    \<and> (m = unat rem \<and> r = int (off + unat rem) \<or> m < unat rem \<and> r \<le> 0)"
  using assms
proof (induction s data off rem arbitrary: r data' s' rule: transfer_induct [where do_send = False])
  case (zero s data off)
  then show ?case by (auto simp: transfer_loop_0)
next
  case (fail s data off rem n d s1)
  have "0 < unat rem" using fail.hyps(1) by (simp add: word_less_nat_alt)
  with fail transfer_loop_stop [OF fail.hyps] recv_step [OF fail.hyps(2)] show ?case
    by (auto intro: exI [of _ 0])
next
  case (more s data off rem n d s1)
  have d: "d = overwrite off (take (nat n) (sk_in s)) data" and i: "sk_in s1 = drop (nat n) (sk_in s)"
    and le: "nat n \<le> length (sk_in s)"
    using recv_step [OF more.hyps(2)] more.hyps(3) by auto
  then have len: "length d = length data" using more.hyps(4) more.prems(2) by simp
  have "transfer_loop False s1 d (off + nat n) (rem - of_int n) = (r, data', s')"
    using more.prems(1) transfer_loop_go [OF more.hyps(1,2)] more.hyps(3) by simp
  from more.IH [OF this] len i more.hyps more.prems(2)
  obtain m where m: "m \<le> length (sk_in s) - nat n"
    "data' = overwrite (off + nat n) (take m (drop (nat n) (sk_in s))) d"
    "sk_in s' = drop m (drop (nat n) (sk_in s))"
    "m = unat rem - nat n \<and> r = int (off + unat rem) \<or> m < unat rem - nat n \<and> r \<le> 0"
    by auto
  have "data' = overwrite off (take (nat n + m) (sk_in s)) data"
    unfolding m(2) d using m(1,4) le more.hyps(4) more.prems(2)
    by (subst overwrite_overwrite) (auto simp: take_add)
  with m le more.hyps(4) show ?case
    by (auto intro!: exI [of _ "nat n + m"] simp: add.commute)
qed

text \<open>With a connection that keeps delivering, how the bytes are cut into calls does not matter.\<close>

lemma recv_loop_complete:
  assumes "\<forall>i. \<exists>k>0. sk_rx s i = Avail k" and "unat rem \<le> length (sk_in s)"
  shows "fst (transfer_loop False s data off rem) = int (off + unat rem)"
  using assms
proof (induction s data off rem rule: transfer_induct [where do_send = False])
  case (zero s data off)
  then show ?case by (simp add: transfer_loop_0)
next
  case (fail s data off rem n d s1)
  from fail.prems(1) obtain k where "0 < k" "sk_rx s (rx_pos s) = Avail k" by blast
  with fail have "take (min k (unat rem)) (sk_in s) = []"
    by (auto simp: transfer_step_def recv_def Let_def)
  moreover have "0 < unat rem" using fail.hyps(1) by (simp add: word_less_nat_alt)
  ultimately show ?case using \<open>0 < k\<close> fail.prems(2) by (auto simp: take_eq_Nil)
next
  case (more s data off rem n d s1)
  have "sk_rx s1 = sk_rx s" using more.hyps(2)
    by (auto simp: transfer_step_def recv_def Let_def split: rx_event.splits)
  moreover have "sk_in s1 = drop (nat n) (sk_in s)"
    using recv_step [OF more.hyps(2)] more.hyps(3) by auto
  ultimately have "fst (transfer_loop False s1 d (off + nat n) (rem - of_int n)) = int (off + unat rem)"
    using more by simp
  then show ?case using transfer_loop_go [OF more.hyps(1,2)] more.hyps(3) by simp
qed

lemma transfer_loop_rx: "transfer_loop do_send s data off rem = (n, d, s') \<Longrightarrow> sk_rx s' = sk_rx s"
proof (induction s data off rem arbitrary: n d s' rule: transfer_induct [where do_send = do_send])
  case (zero s data off)
  then show ?case by (simp add: transfer_loop_0)
next
  case (fail s data off rem n d s1)
  from fail.hyps(2) have "sk_rx s1 = sk_rx s"
    by (auto simp: transfer_step_def send_def recv_def Let_def split: if_splits tx_event.splits rx_event.splits)
  then show ?case using fail.prems transfer_loop_stop [OF fail.hyps] by simp
next
  case (more s data off rem m e s1)
  from more.hyps(2) have "sk_rx s1 = sk_rx s"
    by (auto simp: transfer_step_def send_def recv_def Let_def split: if_splits tx_event.splits rx_event.splits)
  moreover have "transfer_loop do_send s1 e (off + nat m) (rem - of_int m) = (n, d, s')"
    using more.prems transfer_loop_go [OF more.hyps(1,2)] more.hyps(3) by simp
  from more.IH [OF this] have "sk_rx s' = sk_rx s1" .
  ultimately show ?case by simp
qed

lemma recv_all_complete:
  assumes "\<forall>i. \<exists>k>0. sk_rx s i = Avail k"
    and "unat data_len \<le> length (sk_in s)" and "unat data_len \<le> length data"
  shows "\<exists>s'. recv_all s data data_len
      = (int (unat data_len), take (unat data_len) (sk_in s) @ drop (unat data_len) data, s')
    \<and> sk_in s' = drop (unat data_len) (sk_in s) \<and> sk_rx s' = sk_rx s"
proof -
  obtain r d s' where loop: "transfer_loop False s data 0 data_len = (r, d, s')"
    by (metis prod_cases3)
  have r: "r = int (unat data_len)"
    using recv_loop_complete [OF assms(1,2), of data 0] loop by simp
  obtain m where m: "d = overwrite 0 (take m (sk_in s)) data" "sk_in s' = drop m (sk_in s)"
    "m = unat data_len \<and> r = int (unat data_len) \<or> m < unat data_len \<and> r \<le> 0"
    using recv_loop_spec [OF loop] assms(3) by auto
  have "m = unat data_len" using m(3) r by linarith
  with m(1,2) r loop assms(2) transfer_loop_rx [OF loop] show ?thesis
    by (auto simp: recv_all_def transfer_all_def overwrite_def)
qed

section \<open>Data blocks\<close>

record data_block =
  block_data :: "u8 list"
  block_length :: u32

definition block_init :: "u8 list \<Rightarrow> u32 \<Rightarrow> data_block res" where
  "block_init data len = (if unat len \<le> length data
     then Inr \<lparr>block_data = take (unat len) data, block_length = len\<rparr> else Inl Out_of_bounds)"

text \<open>
  \<^verbatim>\<open>block_free\<close> releases the data and then the structure; \<^verbatim>\<open>NULL\<close> is accepted.  The two
  memories are the blocks and the byte arrays they point to.
\<close>

definition block_free :: "(addr \<rightharpoonup> addr) \<Rightarrow> (addr \<rightharpoonup> u8 list) \<Rightarrow> addr \<Rightarrow>
    ((addr \<rightharpoonup> addr) \<times> (addr \<rightharpoonup> u8 list)) res" where
  "block_free blocks datas block =
     (if block = NULL then Inr (blocks, datas)
      else rbind (deref blocks block) (\<lambda>d.
        rbind (free_cell datas d) (\<lambda>datas'.
        rbind (free_cell blocks block) (\<lambda>blocks'. Inr (blocks', datas')))))"

text \<open>
  \<^verbatim>\<open>read_string\<close>: a length and that many bytes.  \<^verbatim>\<open>char\<close> is signed on the host, so every byte
  is sign-extended to \<^verbatim>\<open>int\<close> before the shifts and the sum.  With fewer than four bytes the
  returned structure is not initialised (\<open>None\<close>).  The new array has \<^verbatim>\<open>block.length\<close> bytes, of
  which only the copied ones have a value; the count passed to \<^verbatim>\<open>memcpy\<close> went through a signed
  \<^verbatim>\<open>int\<close>, so from \<open>2 ^ 31\<close> on it is out of every range.
\<close>

abbreviation char_int :: "u8 \<Rightarrow> u32" where "char_int b \<equiv> scast b"

definition read_string_length :: "u8 list \<Rightarrow> u32" where
  "read_string_length data = char_int (data ! 3) + push_bit 8 (char_int (data ! 2))
     + push_bit 16 (char_int (data ! 1)) + push_bit 24 (char_int (data ! 0))"

definition read_string :: "u8 list \<Rightarrow> u32 \<Rightarrow> (u32 \<times> u8 option list) option res" where
  "read_string data len =
     (if len < 4 then Inr None
      else if length data < 4 then Inl Out_of_bounds
      else let blen = read_string_length data;
               len' = len - 4;
               real_length = min len' blen
           in if 2 ^ 31 \<le> unat real_length \<or> length data < 4 + unat real_length
              then Inl Out_of_bounds
              else Inr (Some (blen, map Some (take (unat real_length) (drop 4 data))
                     @ replicate (unat blen - unat real_length) None)))"

section \<open>Properties\<close>

text \<open>
  C29: recv_all reassembles the stream.  As long as the connection keeps delivering and the peer
  sends at least \<open>data_len\<close> bytes, recv_all fills the first \<open>data_len\<close> bytes of the buffer with
  exactly the next bytes of the stream, however the kernel cuts them into calls, leaves the rest
  of the buffer and of the stream alone, and returns \<open>data_len\<close>.
\<close>

theorem recv_all_reassembles:
  assumes "\<forall>i. \<exists>k>0. sk_rx s i = Avail k"
    and "unat data_len \<le> length (sk_in s)" and "unat data_len \<le> length data"
  shows "\<exists>s'. recv_all s data data_len
      = (int (unat data_len), take (unat data_len) (sk_in s) @ drop (unat data_len) data, s')
    \<and> sk_in s' = drop (unat data_len) (sk_in s)"
  using recv_all_complete [OF assms] by blast

theorem recv_all_reassembles_witness:
  "\<exists>s'. recv_all \<lparr>sk_in = [1, 2, 3, 4], sk_rx = (\<lambda>i. Avail 2), rx_pos = 0, sk_out = [],
      sk_tx = (\<lambda>i. Room 1), tx_pos = 0, sk_errno = EAGAIN\<rparr> [0, 0, 0, 9] 3
    = (3, [1, 2, 3, 9], s') \<and> sk_in s' = [4]"
  using recv_all_reassembles [of "\<lparr>sk_in = [1, 2, 3, 4], sk_rx = (\<lambda>i. Avail 2), rx_pos = 0,
    sk_out = [], sk_tx = (\<lambda>i. Room 1), tx_pos = 0, sk_errno = EAGAIN\<rparr>" 3 "[0, 0, 0, 9]"]
  by simp

text \<open>
  C30: send_all is all or nothing in what it reports.  Whatever the connection does, the bytes that
  went out are a prefix of the data; the return value is the full length exactly when the whole
  packet went out, and otherwise it is not positive.  In particular a short positive count is
  never returned.
\<close>

theorem send_all_reports:
  assumes "unat data_len \<le> length data" and "send_all s data data_len = (r, s')"
  shows "\<exists>m. sk_out s' = sk_out s @ take m data
    \<and> (m = unat data_len \<and> r = int (unat data_len) \<or> m < unat data_len \<and> r \<le> 0)"
proof -
  obtain d where "transfer_loop True s data 0 data_len = (r, d, s')"
    using assms(2) by (auto simp: send_all_def transfer_all_def split: prod.splits)
  from send_loop_spec [OF this] assms(1) show ?thesis by simp
qed

theorem send_all_reports_witness:
  "\<exists>m. sk_out (snd (send_all \<lparr>sk_in = [], sk_rx = (\<lambda>i. Avail 2), rx_pos = 0, sk_out = [],
      sk_tx = (\<lambda>i. if i = 0 then Room 1 else Tx_fail EAGAIN), tx_pos = 0, sk_errno = EAGAIN\<rparr>
      [7, 8, 9] 3)) = [] @ take m [7, 8, 9] \<and> m < 3"
proof -
  let ?s = "\<lparr>sk_in = [], sk_rx = (\<lambda>i. Avail 2), rx_pos = 0, sk_out = [],
      sk_tx = (\<lambda>i. if i = 0 then Room 1 else Tx_fail EAGAIN), tx_pos = 0, sk_errno = EAGAIN\<rparr>"
  obtain r s' where res: "send_all ?s [7, 8, 9] 3 = (r, s')" by fastforce
  have "r = -1" using res
    by (simp add: send_all_def transfer_all_def transfer_loop.simps transfer_step_def send_def)
  with send_all_reports [OF _ res] res show ?thesis by auto
qed

end
