(* ===== verification/Uthash.thy ===== *)
theory Uthash
  imports Prelude "HOL-Library.Multiset"
begin

text \<open>
  The hash table of \<^verbatim>\<open>uthash.h\<close> as the server uses it: Jenkins' hash, buckets with chains,
  insertion with the doubling of the bucket array, lookup, deletion, and the list of all items in
  insertion order.  A handle is the element it is embedded in, the bytes of its key and the
  hash value; the two doubly linked lists it is threaded on (\<^verbatim>\<open>prev\<close>/\<^verbatim>\<open>next\<close> and
  \<^verbatim>\<open>hh_prev\<close>/\<^verbatim>\<open>hh_next\<close>) are the lists \<open>app\<close> and \<open>bk_chain\<close>.  The key field of an element is never
  written after the element was added, so its bytes are kept in the handle.
\<close>

section \<open>Jenkins' hash\<close>

type_synonym jen = "u32 \<times> u32 \<times> u32"

text \<open>
  Each of the nine lines of \<^verbatim>\<open>HASH_JEN_MIX\<close> changes one of the three words; the lines for \<open>a\<close>, \<open>b\<close>
  and \<open>c\<close> differ only in the distance they shift by.
\<close>

fun jen_a :: "nat \<Rightarrow> jen \<Rightarrow> jen" where
  "jen_a n (a, b, c) = ((a - b - c) XOR drop_bit n c, b, c)"

fun jen_b :: "nat \<Rightarrow> jen \<Rightarrow> jen" where
  "jen_b n (a, b, c) = (a, (b - c - a) XOR push_bit n a, c)"

fun jen_c :: "nat \<Rightarrow> jen \<Rightarrow> jen" where
  "jen_c n (a, b, c) = (a, b, (c - a - b) XOR drop_bit n b)"

definition HASH_JEN_MIX :: "jen \<Rightarrow> jen" where
  "HASH_JEN_MIX m =
     jen_c 15 (jen_b 10 (jen_a 3 (jen_c 5 (jen_b 16 (jen_a 12 (jen_c 13 (jen_b 8 (jen_a 13 m))))))))"

text \<open>Four bytes of the key, as the macro adds them up.\<close>

definition jen_word :: "u8 list \<Rightarrow> nat \<Rightarrow> u32" where
  "jen_word key i = ucast (key ! i) + push_bit 8 (ucast (key ! (i + 1)))
     + push_bit 16 (ucast (key ! (i + 2))) + push_bit 24 (ucast (key ! (i + 3)))"

function jen_loop :: "u8 list \<Rightarrow> jen \<Rightarrow> u8 list \<times> jen" where
  "jen_loop key (i, j, h) =
     (if 12 \<le> length key
      then jen_loop (drop 12 key) (HASH_JEN_MIX (i + jen_word key 0, j + jen_word key 4, h + jen_word key 8))
      else (key, (i, j, h)))"
  by pat_completeness auto
termination by (relation "measure (\<lambda>(key, s). length key)") auto

declare jen_loop.simps [simp del]

text \<open>
  The \<^verbatim>\<open>switch\<close> over the remaining \<open>k < 12\<close> bytes falls through from case \<open>k\<close> to case \<open>1\<close>: byte
  \<open>n\<close> takes part exactly if \<open>n < k\<close>.
\<close>

definition jen_at :: "u8 list \<Rightarrow> nat \<Rightarrow> u32" where
  "jen_at rest n = (if n < length rest then ucast (rest ! n) else 0)"

fun jen_tail :: "nat \<Rightarrow> u8 list \<times> jen \<Rightarrow> jen" where
  "jen_tail keylen (rest, (i, j, h)) =
     (i + push_bit 24 (jen_at rest 3) + push_bit 16 (jen_at rest 2) + push_bit 8 (jen_at rest 1)
        + jen_at rest 0,
      j + push_bit 24 (jen_at rest 7) + push_bit 16 (jen_at rest 6) + push_bit 8 (jen_at rest 5)
        + jen_at rest 4,
      h + of_nat keylen + push_bit 24 (jen_at rest 10) + push_bit 16 (jen_at rest 9)
        + push_bit 8 (jen_at rest 8))"

definition HASH_JEN :: "u8 list \<Rightarrow> u32" where
  "HASH_JEN key = snd (snd (HASH_JEN_MIX
     (jen_tail (length key) (jen_loop key (0x9e3779b9, 0x9e3779b9, 0xfeedbeef)))))"

section \<open>Tables\<close>

record UT_hash_handle =
  hh_elt :: addr
  hh_key :: "u8 list"
  hh_hashv :: u32

record UT_hash_bucket =
  bk_chain :: "UT_hash_handle list"
  bk_count :: u32
  expand_mult :: u32

record UT_hash_table =
  buckets :: "UT_hash_bucket list"
  num_buckets :: u32
  log2_num_buckets :: u32
  num_items :: u32
  app :: "UT_hash_handle list"
  ideal_chain_maxlen :: u32
  nonideal_items :: u32
  ineff_expands :: u32
  noexpand :: u32

text \<open>The head pointer of a table: \<^verbatim>\<open>NULL\<close> is the empty table.\<close>

type_synonym hash_head = "UT_hash_table option"

definition empty_bucket :: UT_hash_bucket where
  "empty_bucket = \<lparr>bk_chain = [], bk_count = 0, expand_mult = 0\<rparr>"

definition HASH_MAKE_TABLE :: UT_hash_table where
  "HASH_MAKE_TABLE = \<lparr>buckets = replicate 32 empty_bucket, num_buckets = 32, log2_num_buckets = 5,
     num_items = 0, app = [], ideal_chain_maxlen = 0, nonideal_items = 0, ineff_expands = 0,
     noexpand = 0\<rparr>"

definition HASH_TO_BKT :: "u32 \<Rightarrow> u32 \<Rightarrow> nat" where
  "HASH_TO_BKT hashv num_bkts = unat (hashv AND (num_bkts - 1))"

text \<open>Moving one handle to its bucket of the doubled array.\<close>

definition expand_insert ::
  "u32 \<Rightarrow> u32 \<Rightarrow> UT_hash_handle \<Rightarrow> UT_hash_bucket list \<times> u32 \<Rightarrow> UT_hash_bucket list \<times> u32" where
  "expand_insert num_bkts ideal thh st =
     (let (new_buckets, nonideal) = st;
          bkt = HASH_TO_BKT (hh_hashv thh) num_bkts;
          newbkt = new_buckets ! bkt;
          newbkt = newbkt\<lparr>bk_count := bk_count newbkt + 1\<rparr>;
          (newbkt, nonideal) = (if bk_count newbkt > ideal
             then (newbkt\<lparr>expand_mult := bk_count newbkt div ideal\<rparr>, nonideal + 1)
             else (newbkt, nonideal));
          newbkt = newbkt\<lparr>bk_chain := thh # bk_chain newbkt\<rparr>
      in (new_buckets[bkt := newbkt], nonideal))"

definition HASH_EXPAND_BUCKETS :: "UT_hash_table \<Rightarrow> UT_hash_table" where
  "HASH_EXPAND_BUCKETS tbl =
     (let ideal = drop_bit (unat (log2_num_buckets tbl + 1)) (num_items tbl)
            + (if num_items tbl AND (num_buckets tbl * 2 - 1) \<noteq> 0 then 1 else 0);
          (new_buckets, nonideal) =
            fold (expand_insert (num_buckets tbl * 2) ideal) (concat (map bk_chain (buckets tbl)))
              (replicate (unat (2 * num_buckets tbl)) empty_bucket, 0);
          ineff = (if nonideal > drop_bit 1 (num_items tbl) then ineff_expands tbl + 1 else 0)
      in tbl\<lparr>buckets := new_buckets, num_buckets := num_buckets tbl * 2,
             log2_num_buckets := log2_num_buckets tbl + 1, ideal_chain_maxlen := ideal,
             nonideal_items := nonideal, ineff_expands := ineff,
             noexpand := (if ineff > 1 then 1 else noexpand tbl)\<rparr>)"

definition HASH_ADD_TO_BKT :: "UT_hash_table \<Rightarrow> nat \<Rightarrow> UT_hash_handle \<Rightarrow> UT_hash_table" where
  "HASH_ADD_TO_BKT tbl bkt addhh =
     (let b = buckets tbl ! bkt;
          b = b\<lparr>bk_count := bk_count b + 1, bk_chain := addhh # bk_chain b\<rparr>;
          tbl = tbl\<lparr>buckets := (buckets tbl)[bkt := b]\<rparr>
      in if bk_count b \<ge> (expand_mult b + 1) * 10 \<and> noexpand tbl \<noteq> 1
         then HASH_EXPAND_BUCKETS tbl else tbl)"

text \<open>\<^verbatim>\<open>HASH_ADD(hh, head, field, keylen, add)\<close>: there is no check for an equal key.\<close>

definition HASH_ADD :: "hash_head \<Rightarrow> u8 list \<Rightarrow> addr \<Rightarrow> hash_head" where
  "HASH_ADD head key add =
     (let tbl = (case head of None \<Rightarrow> HASH_MAKE_TABLE | Some t \<Rightarrow> t);
          hh = \<lparr>hh_elt = add, hh_key = key, hh_hashv = HASH_JEN key\<rparr>;
          tbl = tbl\<lparr>app := app tbl @ [hh], num_items := num_items tbl + 1\<rparr>
      in Some (HASH_ADD_TO_BKT tbl (HASH_TO_BKT (hh_hashv hh) (num_buckets tbl)) hh))"

definition HASH_FIND_IN_BKT :: "UT_hash_bucket \<Rightarrow> u8 list \<Rightarrow> addr option" where
  "HASH_FIND_IN_BKT bkt key =
     map_option hh_elt (find (\<lambda>h. length (hh_key h) = length key \<and> hh_key h = key) (bk_chain bkt))"

definition HASH_FIND :: "hash_head \<Rightarrow> u8 list \<Rightarrow> addr option" where
  "HASH_FIND head key = (case head of None \<Rightarrow> None
     | Some t \<Rightarrow> HASH_FIND_IN_BKT (buckets t ! HASH_TO_BKT (HASH_JEN key) (num_buckets t)) key)"

definition HASH_DEL_IN_BKT :: "UT_hash_bucket \<Rightarrow> UT_hash_handle \<Rightarrow> UT_hash_bucket" where
  "HASH_DEL_IN_BKT b hh_del = b\<lparr>bk_count := bk_count b - 1, bk_chain := remove1 hh_del (bk_chain b)\<rparr>"

text \<open>
  \<^verbatim>\<open>HASH_DELETE(hh, head, delptr)\<close>: the only item (no \<^verbatim>\<open>prev\<close>, no \<^verbatim>\<open>next\<close>) takes the whole table
  with it.  An element that is not in the table has no valid handle.
\<close>

definition HASH_DELETE :: "hash_head \<Rightarrow> addr \<Rightarrow> hash_head res" where
  "HASH_DELETE head delptr = (case head of
     None \<Rightarrow> Inl Null_deref
   | Some t \<Rightarrow> (case find (\<lambda>h. hh_elt h = delptr) (app t) of
       None \<Rightarrow> Inl Use_after_free
     | Some hh \<Rightarrow>
         if app t = [hh] then Inr None
         else let bkt = HASH_TO_BKT (hh_hashv hh) (num_buckets t)
              in Inr (Some (t\<lparr>app := remove1 hh (app t),
                   buckets := (buckets t)[bkt := HASH_DEL_IN_BKT (buckets t ! bkt) hh],
                   num_items := num_items t - 1\<rparr>))))"

text \<open>\<^verbatim>\<open>HASH_ITER\<close> and \<^verbatim>\<open>hh.next\<close> visit the elements in insertion order; \<^verbatim>\<open>HASH_COUNT\<close>.\<close>

definition hash_elts :: "hash_head \<Rightarrow> addr list" where
  "hash_elts head = (case head of None \<Rightarrow> [] | Some t \<Rightarrow> map hh_elt (app t))"

definition HASH_COUNT :: "hash_head \<Rightarrow> u32" where
  "HASH_COUNT head = (case head of None \<Rightarrow> 0 | Some t \<Rightarrow> num_items t)"

section \<open>Integrity\<close>

text \<open>
  What \<^verbatim>\<open>HASH_FSCK\<close> checks and what lookup needs: every chain holds exactly the items of its
  bucket, the counts are the lengths, and all chains together hold the items of the table.
\<close>

definition chains_ok :: "UT_hash_bucket list \<Rightarrow> u32 \<Rightarrow> UT_hash_handle multiset \<Rightarrow> bool" where
  "chains_ok bs n hs \<longleftrightarrow> n \<noteq> 0 \<and> length bs = unat n
     \<and> (\<forall>i < length bs. bk_count (bs ! i) = of_nat (length (bk_chain (bs ! i)))
          \<and> (\<forall>h \<in> set (bk_chain (bs ! i)). HASH_TO_BKT (hh_hashv h) n = i))
     \<and> mset (concat (map bk_chain bs)) = hs"

definition table_ok :: "UT_hash_table \<Rightarrow> bool" where
  "table_ok t \<longleftrightarrow> length (app t) < 2 ^ 32 \<and> num_items t = of_nat (length (app t))
     \<and> chains_ok (buckets t) (num_buckets t) (mset (app t))
     \<and> (\<forall>h \<in> set (app t). hh_hashv h = HASH_JEN (hh_key h))
     \<and> distinct (map hh_elt (app t))
     \<and> unat (num_buckets t) = 2 ^ unat (log2_num_buckets t)"

definition hash_ok :: "hash_head \<Rightarrow> bool" where
  "hash_ok head = (case head of None \<Rightarrow> True | Some t \<Rightarrow> app t \<noteq> [] \<and> table_ok t)"

text \<open>
  Room for one more item: the 32-bit counters do not wrap, also if the bucket array is doubled
  (with \<open>2 ^ 30\<close> buckets the array would take 16 GiB).
\<close>

definition hash_room :: "hash_head \<Rightarrow> bool" where
  "hash_room head = (case head of None \<Rightarrow> True
     | Some t \<Rightarrow> length (app t) + 1 < 2 ^ 32 \<and> unat (log2_num_buckets t) < 30)"

definition hash_entries :: "hash_head \<Rightarrow> (u8 list \<times> addr) list" where
  "hash_entries head = (case head of None \<Rightarrow> []
     | Some t \<Rightarrow> map (\<lambda>h. (hh_key h, hh_elt h)) (app t))"

lemma HASH_TO_BKT_bound:
  assumes "n \<noteq> 0"
  shows "HASH_TO_BKT h n < unat n"
proof -
  have "h AND (n - 1) \<le> n - 1" by (rule word_and_le1)
  also have "n - 1 < n" using assms by (simp add: word_less_nat_alt unat_minus_one unat_gt_0)
  finally show ?thesis by (simp add: HASH_TO_BKT_def word_less_nat_alt)
qed

lemma mset_concat_update:
  "i < length bs \<Longrightarrow> mset (concat (map f (bs[i := b]))) + mset (f (bs ! i))
     = mset (concat (map f bs)) + mset (f b)"
proof (induction bs arbitrary: i)
  case Nil
  then show ?case by simp
next
  case (Cons a bs)
  then show ?case by (cases i) (auto simp: ac_simps)
qed

lemma chains_ok_insert:
  assumes C: "chains_ok bs n hs" and i: "i = HASH_TO_BKT (hh_hashv h) n"
    and b: "bk_chain b = h # bk_chain (bs ! i)" "bk_count b = bk_count (bs ! i) + 1"
  shows "chains_ok (bs[i := b]) n (add_mset h hs)"
proof -
  have len: "i < length bs" using C HASH_TO_BKT_bound i by (simp add: chains_ok_def)
  then have "mset (concat (map bk_chain (bs[i := b]))) + mset (bk_chain (bs ! i))
      = add_mset h hs + mset (bk_chain (bs ! i))"
    using mset_concat_update [OF len, of bk_chain b] C b by (simp add: chains_ok_def)
  then have "mset (concat (map bk_chain (bs[i := b]))) = add_mset h hs" by simp
  with C i b len show ?thesis
    by (auto simp: chains_ok_def nth_list_update)
qed

lemma chains_ok_remove:
  assumes C: "chains_ok bs n hs" and h: "h \<in># hs" and i: "i = HASH_TO_BKT (hh_hashv h) n"
  shows "chains_ok (bs[i := HASH_DEL_IN_BKT (bs ! i) h]) n (hs - {#h#})"
proof -
  from C h have "h \<in> set (concat (map bk_chain bs))"
    unfolding chains_ok_def by (metis set_mset_mset)
  then obtain c where "c \<in> set bs" "h \<in> set (bk_chain c)" by auto
  then obtain j where j: "j < length bs" "h \<in> set (bk_chain (bs ! j))"
    by (metis in_set_conv_nth)
  with C i have mem: "i < length bs" "h \<in> set (bk_chain (bs ! i))"
    by (auto simp: chains_ok_def)
  let ?b = "HASH_DEL_IN_BKT (bs ! i) h"
  have del: "mset (bk_chain (bs ! i)) = add_mset h (mset (bk_chain ?b))"
    using mem(2) by (simp add: HASH_DEL_IN_BKT_def)
  then have "mset (concat (map bk_chain (bs[i := ?b]))) + {#h#} = hs"
    using mset_concat_update [OF mem(1), of bk_chain ?b] C by (simp add: chains_ok_def)
  then have "mset (concat (map bk_chain (bs[i := ?b]))) = hs - {#h#}" by (metis add_diff_cancel_right')
  moreover have "of_nat (length (bk_chain (bs ! i))) - 1 = (of_nat (length (bk_chain ?b)) :: u32)"
    using arg_cong [OF del, of size] by simp
  ultimately show ?thesis using C i mem(1)
    by (auto simp: chains_ok_def nth_list_update HASH_DEL_IN_BKT_def
        dest: set_remove1_subset [THEN subsetD])
qed

lemma chains_ok_empty: "n \<noteq> 0 \<Longrightarrow> chains_ok (replicate (unat n) empty_bucket) n {#}"
  by (simp add: chains_ok_def empty_bucket_def)

lemma expand_insert_ok:
  assumes "chains_ok bs n hs"
  shows "chains_ok (fst (expand_insert n ideal h (bs, x))) n (add_mset h hs)"
  by (auto simp: expand_insert_def Let_def intro!: chains_ok_insert [OF assms])

lemma expand_fold_ok:
  "chains_ok (fst st) n hs \<Longrightarrow>
    chains_ok (fst (fold (expand_insert n ideal) xs st)) n (hs + mset xs)"
proof (induction xs arbitrary: st hs)
  case Nil
  then show ?case by simp
next
  case (Cons x xs)
  from Cons.IH [OF expand_insert_ok [OF Cons.prems, of ideal x "snd st"]] show ?case by simp
qed

text \<open>Doubling keeps the items and puts each into its bucket of the new array.\<close>

lemma HASH_EXPAND_BUCKETS_simps:
  "app (HASH_EXPAND_BUCKETS t) = app t"
  "num_items (HASH_EXPAND_BUCKETS t) = num_items t"
  "num_buckets (HASH_EXPAND_BUCKETS t) = num_buckets t * 2"
  "log2_num_buckets (HASH_EXPAND_BUCKETS t) = log2_num_buckets t + 1"
  by (simp_all add: HASH_EXPAND_BUCKETS_def Let_def split: prod.splits)

lemma HASH_EXPAND_BUCKETS_chains:
  assumes "chains_ok (buckets t) (num_buckets t) hs" and "num_buckets t * 2 \<noteq> 0"
  shows "chains_ok (buckets (HASH_EXPAND_BUCKETS t)) (num_buckets t * 2) hs"
proof -
  have "mset (concat (map bk_chain (buckets t))) = hs" using assms(1) by (simp add: chains_ok_def)
  moreover have "chains_ok (replicate (unat (2 * num_buckets t)) empty_bucket) (num_buckets t * 2) {#}"
    using chains_ok_empty [OF assms(2)] by (simp add: mult.commute)
  ultimately show ?thesis
    using expand_fold_ok [of "(replicate (unat (2 * num_buckets t)) empty_bucket, 0)"
      "num_buckets t * 2" "{#}" _ "concat (map bk_chain (buckets t))"]
    by (simp add: HASH_EXPAND_BUCKETS_def Let_def case_prod_beta)
qed

lemma doubling_no_wrap:
  assumes "unat (n :: u32) = 2 ^ unat (l :: u32)" and "unat l < 30"
  shows "unat (n * 2) = 2 ^ unat (l + 1)" and "n * 2 \<noteq> 0"
proof -
  have "(2::nat) ^ unat l \<le> 2 ^ 29" using assms(2) by (intro power_increasing) auto
  then have n: "unat n * 2 < 2 ^ 32" using assms(1) by simp
  then have d: "unat (n * 2) = unat n * 2" by (simp add: unat_mult_lem [THEN iffD1])
  have "unat (l + 1) = unat l + 1" using assms(2) by (simp add: unat_add_lem [THEN iffD1])
  with d assms(1) show "unat (n * 2) = 2 ^ unat (l + 1)" by simp
  have "0 < unat n" using assms(1) by simp
  with d have "0 < unat (n * 2)" by simp
  then show "n * 2 \<noteq> 0" by auto
qed

lemma HASH_ADD_TO_BKT_ok:
  assumes C: "chains_ok (buckets t) (num_buckets t) hs"
    and i: "i = HASH_TO_BKT (hh_hashv h) (num_buckets t)"
    and l: "unat (num_buckets t) = 2 ^ unat (log2_num_buckets t)" "unat (log2_num_buckets t) < 30"
  defines "t' \<equiv> HASH_ADD_TO_BKT t i h"
  shows "chains_ok (buckets t') (num_buckets t') (add_mset h hs)"
    and "unat (num_buckets t') = 2 ^ unat (log2_num_buckets t')"
    and "app t' = app t" and "num_items t' = num_items t"
proof -
  let ?b = "(buckets t ! i)\<lparr>bk_count := bk_count (buckets t ! i) + 1,
      bk_chain := h # bk_chain (buckets t ! i)\<rparr>"
  let ?t = "t\<lparr>buckets := (buckets t)[i := ?b]\<rparr>"
  have t': "t' = ?t \<or> t' = HASH_EXPAND_BUCKETS ?t"
    by (simp add: t'_def HASH_ADD_TO_BKT_def Let_def)
  have ins: "chains_ok (buckets ?t) (num_buckets ?t) (add_mset h hs)"
    using chains_ok_insert [OF C i, of ?b] by simp
  note exp = HASH_EXPAND_BUCKETS_simps [of ?t] HASH_EXPAND_BUCKETS_chains [OF ins]
  show "chains_ok (buckets t') (num_buckets t') (add_mset h hs)"
    using t' ins exp doubling_no_wrap [OF l] by auto
  show "unat (num_buckets t') = 2 ^ unat (log2_num_buckets t')"
    using t' exp doubling_no_wrap [OF l] l by auto
  show "app t' = app t" "num_items t' = num_items t"
    using t' exp by auto
qed

lemma HASH_MAKE_TABLE_ok: "table_ok HASH_MAKE_TABLE"
  using chains_ok_empty [of 32] by (simp add: table_ok_def HASH_MAKE_TABLE_def)

section \<open>Lookup, insertion, deletion\<close>

lemma bucket_in_range: "table_ok t \<Longrightarrow> HASH_TO_BKT h (num_buckets t) < length (buckets t)"
  unfolding table_ok_def chains_ok_def by (metis HASH_TO_BKT_bound)

lemma HASH_FIND_bucket:
  assumes "table_ok t" and "h \<in> set (app t)"
  defines "b \<equiv> buckets t ! HASH_TO_BKT (hh_hashv h) (num_buckets t)"
  shows "h \<in> set (bk_chain b)"
proof -
  have C: "chains_ok (buckets t) (num_buckets t) (mset (app t))" using assms(1) by (simp add: table_ok_def)
  then have "h \<in> set (concat (map bk_chain (buckets t)))"
    using assms(2) unfolding chains_ok_def by (metis set_mset_mset)
  then obtain c where "c \<in> set (buckets t)" "h \<in> set (bk_chain c)" by auto
  with C show ?thesis unfolding b_def chains_ok_def by (metis in_set_conv_nth)
qed

lemma chain_in_app:
  assumes "table_ok t" and "i < length (buckets t)" and "h \<in> set (bk_chain (buckets t ! i))"
  shows "h \<in> set (app t)"
proof -
  have "h \<in> set (concat (map bk_chain (buckets t)))" using assms(2,3) by (auto intro!: bexI nth_mem)
  then show ?thesis using assms(1) unfolding table_ok_def chains_ok_def by (metis set_mset_mset)
qed

lemma HASH_FIND_Some:
  assumes "hash_ok head" and "HASH_FIND head k = Some a"
  shows "(k, a) \<in> set (hash_entries head)"
proof -
  from assms obtain t h where t: "head = Some t" "table_ok t"
    and h: "find (\<lambda>h. length (hh_key h) = length k \<and> hh_key h = k)
        (bk_chain (buckets t ! HASH_TO_BKT (HASH_JEN k) (num_buckets t))) = Some h" "hh_elt h = a"
    by (auto simp: HASH_FIND_def hash_ok_def HASH_FIND_IN_BKT_def split: option.splits)
  have i: "HASH_TO_BKT (HASH_JEN k) (num_buckets t) < length (buckets t)"
    using t(2) by (rule bucket_in_range)
  from h(1) have "hh_key h = k"
    "h \<in> set (bk_chain (buckets t ! HASH_TO_BKT (HASH_JEN k) (num_buckets t)))"
    by (auto simp: find_Some_iff)
  with chain_in_app [OF t(2) i] h(2) t(1) show ?thesis
    by (auto simp: hash_entries_def)
qed

lemma HASH_FIND_None:
  assumes "hash_ok head" and "HASH_FIND head k = None"
  shows "k \<notin> fst ` set (hash_entries head)"
proof
  assume "k \<in> fst ` set (hash_entries head)"
  then obtain t h where t: "head = Some t" "h \<in> set (app t)" "hh_key h = k"
    by (auto simp: hash_entries_def split: option.splits)
  with assms have ok: "table_ok t" and "hh_hashv h = HASH_JEN k"
    by (auto simp: hash_ok_def table_ok_def)
  with HASH_FIND_bucket [OF ok t(2)]
  have "h \<in> set (bk_chain (buckets t ! HASH_TO_BKT (HASH_JEN k) (num_buckets t)))" by simp
  with assms(2) t show False
    by (auto simp: HASH_FIND_def HASH_FIND_IN_BKT_def find_None_iff)
qed

lemma HASH_ADD_ok:
  assumes "hash_ok head" and "hash_room head" and "a \<notin> snd ` set (hash_entries head)"
  shows "hash_ok (HASH_ADD head k a)"
    and "hash_entries (HASH_ADD head k a) = hash_entries head @ [(k, a)]"
proof -
  define t where "t = (case head of None \<Rightarrow> HASH_MAKE_TABLE | Some t \<Rightarrow> t)"
  define hh where "hh = \<lparr>hh_elt = a, hh_key = k, hh_hashv = HASH_JEN k\<rparr>"
  define t1 where "t1 = t\<lparr>app := app t @ [hh], num_items := num_items t + 1\<rparr>"
  define t2 where "t2 = HASH_ADD_TO_BKT t1 (HASH_TO_BKT (hh_hashv hh) (num_buckets t1)) hh"
  have add: "HASH_ADD head k a = Some t2"
    by (simp add: HASH_ADD_def t_def hh_def t1_def t2_def Let_def)
  have ok: "table_ok t" using assms(1) HASH_MAKE_TABLE_ok
    by (auto simp: t_def hash_ok_def split: option.splits)
  have room: "length (app t) + 1 < 2 ^ 32" "unat (log2_num_buckets t) < 30"
    using assms(2) by (auto simp: t_def hash_room_def HASH_MAKE_TABLE_def split: option.splits)
  have ent: "hash_entries head = map (\<lambda>h. (hh_key h, hh_elt h)) (app t)"
    by (auto simp: t_def hash_entries_def HASH_MAKE_TABLE_def split: option.splits)
  have "chains_ok (buckets t1) (num_buckets t1) (mset (app t))"
    "unat (num_buckets t1) = 2 ^ unat (log2_num_buckets t1)" "unat (log2_num_buckets t1) < 30"
    using ok room by (auto simp: t1_def table_ok_def)
  note t2 = HASH_ADD_TO_BKT_ok [OF this(1) refl this(2,3), of hh, folded t2_def]
  show "hash_entries (HASH_ADD head k a) = hash_entries head @ [(k, a)]"
    using add t2(3) ent by (simp add: hash_entries_def t1_def hh_def)
  have "distinct (map hh_elt (app t @ [hh]))"
    using ok assms(3) ent by (auto simp: table_ok_def hh_def image_image)
  then show "hash_ok (HASH_ADD head k a)"
    using add t2 ok room by (auto simp: hash_ok_def table_ok_def t1_def hh_def)
qed

lemma HASH_DELETE_ok:
  assumes "hash_ok head" and "(k, a) \<in> set (hash_entries head)"
  shows "\<exists>head'. HASH_DELETE head a = Inr head' \<and> hash_ok head'
    \<and> hash_entries head' = filter (\<lambda>e. snd e \<noteq> a) (hash_entries head)"
proof -
  from assms obtain t h where t: "head = Some t" "table_ok t" and h: "h \<in> set (app t)" "hh_elt h = a"
    by (auto simp: hash_entries_def hash_ok_def split: option.splits)
  have dist: "distinct (map hh_elt (app t))" using t(2) by (simp add: table_ok_def)
  have uniq: "g = h" if "g \<in> set (app t)" "hh_elt g = a" for g
    using that h dist by (metis distinct_map inj_onD)
  have find: "find (\<lambda>g. hh_elt g = a) (app t) = Some h"
  proof (cases "find (\<lambda>g. hh_elt g = a) (app t)")
    case None
    with h show ?thesis by (simp add: find_None_iff)
  next
    case (Some g)
    then have "g \<in> set (app t)" "hh_elt g = a" by (auto simp: find_Some_iff)
    with uniq Some show ?thesis by blast
  qed
  have rem: "remove1 h (app t) = filter (\<lambda>g. hh_elt g \<noteq> a) (app t)"
  proof -
    have "remove1 h (app t) = filter (\<lambda>g. h \<noteq> g) (app t)"
      using dist by (simp add: distinct_remove1_removeAll distinct_map removeAll_filter_not_eq)
    also have "\<dots> = filter (\<lambda>g. hh_elt g \<noteq> a) (app t)"
    proof (rule filter_cong [OF refl])
      fix g assume "g \<in> set (app t)"
      then show "(h \<noteq> g) = (hh_elt g \<noteq> a)" using uniq [of g] h(2) by blast
    qed
    finally show ?thesis .
  qed
  have ent: "filter (\<lambda>e. snd e \<noteq> a) (hash_entries head)
      = map (\<lambda>g. (hh_key g, hh_elt g)) (filter (\<lambda>g. hh_elt g \<noteq> a) (app t))"
    using t(1) by (simp add: hash_entries_def filter_map o_def)
  show ?thesis
  proof (cases "app t = [h]")
    case True
    with find t(1) ent h(2) show ?thesis
      by (auto simp: HASH_DELETE_def hash_ok_def hash_entries_def)
  next
    case False
    let ?i = "HASH_TO_BKT (hh_hashv h) (num_buckets t)"
    let ?t = "t\<lparr>app := remove1 h (app t),
      buckets := (buckets t)[?i := HASH_DEL_IN_BKT (buckets t ! ?i) h], num_items := num_items t - 1\<rparr>"
    have del: "HASH_DELETE head a = Inr (Some ?t)"
      using find t(1) False by (simp add: HASH_DELETE_def Let_def)
    have "chains_ok (buckets ?t) (num_buckets t) (mset (app t) - {#h#})"
      using chains_ok_remove [of "buckets t" "num_buckets t" "mset (app t)" h ?i] t(2) h(1)
      by (simp add: table_ok_def)
    moreover have ne: "remove1 h (app t) \<noteq> []"
      using False h(1) by (cases "app t") (auto split: if_splits)
    moreover have "num_items t - 1 = of_nat (length (remove1 h (app t)))"
    proof -
      have "length (app t) = Suc (length (remove1 h (app t)))"
        using h(1) length_pos_if_in_set [OF h(1)] by (simp add: length_remove1)
      then show ?thesis using t(2) by (simp add: table_ok_def)
    qed
    ultimately have "hash_ok (Some ?t)"
      using t(2) by (auto simp: hash_ok_def table_ok_def length_remove1 distinct_map
        dest: set_remove1_subset [THEN subsetD] intro: inj_on_subset)
    with del ent rem show ?thesis by (auto simp: hash_entries_def)
  qed
qed

section \<open>The interface of a table\<close>

lemma map_of_snoc:
  "k \<notin> fst ` set xs \<Longrightarrow> map_of (xs @ [(k, a)]) k' = (if k' = k then Some a else map_of xs k')"
  by (induction xs) auto

lemma map_of_filter_key:
  "map_of (filter (\<lambda>e. fst e \<noteq> k) xs) k' = (if k' = k then None else map_of xs k')"
  by (induction xs) auto

text \<open>
  What the server relies on.  Keys are not unique by themselves: \<open>add\<close> does not look for an equal
  key, so a lookup gives some element with the key.  Where the keys are distinct, the table is a
  finite map.
\<close>

locale key_table =
  fixes invar :: "'t \<Rightarrow> bool"
    and room :: "'t \<Rightarrow> bool"
    and entries :: "'t \<Rightarrow> ('k \<times> 'e) list"
    and find_key :: "'t \<Rightarrow> 'k \<Rightarrow> 'e option"
    and add_key :: "'t \<Rightarrow> 'k \<Rightarrow> 'e \<Rightarrow> 't"
    and delete :: "'t \<Rightarrow> 'e \<Rightarrow> 't res"
  assumes find_Some: "invar t \<Longrightarrow> find_key t k = Some a \<Longrightarrow> (k, a) \<in> set (entries t)"
    and find_None: "invar t \<Longrightarrow> find_key t k = None \<Longrightarrow> k \<notin> fst ` set (entries t)"
    and add_invar: "invar t \<Longrightarrow> room t \<Longrightarrow> a \<notin> snd ` set (entries t) \<Longrightarrow> invar (add_key t k a)"
    and add_entries: "invar t \<Longrightarrow> room t \<Longrightarrow> a \<notin> snd ` set (entries t) \<Longrightarrow>
           entries (add_key t k a) = entries t @ [(k, a)]"
    and delete_ok: "invar t \<Longrightarrow> (k, a) \<in> set (entries t) \<Longrightarrow>
           \<exists>t'. delete t a = Inr t' \<and> invar t' \<and> entries t' = filter (\<lambda>e. snd e \<noteq> a) (entries t)"
begin

lemma find_iff: "invar t \<Longrightarrow> (\<exists>a. find_key t k = Some a) \<longleftrightarrow> k \<in> fst ` set (entries t)"
  using find_Some find_None by (cases "find_key t k") force+

lemma find_map_of:
  assumes "invar t" and "distinct (map fst (entries t))"
  shows "find_key t k = map_of (entries t) k"
proof (cases "find_key t k")
  case None
  with find_None [OF assms(1)] show ?thesis by (metis map_of_eq_None_iff)
next
  case (Some a)
  with find_Some [OF assms(1)] assms(2) show ?thesis by simp
qed

lemma find_add:
  assumes "invar t" and "room t" and "a \<notin> snd ` set (entries t)"
    and "distinct (map fst (entries t))" and "k \<notin> fst ` set (entries t)"
  shows "find_key (add_key t k a) k' = (if k' = k then Some a else find_key t k')"
proof -
  have "distinct (map fst (entries (add_key t k a)))"
    using assms add_entries by simp
  then have "find_key (add_key t k a) k' = map_of (entries t @ [(k, a)]) k'"
    using find_map_of [OF add_invar] add_entries assms by simp
  also have "\<dots> = (if k' = k then Some a else map_of (entries t) k')"
    using assms(5) by (rule map_of_snoc)
  finally show ?thesis using find_map_of [OF assms(1,4)] by simp
qed

lemma find_delete:
  assumes "invar t" and "distinct (map fst (entries t))" and "distinct (map snd (entries t))"
    and "find_key t k = Some a"
  shows "\<exists>t'. delete t a = Inr t' \<and> invar t' \<and> distinct (map fst (entries t'))
    \<and> (\<forall>k'. find_key t' k' = (if k' = k then None else find_key t k'))"
proof -
  have ka: "(k, a) \<in> set (entries t)" using find_Some [OF assms(1,4)] .
  then obtain t' where t': "delete t a = Inr t'" "invar t'"
    and ent: "entries t' = filter (\<lambda>e. snd e \<noteq> a) (entries t)"
    using delete_ok [OF assms(1)] by blast
  have eq: "e = (k, a)" if "e \<in> set (entries t)" "snd e = a" for e
    using that ka assms(3) by (metis distinct_map inj_onD snd_conv)
  have eq': "e = (k, a)" if "e \<in> set (entries t)" "fst e = k" for e
    using that ka assms(2) by (metis distinct_map inj_onD fst_conv)
  have ent': "entries t' = filter (\<lambda>e. fst e \<noteq> k) (entries t)"
    unfolding ent
  proof (rule filter_cong [OF refl])
    fix e assume "e \<in> set (entries t)"
    then show "(snd e \<noteq> a) = (fst e \<noteq> k)" by (metis eq eq' fst_conv snd_conv)
  qed
  then have dist: "distinct (map fst (entries t'))" using assms(2) by (simp add: distinct_map_filter)
  have "find_key t' k' = (if k' = k then None else find_key t k')" for k'
    by (simp add: find_map_of [OF t'(2) dist] find_map_of [OF assms(1,2)] ent' map_of_filter_key)
  with t' dist show ?thesis by blast
qed

end

interpretation ut: key_table hash_ok hash_room hash_entries HASH_FIND HASH_ADD HASH_DELETE
  by unfold_locales (rule HASH_FIND_Some HASH_FIND_None HASH_ADD_ok HASH_DELETE_ok; assumption)+

lemma hash_entries_distinct_elts: "hash_ok head \<Longrightarrow> distinct (map snd (hash_entries head))"
  by (auto simp: hash_ok_def table_ok_def hash_entries_def o_def split: option.splits)

lemma hash_elts_entries: "hash_elts head = map snd (hash_entries head)"
  by (simp add: hash_elts_def hash_entries_def split: option.splits)

section \<open>Properties\<close>

text \<open>
  C14: the tables implement maps.  In an intact table with distinct keys, adding a new element under a
  new key keeps the table intact (also when the bucket array is doubled on the way); afterwards that
  key finds the new element and every other key finds what it found before.  Deleting the element a key
  finds succeeds, keeps the table intact, and afterwards only that key is unbound.
\<close>

theorem hash_map_laws:
  assumes "hash_ok head" and "distinct (map fst (hash_entries head))"
  shows "(hash_room head \<and> a \<notin> snd ` set (hash_entries head) \<and> k \<notin> fst ` set (hash_entries head) \<longrightarrow>
        hash_ok (HASH_ADD head k a) \<and> distinct (map fst (hash_entries (HASH_ADD head k a)))
        \<and> (\<forall>k'. HASH_FIND (HASH_ADD head k a) k' = (if k' = k then Some a else HASH_FIND head k')))
    \<and> (HASH_FIND head k = Some a \<longrightarrow>
        (\<exists>head'. HASH_DELETE head a = Inr head' \<and> hash_ok head' \<and> distinct (map fst (hash_entries head'))
          \<and> (\<forall>k'. HASH_FIND head' k' = (if k' = k then None else HASH_FIND head k'))))"
proof ((rule conjI; rule impI), goal_cases)
  case 1
  then have a: "hash_room head" "a \<notin> snd ` set (hash_entries head)" "k \<notin> fst ` set (hash_entries head)" by blast+
  show ?case using ut.add_invar [OF assms(1) a(1,2)] ut.add_entries [OF assms(1) a(1,2)]
      ut.find_add [OF assms(1) a(1,2) assms(2) a(3)] assms(2) a(3) by simp
next
  case 2
  then show ?case by (rule ut.find_delete [OF assms hash_entries_distinct_elts [OF assms(1)]])
qed

theorem hash_map_laws_witness:
  "hash_ok (HASH_ADD None [7, 0, 0, 0] 1)
    \<and> (\<forall>k'. HASH_FIND (HASH_ADD None [7, 0, 0, 0] 1) k' = (if k' = [7, 0, 0, 0] then Some 1 else None))
    \<and> (\<exists>head'. HASH_DELETE (HASH_ADD None [7, 0, 0, 0] 1) 1 = Inr head' \<and> HASH_FIND head' [7, 0, 0, 0] = None)"
proof -
  let ?head = "HASH_ADD None [7, 0, 0, 0] 1"
  have add: "hash_ok ?head" "distinct (map fst (hash_entries ?head))"
      "\<And>k'. HASH_FIND ?head k' = (if k' = [7, 0, 0, 0] then Some 1 else None)"
    using hash_map_laws [of None 1 "[7, 0, 0, 0]"] by (simp_all add: hash_ok_def hash_room_def hash_entries_def HASH_FIND_def)
  have "\<exists>head'. HASH_DELETE ?head 1 = Inr head' \<and> HASH_FIND head' [7, 0, 0, 0] = None"
    using hash_map_laws [OF add(1,2), of 1 "[7, 0, 0, 0]"] add(3) by auto
  then show ?thesis using add(1,3) by blast
qed

end
