(* ===== verification/Solutions_Db.thy ===== *)
theory Solutions_Db
  imports Prelude
begin

text \<open>
  \<^verbatim>\<open>solutions_db.c\<close>: fetching the new solutions from MySQL, marking them as being checked inside one
  transaction, and posting results.  The MySQL client library is an argument of the definitions;
  the queries that were sent are recorded in order.
\<close>

section \<open>Reading numbers\<close>

text \<open>
  \<^verbatim>\<open>atoi\<close> as the C library of the host has it: white space, a sign, digits up to the first other
  byte; the value saturates in 64 bits and is cut to a 32-bit \<^verbatim>\<open>int\<close>.
\<close>

definition is_space :: "u8 \<Rightarrow> bool" where
  "is_space b \<longleftrightarrow> b = 32 \<or> (9 \<le> b \<and> b \<le> 13)"

definition is_digit :: "u8 \<Rightarrow> bool" where
  "is_digit b \<longleftrightarrow> 48 \<le> b \<and> b \<le> 57"

fun digits_value :: "int \<Rightarrow> u8 list \<Rightarrow> int" where
  "digits_value acc [] = acc"
| "digits_value acc (b # bs) =
     (if is_digit b then digits_value (acc * 10 + (int (unat b) - 48)) bs else acc)"

definition clamp64 :: "int \<Rightarrow> int" where
  "clamp64 v = max (- (2 ^ 63)) (min (2 ^ 63 - 1) v)"

definition atoi :: "u8 list \<Rightarrow> u32" where
  "atoi s = (case dropWhile is_space s of
     [] \<Rightarrow> 0
   | b # bs \<Rightarrow> if b = 45 then of_int (clamp64 (- digits_value 0 bs))
              else if b = 43 then of_int (clamp64 (digits_value 0 bs))
              else of_int (clamp64 (digits_value 0 (b # bs))))"

definition bytes_of :: "string \<Rightarrow> u8 list" where
  "bytes_of s = map (\<lambda>c. of_nat (of_char c)) s"

section \<open>Data\<close>

text \<open>
  The field \<^verbatim>\<open>time\<close> is always \<^verbatim>\<open>NULL\<close> and has no counterpart.  \<^verbatim>\<open>source\<close> and \<^verbatim>\<open>response\<close> are the bytes
  of the arrays the pointers lead to.
\<close>

record solution_t =
  sln_id :: u32
  sln_user_id :: u32
  sln_task_id :: u32
  sln_source :: "u8 list"
  sln_source_len :: u32
  sln_compiler_id :: u32
  sln_checking :: u8
  sln_accepted :: bool
  sln_response :: "u8 list"
  sln_response_len :: u8

record db_config =
  cfg_host :: string
  cfg_user :: string
  cfg_password :: string
  cfg_db_name :: string

abbreviation (input) FIELDS_COUNT :: u32 where "FIELDS_COUNT \<equiv> 9"

abbreviation (input) ERR_DB :: int where "ERR_DB \<equiv> 1"
abbreviation (input) ERR_SCHEMA :: int where "ERR_SCHEMA \<equiv> 2"
abbreviation (input) ERR_ARGS :: int where "ERR_ARGS \<equiv> 3"

text \<open>
  The client library: a connection, the outcome of connecting and of a query (\<open>True\<close> is the
  non-zero return value, an error), the stored result as rows of nullable byte strings, and the
  number of columns.
\<close>

type_synonym mysql_row = "u8 list option list"

record 'c mysql_api =
  mysql_real_connect :: "db_config \<Rightarrow> 'c option"
  mysql_query :: "'c \<Rightarrow> string \<Rightarrow> bool \<times> 'c"
  mysql_store_result :: "'c \<Rightarrow> mysql_row list option \<times> 'c"
  mysql_field_count :: "'c \<Rightarrow> u32"

record 'c db =
  conn :: 'c
  sent :: "string list"

section \<open>Operations\<close>

definition query :: "'c mysql_api \<Rightarrow> 'c db \<Rightarrow> string \<Rightarrow> int \<times> 'c db" where
  "query api db sql =
     (let (failed, c) = mysql_query api (conn db) sql;
          db' = db\<lparr>conn := c, sent := sent db @ [sql]\<rparr>
      in (if failed then ERR_DB else 0, db'))"

text \<open>
  The module's globals \<^verbatim>\<open>config\<close> and \<^verbatim>\<open>conn\<close>.  The \<^verbatim>\<open>assert\<close> on the configuration is the outer
  \<open>None\<close>; a connection error is \<^verbatim>\<open>ERR_DB\<close> with no connection.
\<close>

record 'c db_module =
  config :: "db_config option"
  connection :: "'c db option"

definition solutions_configure_db :: "db_config option \<Rightarrow> 'c db_module \<Rightarrow> 'c db_module" where
  "solutions_configure_db conf m = m\<lparr>config := conf\<rparr>"

definition solutions_init_db :: "'c mysql_api \<Rightarrow> 'c db_module \<Rightarrow> (int \<times> 'c db_module) option" where
  "solutions_init_db api m = (case config m of
     None \<Rightarrow> None
   | Some conf \<Rightarrow> (case mysql_real_connect api conf of
       None \<Rightarrow> Some (ERR_DB, m\<lparr>connection := None\<rparr>)
     | Some c \<Rightarrow> Some (0, m\<lparr>connection := Some \<lparr>conn = c, sent = []\<rparr>\<rparr>)))"

definition solutions_close_db :: "'c db_module \<Rightarrow> 'c db_module" where
  "solutions_close_db m = m\<lparr>config := None, connection := None\<rparr>"

text \<open>One row of the result; \<^verbatim>\<open>atoi\<close> of an SQL \<^verbatim>\<open>NULL\<close> dereferences a null pointer.\<close>

definition cell_int :: "mysql_row \<Rightarrow> nat \<Rightarrow> u32 res" where
  "cell_int row i = (if i < length row
     then (case row ! i of None \<Rightarrow> Inl Null_deref | Some s \<Rightarrow> Inr (atoi s)) else Inl Out_of_bounds)"

definition cell_bytes :: "mysql_row \<Rightarrow> nat \<Rightarrow> u8 list res" where
  "cell_bytes row i = (if i < length row
     then Inr (case row ! i of None \<Rightarrow> [] | Some s \<Rightarrow> s) else Inl Out_of_bounds)"

definition extract_row :: "mysql_row \<Rightarrow> solution_t res" where
  "extract_row row =
     rbind (cell_int row 0) (\<lambda>rid.
     rbind (cell_int row 1) (\<lambda>user.
     rbind (cell_int row 2) (\<lambda>task.
     rbind (cell_bytes row 4) (\<lambda>src.
     rbind (cell_int row 5) (\<lambda>compiler.
     rbind (cell_int row 6) (\<lambda>chk.
     rbind (cell_int row 7) (\<lambda>acc.
     rbind (cell_bytes row 8) (\<lambda>resp.
       let source_len = of_nat (length src) + 1 :: u32;
           response_len = of_nat (length resp) :: u8
       in if source_len = 0 then Inl Out_of_bounds
          else Inr \<lparr>sln_id = rid, sln_user_id = user, sln_task_id = task,
                 sln_source = take (unat source_len - 1) src @ [0], sln_source_len = source_len,
                 sln_compiler_id = compiler, sln_checking = ucast chk, sln_accepted = (acc \<noteq> 0),
                 sln_response = take (unat response_len) resp,
                 sln_response_len = response_len\<rparr>))))))))"

fun extract_rows :: "mysql_row list \<Rightarrow> solution_t list res" where
  "extract_rows [] = Inr []"
| "extract_rows (row # rows) =
     rbind (extract_row row) (\<lambda>s. rbind (extract_rows rows) (\<lambda>ss. Inr (s # ss)))"

definition select_query :: string where
  "select_query = ''select * from solutions where checking = 0''"

definition upd_query :: "u32 \<Rightarrow> string" where
  "upd_query i = snprintf 100 (''update solutions set checking = 1 where id = '' @ show_u (unat i))"

fun mark_loop :: "'c mysql_api \<Rightarrow> 'c db \<Rightarrow> solution_t list \<Rightarrow> int \<times> 'c db" where
  "mark_loop api db [] = (0, db)"
| "mark_loop api db (s # ss) =
     (let (e, db1) = query api db (upd_query (sln_id s)) in
      if e \<noteq> 0 then (let (_, db2) = query api db1 ''rollback'' in (ERR_DB, db2))
      else mark_loop api db1 ss)"

text \<open>The transaction that marks the fetched solutions.\<close>

definition mark_solutions :: "'c mysql_api \<Rightarrow> 'c db \<Rightarrow> solution_t list \<Rightarrow> int \<times> 'c db" where
  "mark_solutions api db slns =
     (let (e1, db1) = query api db ''start transaction'' in
      if e1 \<noteq> 0 then (ERR_DB, db1)
      else let (e2, db2) = mark_loop api db1 slns in
        if e2 \<noteq> 0 then (ERR_DB, db2)
        else let (e3, db3) = query api db2 ''commit'' in
          if e3 \<noteq> 0 then (ERR_DB, db3) else (0, db3))"

text \<open>
  The result: the return code, what was written to \<^verbatim>\<open>*sln_arr_ptr\<close> and to \<^verbatim>\<open>*sln_arr_len\<close> (\<open>None\<close>
  where nothing was written), and the connection.  The flag says whether \<^verbatim>\<open>sln_arr_len\<close> is \<^verbatim>\<open>NULL\<close>.
\<close>

definition solutions_extract_new :: "'c mysql_api \<Rightarrow> 'c db \<Rightarrow> bool \<Rightarrow>
    (int \<times> solution_t list option \<times> u64 option \<times> 'c db) res" where
  "solutions_extract_new api db len_null =
     (if len_null then Inr (ERR_ARGS, None, None, db)
      else let (e, db1) = query api db select_query in
        if e \<noteq> 0 then Inr (ERR_DB, None, None, db1)
        else let (result, c) = mysql_store_result api (conn db1);
                 db2 = db1\<lparr>conn := c\<rparr> in
          if mysql_field_count api c \<noteq> FIELDS_COUNT then Inr (ERR_SCHEMA, None, None, db2)
          else case result of
            None \<Rightarrow> Inl Null_deref
          | Some rows \<Rightarrow>
              if rows = [] then Inr (0, None, Some 0, db2)
              else rbind (extract_rows rows) (\<lambda>slns.
                let (ret, db3) = mark_solutions api db2 slns
                in Inr (ret, Some slns, Some (of_nat (length rows)), db3)))"

definition result_query :: "u32 \<Rightarrow> 8 word \<Rightarrow> string \<Rightarrow> string" where
  "result_query i accepted response_text =
     snprintf 100 (''update solutions set checking = 2, ac = '' @ show_u (unat (scast accepted :: u32))
       @ '', response = '' @ [CHR 0x27] @ response_text @ [CHR 0x27] @ '' where id = '' @ show_u (unat i))"

definition solution_post_result ::
  "'c mysql_api \<Rightarrow> 'c db \<Rightarrow> u32 \<Rightarrow> 8 word \<Rightarrow> string \<Rightarrow> int \<times> 'c db" where
  "solution_post_result api db i accepted response_text = query api db (result_query i accepted response_text)"

section \<open>What is sent\<close>

lemma query_sent: "sent (snd (query api db sql)) = sent db @ [sql]"
  by (simp add: query_def Let_def split: prod.splits)

lemma query_ret: "fst (query api db sql) = 0 \<or> fst (query api db sql) = ERR_DB"
  by (simp add: query_def Let_def split: prod.splits)

lemma query_cases:
  obtains db' where "query api db sql = (0, db')" "sent db' = sent db @ [sql]"
  | db' where "query api db sql = (ERR_DB, db')" "sent db' = sent db @ [sql]"
  using query_sent [of api db sql] query_ret [of api db sql] by (metis prod.collapse)

text \<open>
  What the database answers when the queries \<open>qs\<close> are sent one after the other on the connection \<open>c\<close> (\<open>True\<close> is an
  error), and the connection afterwards.
\<close>

fun answers :: "'c mysql_api \<Rightarrow> 'c \<Rightarrow> string list \<Rightarrow> bool list" where
  "answers api c [] = []"
| "answers api c (q # qs) = fst (mysql_query api c q) # answers api (snd (mysql_query api c q)) qs"

fun conn_after :: "'c mysql_api \<Rightarrow> 'c \<Rightarrow> string list \<Rightarrow> 'c" where
  "conn_after api c [] = c"
| "conn_after api c (q # qs) = conn_after api (snd (mysql_query api c q)) qs"

text \<open>How many of the queries are answered well before the first one that is not.\<close>

definition answered :: "'c mysql_api \<Rightarrow> 'c \<Rightarrow> string list \<Rightarrow> nat" where
  "answered api c qs = length (takeWhile Not (answers api c qs))"

lemma length_answers [simp]: "length (answers api c qs) = length qs"
  by (induction qs arbitrary: c) auto

lemma answered_simps [simp]:
  "answered api c [] = 0"
  "answered api c (q # qs) = (if fst (mysql_query api c q) then 0 else Suc (answered api (snd (mysql_query api c q)) qs))"
  by (simp_all add: answered_def)

lemma answered_le: "answered api c qs \<le> length qs"
  unfolding answered_def by (metis length_answers length_takeWhile_le)

lemma answered_append:
  "answered api c (xs @ ys) = (if answered api c xs < length xs then answered api c xs
     else length xs + answered api (conn_after api c xs) ys)"
  by (induction xs arbitrary: c) auto

lemma conn_after_append: "conn_after api c (xs @ ys) = conn_after api (conn_after api c xs) ys"
  by (induction xs arbitrary: c) auto

lemma query_answer:
  "query api db sql = (if fst (mysql_query api (conn db) sql) then ERR_DB else 0,
     db\<lparr>conn := snd (mysql_query api (conn db) sql), sent := sent db @ [sql]\<rparr>)"
  by (simp add: query_def Let_def split: prod.splits)

text \<open>The marking: up to the first query that fails, and then a rollback.\<close>

definition sends :: "'c mysql_api \<Rightarrow> 'c db \<Rightarrow> string list \<Rightarrow> 'c db" where
  "sends api d qs = d\<lparr>conn := conn_after api (conn d) qs, sent := sent d @ qs\<rparr>"

lemma mark_loop_answered:
  "mark_loop api d ss = (let qs = map (upd_query \<circ> sln_id) ss; k = answered api (conn d) qs in
     if k = length qs then (0, sends api d qs) else (ERR_DB, sends api d (take (Suc k) qs @ [''rollback''])))"
proof (induction ss arbitrary: d)
  case Nil
  then show ?case by (simp add: sends_def)
next
  case (Cons s ss)
  then show ?case by (simp add: query_answer Let_def sends_def)
qed

lemma mark_solutions_answered:
  fixes slns :: "solution_t list"
  defines "marks \<equiv> map (upd_query \<circ> sln_id) slns"
  defines "script \<equiv> [''start transaction''] @ marks @ [''commit'']"
  shows "mark_solutions api d slns = (let k = answered api (conn d) script in
     (if k = length script then 0 else ERR_DB,
      sends api d (take (Suc k) script @ (if 0 < k \<and> k \<le> length slns then [''rollback''] else []))))"
proof -
  let ?c = "snd (mysql_query api (conn d) ''start transaction'')"
  let ?k = "answered api ?c marks"
  have len: "length marks = length slns" by (simp add: marks_def)
  note le = answered_le [of api ?c marks]
  show ?thesis
  proof (cases "?k = length marks")
    case True
    then show ?thesis using len
      by (simp add: mark_solutions_def query_answer mark_loop_answered marks_def [symmetric] script_def Let_def
          answered_append sends_def conn_after_append)
  next
    case False
    then have "?k < length marks" using le by simp
    then show ?thesis using False len
      by (simp add: mark_solutions_def query_answer mark_loop_answered marks_def [symmetric] script_def Let_def
          answered_append sends_def conn_after_append)
  qed
qed

lemma extract_rows_length: "extract_rows rows = Inr ss \<Longrightarrow> length ss = length rows"
  by (induction rows arbitrary: ss) (auto simp: res_simps)

text \<open>The only errors of the memory are an SQL \<^verbatim>\<open>NULL\<close> that is read as a number and a row with too few columns.\<close>

lemma extract_rows_error: "extract_rows rows = Inl e \<Longrightarrow> e = Null_deref \<or> e = Out_of_bounds"
proof (induction rows)
  case (Cons row rows)
  then show ?case
    by (auto simp: res_simps extract_row_def cell_int_def cell_bytes_def Let_def split: if_splits option.splits)
qed simp

lemma extract_new_error: "solutions_extract_new api d len_null = Inl e \<Longrightarrow> e = Null_deref \<or> e = Out_of_bounds"
  by (auto simp: solutions_extract_new_def Let_def res_simps split: if_splits option.splits prod.splits dest: extract_rows_error)

section \<open>Numbers survive the round trip through text\<close>

lemma bytes_of_append [simp]: "bytes_of (s @ t) = bytes_of s @ bytes_of t"
  by (simp add: bytes_of_def)

lemma byte_of_digit: "d < 10 \<Longrightarrow> bytes_of [digit_char d] = [of_nat (48 + d)]"
  by (simp add: bytes_of_def digit_char_def)

lemma unat_digit: "d < 10 \<Longrightarrow> unat (of_nat (48 + d) :: u8) = 48 + d"
  by (rule unat_of_nat_small) simp

lemma digit_is_digit: "d < 10 \<Longrightarrow> is_digit (of_nat (48 + d))"
  using unat_digit [of d] by (simp add: is_digit_def word_le_nat_alt)

lemma digits_value_snoc:
  "list_all is_digit xs \<Longrightarrow> digits_value acc (xs @ ys) = digits_value (digits_value acc xs) ys"
  by (induction xs arbitrary: acc) auto

lemma show_u_digits: "list_all is_digit (bytes_of (show_u n))"
proof (induction n rule: show_u.induct)
  case (1 n)
  then show ?case
    by (subst show_u.simps) (simp add: byte_of_digit digit_is_digit del: of_nat_add)
qed

lemma digits_value_show_u: "digits_value 0 (bytes_of (show_u n)) = int n"
proof (induction n rule: show_u.induct)
  case (1 n)
  have last: "digits_value acc [of_nat (48 + d)] = acc * 10 + int d" if "d < 10" for acc d
    using that unat_digit [OF that] digit_is_digit [OF that] by (simp del: of_nat_add)
  show ?case
  proof (cases "n < 10")
    case True
    then show ?thesis
      by (simp add: show_u.simps [of n] byte_of_digit last del: of_nat_add digits_value.simps)
  next
    case False
    have "digits_value 0 (bytes_of (show_u n))
        = digits_value (digits_value 0 (bytes_of (show_u (n div 10)))) (bytes_of [digit_char (n mod 10)])"
      using False by (subst show_u.simps) (simp add: digits_value_snoc show_u_digits)
    also have "\<dots> = int (n div 10) * 10 + int (n mod 10)"
      using "1.IH" [OF False] by (simp add: byte_of_digit last del: of_nat_add digits_value.simps)
    also have "\<dots> = int n" by presburger
    finally show ?thesis .
  qed
qed

lemma digit_not_special:
  assumes "is_digit b"
  shows "\<not> is_space b" and "b \<noteq> 45" and "b \<noteq> 43"
proof -
  have "48 \<le> unat b" using assms by (simp add: is_digit_def word_le_nat_alt)
  then show "\<not> is_space b" "b \<noteq> 45" "b \<noteq> 43"
    by (auto simp: is_space_def word_le_nat_alt)
qed

lemma atoi_show_u:
  assumes "n < 2 ^ 63"
  shows "atoi (bytes_of (show_u n)) = of_nat n"
proof -
  obtain b bs where b: "bytes_of (show_u n) = b # bs"
    by (cases "bytes_of (show_u n)") (simp_all add: bytes_of_def)
  then have "is_digit b" using show_u_digits [of n] by simp
  note nb = digit_not_special [OF this]
  have "atoi (bytes_of (show_u n)) = of_int (clamp64 (digits_value 0 (bytes_of (show_u n))))"
    using nb unfolding atoi_def b by simp
  also have "clamp64 (digits_value 0 (bytes_of (show_u n))) = int n"
    using assms by (simp add: digits_value_show_u clamp64_def)
  finally show ?thesis by simp
qed

section \<open>Queries fit their buffers\<close>

lemma length_show_u32: "length (show_u (unat (w :: u32))) \<le> 10"
  by (rule length_show_u) (use unsigned_less [of w, where 'a = nat] in simp_all)

lemma upd_query_fits:
  "upd_query i = ''update solutions set checking = 1 where id = '' @ show_u (unat i)"
  unfolding upd_query_def by (rule snprintf_fits) (use length_show_u32 [of i] in simp)

lemma result_query_fits:
  assumes "length text \<le> 10"
  shows "result_query i accepted text = ''update solutions set checking = 2, ac = ''
    @ show_u (unat (scast accepted :: u32)) @ '', response = '' @ [CHR 0x27] @ text @ [CHR 0x27]
    @ '' where id = '' @ show_u (unat i)"
  unfolding result_query_def
  by (rule snprintf_fits)
    (use length_show_u32 [of i] length_show_u32 [of "scast accepted"] assms in simp)

section \<open>Properties\<close>

text \<open>
  C31: the transaction protocol of solutions_extract_new, for every behaviour of the database.  What the call
  returns and sends is decided by the answers of the database.  When the select fails, it
  returns \<^verbatim>\<open>ERR_DB\<close>, and when the table has not nine columns, \<^verbatim>\<open>ERR_SCHEMA\<close>, with nothing written and nothing more
  sent.  When nothing is new it returns 0 and the length 0, and opens no transaction.  Otherwise it writes exactly the solutions
  of the rows and goes through the script start transaction, one mark for each solution in order, commit: it sends the
  queries up to the first one the database answers with an error, followed by a rollback if that one was a mark, and only then;
  and it returns 0 if every query of the script was answered well, and \<^verbatim>\<open>ERR_DB\<close> if one was not.  Without a place for the
  length it returns \<^verbatim>\<open>ERR_ARGS\<close> and asks nothing.
\<close>

theorem extract_new_protocol:
  assumes "solutions_extract_new api db False = Inr (ret, arr, len, db')"
    and "mysql_query api (conn db) select_query = (failed, c1)" and "mysql_store_result api c1 = (result, c2)"
  defines "S \<equiv> sent db @ [select_query]"
  shows "(failed \<longrightarrow> ret = ERR_DB \<and> arr = None \<and> len = None \<and> sent db' = S)
    \<and> (\<not> failed \<and> mysql_field_count api c2 \<noteq> FIELDS_COUNT \<longrightarrow> ret = ERR_SCHEMA \<and> arr = None \<and> len = None \<and> sent db' = S)
    \<and> (\<not> failed \<and> mysql_field_count api c2 = FIELDS_COUNT \<and> result = Some [] \<longrightarrow>
        ret = 0 \<and> arr = None \<and> len = Some 0 \<and> sent db' = S)
    \<and> (\<not> failed \<and> mysql_field_count api c2 = FIELDS_COUNT \<and> result \<noteq> Some [] \<longrightarrow>
        (\<exists>rows slns. result = Some rows \<and> extract_rows rows = Inr slns \<and> arr = Some slns \<and> len = Some (of_nat (length rows))
          \<and> (let script = [''start transaction''] @ map (upd_query \<circ> sln_id) slns @ [''commit''];
                 k = length (takeWhile Not (answers api c2 script));
                 qs = take (Suc k) script @ (if 0 < k \<and> k \<le> length slns then [''rollback''] else [])
             in ret = (if k = length script then 0 else ERR_DB)
               \<and> sent db' = S @ qs \<and> conn db' = conn_after api c2 qs)))
    \<and> solutions_extract_new api db True = Inr (ERR_ARGS, None, None, db)"
proof -
  have q: "query api db select_query = (if failed then ERR_DB else 0, db\<lparr>conn := c1, sent := S\<rparr>)"
    using assms(2) by (simp add: query_answer S_def)
  have args: "solutions_extract_new api db True = Inr (ERR_ARGS, None, None, db)" by (simp add: solutions_extract_new_def)
  note call = assms(1) [unfolded solutions_extract_new_def q Let_def]
  show ?thesis
  proof (cases "\<not> failed \<and> mysql_field_count api c2 = FIELDS_COUNT \<and> result \<noteq> Some []")
    case False
    then show ?thesis using call assms(3) args by (auto split: if_splits option.splits)
  next
    case True
    then obtain rows where r: "result = Some rows" "rows \<noteq> []" using call assms(3) by (auto split: option.splits)
    then obtain slns where slns: "extract_rows rows = Inr slns" using call assms(3) True by (auto simp: res_simps)
    define script where "script = [''start transaction''] @ map (upd_query \<circ> sln_id) slns @ [''commit'']"
    define k where "k = length (takeWhile Not (answers api c2 script))"
    define qs where "qs = take (Suc k) script @ (if 0 < k \<and> k \<le> length slns then [''rollback''] else [])"
    have "mark_solutions api (db\<lparr>sent := S, conn := c2\<rparr>) slns
        = (if k = length script then 0 else ERR_DB, sends api (db\<lparr>sent := S, conn := c2\<rparr>) qs)"
      using mark_solutions_answered [of api "db\<lparr>sent := S, conn := c2\<rparr>" slns]
      by (simp only: script_def [symmetric] Let_def answered_def db.select_convs db.update_convs k_def qs_def) simp
    then have "ret = (if k = length script then 0 else ERR_DB) \<and> sent db' = S @ qs \<and> conn db' = conn_after api c2 qs
        \<and> arr = Some slns \<and> len = Some (of_nat (length rows))"
      using call assms(3) True r slns by (auto simp: sends_def)
    then show ?thesis using r slns True args unfolding Let_def qs_def k_def script_def by blast
  qed
qed

text \<open>A connection that answers the select with one row and accepts every query.\<close>

definition demo_api :: "unit mysql_api" where
  "demo_api = \<lparr>mysql_real_connect = (\<lambda>_. Some ()), mysql_query = (\<lambda>c q. (False, c)),
     mysql_store_result = (\<lambda>c. (Some [map (\<lambda>n. Some (bytes_of (show_u n))) [7, 1, 2, 0, 5, 3, 0, 0, 4]], c)),
     mysql_field_count = (\<lambda>_. 9)\<rparr>"

theorem extract_new_protocol_witness:
  "\<exists>slns db'. solutions_extract_new demo_api \<lparr>conn = (), sent = []\<rparr> False = Inr (0, Some slns, Some 1, db')
    \<and> sent db' = [select_query, ''start transaction''] @ map (upd_query \<circ> sln_id) slns @ [''commit'']"
proof -
  have "\<exists>s. extract_row (map (\<lambda>n. Some (bytes_of (show_u n))) [7, 1, 2, 0, 5, 3, 0, 0, 4]) = Inr s"
    by (simp add: extract_row_def cell_int_def cell_bytes_def Let_def show_u.simps [of 5]
      byte_of_digit)
  then obtain s where s: "extract_row (map (\<lambda>n. Some (bytes_of (show_u n))) [7, 1, 2, 0, 5, 3, 0, 0, 4]) = Inr s"
    by blast
  let ?db = "\<lparr>conn = (), sent = [select_query, ''start transaction'', upd_query (sln_id s), ''commit'']\<rparr>"
  have run: "solutions_extract_new demo_api \<lparr>conn = (), sent = []\<rparr> False = Inr (0, Some [s], Some 1, ?db)"
    using s by (simp add: solutions_extract_new_def mark_solutions_def demo_api_def query_def Let_def)
  show ?thesis using extract_new_protocol [OF run] run by (auto simp: demo_api_def Let_def)
qed

text \<open>
  C32: a row of the solutions table is read back as it was written.  For a row whose numeric columns
  hold decimal numbers, extract_row succeeds and every numeric field is that number in the field's
  width, the source is the column's bytes followed by a zero byte, counted by source_len, and of
  the response the first length-modulo-256 bytes are kept.
\<close>

theorem extract_row_reads:
  assumes "a < 2 ^ 63" "u < 2 ^ 63" "t < 2 ^ 63" "c < 2 ^ 63" "k < 2 ^ 63" "v < 2 ^ 63"
    and "length src + 1 < 2 ^ 32"
  shows "extract_row [Some (bytes_of (show_u a)), Some (bytes_of (show_u u)), Some (bytes_of (show_u t)),
      tm, Some src, Some (bytes_of (show_u c)), Some (bytes_of (show_u k)), Some (bytes_of (show_u v)),
      Some resp]
    = Inr \<lparr>sln_id = of_nat a, sln_user_id = of_nat u, sln_task_id = of_nat t,
        sln_source = src @ [0], sln_source_len = of_nat (length src + 1),
        sln_compiler_id = of_nat c, sln_checking = of_nat k, sln_accepted = (of_nat v \<noteq> (0 :: u32)),
        sln_response = take (length resp mod 256) resp, sln_response_len = of_nat (length resp)\<rparr>"
proof -
  have n: "of_nat (length src) + 1 = (of_nat (length src + 1) :: u32)" by simp
  have u: "unat (of_nat (length src + 1) :: u32) = length src + 1"
    using assms(7) by (intro unat_of_nat_small) simp
  then have nz: "(of_nat (length src + 1) :: u32) \<noteq> 0"
    using assms(7) of_nat_eq_0_small [of "length src + 1", where 'a = 32] by simp
  have r: "unat (of_nat (length resp) :: u8) = length resp mod 256"
    by (simp add: unat_of_nat take_bit_eq_mod)
  have chk: "ucast (of_nat k :: u32) = (of_nat k :: u8)"
    by (rule bit_word_eqI) (simp add: bit_simps)
  show ?thesis
    using assms(1-6) u nz r chk unfolding extract_row_def cell_int_def cell_bytes_def
    by (simp add: atoi_show_u Let_def n del: of_nat_Suc of_nat_add)
qed

theorem extract_row_reads_witness:
  "\<exists>s. extract_row [Some (bytes_of (show_u 7)), Some (bytes_of (show_u 1)), Some (bytes_of (show_u 2)),
      None, Some [65, 66], Some (bytes_of (show_u 3)), Some (bytes_of (show_u 0)),
      Some (bytes_of (show_u 0)), Some []] = Inr s \<and> sln_id s = 7 \<and> sln_source s = [65, 66, 0]"
  using extract_row_reads [of 7 1 2 3 0 0 "[65, 66]" None "[]"] by simp

end
