(* ===== verification/Server.thy ===== *)
theory Server
  imports Queue Net Uthash Solutions_Db
begin

text \<open>
  The state of \<^verbatim>\<open>server.c\<close> and the operations on it: clients, compilers and the solutions they
  check; the choice of a client for a solution, the removal of a client, sending a solution,
  posting a result.  Every pointer is an address in the memory of its type; a solution is an
  element of an array, so a pointer to it is the array and an index.  Log output is not part of
  the state.  The mutexes are released by the end of every operation, so an operation that runs
  alone leaves them as they were.  A socket that is closed is appended to \<open>closed\<close> in its last state.
\<close>

section \<open>Data\<close>

type_synonym sln_ptr = "addr \<times> nat"

abbreviation (input) CLI_SENDTIMEOUT :: int where "CLI_SENDTIMEOUT \<equiv> -3"
abbreviation (input) CLI_CONNERROR :: int where "CLI_CONNERROR \<equiv> -4"
abbreviation (input) ERR_NOCOMPILER :: int where "ERR_NOCOMPILER \<equiv> 1"
abbreviation (input) ERR_NOCLIENTS :: int where "ERR_NOCLIENTS \<equiv> 2"
abbreviation (input) OP_COMPILERS_LIST :: u8 where "OP_COMPILERS_LIST \<equiv> 0x89"
abbreviation (input) OP_CHECK_SLN :: u8 where "OP_CHECK_SLN \<equiv> 10"
abbreviation (input) OP_RESULT :: u8 where "OP_RESULT \<equiv> 109"
abbreviation (input) RECV_TIMEOUT_SEC :: u16 where "RECV_TIMEOUT_SEC \<equiv> 5"
abbreviation (input) SEND_TIMEOUT_SEC :: u16 where "SEND_TIMEOUT_SEC \<equiv> 6"
abbreviation (input) RECV_MAX_TIMEOUT :: u16 where "RECV_MAX_TIMEOUT \<equiv> RECV_TIMEOUT_SEC * 5"
abbreviation (input) SEND_MAX_TIMEOUT :: u16 where "SEND_MAX_TIMEOUT \<equiv> SEND_TIMEOUT_SEC * 3"

text \<open>
  \<^verbatim>\<open>endpoint->socket\<close> is the connection itself with its environment; the peer's address is only
  logged.  The packet buffers are \<open>None\<close> while the pointers are \<^verbatim>\<open>NULL\<close>.
\<close>

record client_t =
  cl_id :: u32
  cl_socket :: socket
  solutions_queue :: "sln_ptr lqueue"
  checking_solution :: "sln_ptr option"
  recv_pkt :: "u8 list option"
  send_pkt :: "u8 list option"
  last_recv_delay :: u16
  last_send_delay :: u16

text \<open>
  \<^verbatim>\<open>compiler_t\<close> starts with a 16-bit \<^verbatim>\<open>id\<close> and two bytes of padding, which \<^verbatim>\<open>malloc\<close> leaves as they
  were.  \<^verbatim>\<open>HASH_ADD_INT\<close> takes four bytes from the address of \<^verbatim>\<open>id\<close> as the key, so the padding is part
  of it.
\<close>

record compiler_t =
  cm_id :: u16
  cm_padding :: u16
  clients_list :: hash_head

record 'c server =
  server_running :: bool
  compilers_map :: hash_head
  clients_map :: hash_head
  last_client_id :: u32
  compilers :: "addr \<rightharpoonup> compiler_t"
  clients :: "addr \<rightharpoonup> client_t"
  client_ids :: "addr \<rightharpoonup> u32"
  sln_mem :: "addr \<rightharpoonup> solution_t list"
  next_addr :: addr
  closed :: "socket list"
  db :: "'c db"

definition server_init :: "'c db \<Rightarrow> 'c server" where
  "server_init d = \<lparr>server_running = True, compilers_map = None, clients_map = None,
     last_client_id = 1, compilers = Map.empty, clients = Map.empty, client_ids = Map.empty,
     sln_mem = Map.empty, next_addr = 1, closed = [], db = d\<rparr>"

section \<open>Solutions in memory\<close>

definition load_sln :: "'c server \<Rightarrow> sln_ptr \<Rightarrow> solution_t res" where
  "load_sln s p = rbind (deref (sln_mem s) (fst p))
     (\<lambda>slns. if snd p < length slns then Inr (slns ! snd p) else Inl Out_of_bounds)"

text \<open>
  \<^verbatim>\<open>solution_free\<close> reads the two array pointers, releases them, and releases the solution itself:
  the pointer \<^verbatim>\<open>free\<close> gets is only the start of an allocation for the first element of the array,
  and then it is the whole array that goes.
\<close>

definition solution_free :: "'c server \<Rightarrow> sln_ptr option \<Rightarrow> 'c server res" where
  "solution_free s sln = (case sln of
     None \<Rightarrow> Inr s
   | Some p \<Rightarrow> rbind (load_sln s p) (\<lambda>_.
       if snd p \<noteq> 0 then Inl Invalid_free
       else Inr (s\<lparr>sln_mem := (sln_mem s)(fst p := None)\<rparr>)))"

section \<open>Posting results\<close>

definition verdict_text :: "string \<Rightarrow> u8 \<Rightarrow> string" where
  "verdict_text kind test_number = snprintf 10 (kind @ '' '' @ show_u (unat test_number))"

definition post_result :: "'c mysql_api \<Rightarrow> 'c db \<Rightarrow> u32 \<Rightarrow> u8 \<Rightarrow> u8 \<Rightarrow> 'c db" where
  "post_result api d solution_id result_code test_number =
     (if result_code = 0 then snd (solution_post_result api d solution_id 1 ''AC'')
      else if result_code = 1 then
        snd (solution_post_result api d solution_id 0 (verdict_text ''WA'' test_number))
      else if result_code = 2 then
        snd (solution_post_result api d solution_id 0 (verdict_text ''MLE'' test_number))
      else if result_code = 3 then
        snd (solution_post_result api d solution_id 0 (verdict_text ''TLE'' test_number))
      else if result_code = 4 then
        snd (solution_post_result api d solution_id 0 (verdict_text ''PE'' test_number))
      else if result_code = 5 then
        snd (solution_post_result api d solution_id 0 (verdict_text ''RE'' test_number))
      else if result_code = 6 then snd (solution_post_result api d solution_id 0 ''FL'')
      else if result_code = 7 then snd (solution_post_result api d solution_id 0 ''CE'')
      else d)"

section \<open>Choosing a client\<close>

text \<open>
  \<^verbatim>\<open>cur_loading = elems_count + (checking_solution != NULL) ? 1 : 0\<close>: the conditional operator binds
  weaker than the sum, so the sum is the condition.
\<close>

definition cur_loading :: "client_t \<Rightarrow> u32" where
  "cur_loading cl =
     (if lq_count (solutions_queue cl) + (if checking_solution cl \<noteq> None then 1 else 0) \<noteq> 0 then 1 else 0)"

fun choose_loop :: "'c server \<Rightarrow> addr list \<Rightarrow> u32 \<Rightarrow> addr option \<Rightarrow> addr option res" where
  "choose_loop s [] min_loading most_free_client = Inr most_free_client"
| "choose_loop s (c # cs) min_loading most_free_client =
     rbind (deref (client_ids s) c) (\<lambda>i.
       case HASH_FIND (clients_map s) (store32 i) of
         None \<Rightarrow> choose_loop s cs min_loading most_free_client
       | Some cur_client \<Rightarrow> rbind (deref (clients s) cur_client) (\<lambda>cl.
           if cur_loading cl = 0 then Inr (Some cur_client)
           else if cur_loading cl \<le> min_loading
             then choose_loop s cs (cur_loading cl) (Some cur_client)
           else choose_loop s cs min_loading most_free_client))"

definition post_failed :: "'c mysql_api \<Rightarrow> 'c server \<Rightarrow> u32 \<Rightarrow> 'c server" where
  "post_failed api s i = s\<lparr>db := snd (solution_post_result api (db s) i 0 ''FL'')\<rparr>"

definition push_solution :: "'c mysql_api \<Rightarrow> 'c server \<Rightarrow> sln_ptr \<Rightarrow> (int \<times> 'c server) res" where
  "push_solution api s sln =
     rbind (load_sln s sln) (\<lambda>v.
       case HASH_FIND (compilers_map s) (store32 (sln_compiler_id v)) of
         None \<Rightarrow> Inr (ERR_NOCOMPILER, post_failed api s (sln_id v))
       | Some c \<Rightarrow> rbind (deref (compilers s) c) (\<lambda>compiler.
           rbind (choose_loop s (hash_elts (clients_list compiler)) 0x7FFFFFFF None) (\<lambda>most_free.
             case most_free of
               None \<Rightarrow> Inr (ERR_NOCLIENTS, post_failed api s (sln_id v))
             | Some a \<Rightarrow> rbind (deref (clients s) a) (\<lambda>cl.
                 Inr (0, s\<lparr>clients := (clients s)(a \<mapsto>
                   cl\<lparr>solutions_queue := lq_push sln (solutions_queue cl)\<rparr>)\<rparr>)))))"

section \<open>Creating and freeing\<close>

definition client_create :: "socket \<Rightarrow> u32 \<Rightarrow> client_t" where
  "client_create ep i = \<lparr>cl_id = i, cl_socket = ep, solutions_queue = [], checking_solution = None,
     recv_pkt = None, send_pkt = None, last_recv_delay = 0, last_send_delay = 0\<rparr>"

definition compiler_create :: "u16 \<Rightarrow> u16 \<Rightarrow> compiler_t" where
  "compiler_create i padding = \<lparr>cm_id = i, cm_padding = padding, clients_list = None\<rparr>"

fun free_solutions :: "'c server \<Rightarrow> sln_ptr list \<Rightarrow> 'c server res" where
  "free_solutions s [] = Inr s"
| "free_solutions s (p # ps) = rbind (solution_free s (Some p)) (\<lambda>s'. free_solutions s' ps)"

definition client_free :: "'c server \<Rightarrow> addr \<Rightarrow> 'c server res" where
  "client_free s a =
     (if a = NULL then Inr s
      else rbind (deref (clients s) a) (\<lambda>cl.
        rbind (free_solutions s (solutions_queue cl)) (\<lambda>s1.
        rbind (solution_free s1 (checking_solution cl)) (\<lambda>s2.
          Inr (s2\<lparr>clients := (clients s2)(a := None), closed := closed s2 @ [cl_socket cl]\<rparr>)))))"

text \<open>\<^verbatim>\<open>compiler_free\<close>: every \<^verbatim>\<open>client_id_t\<close> is taken out of the list and released.\<close>

fun free_client_ids :: "'c server \<Rightarrow> hash_head \<Rightarrow> addr list \<Rightarrow> ('c server \<times> hash_head) res" where
  "free_client_ids s h [] = Inr (s, h)"
| "free_client_ids s h (c # cs) =
     rbind (HASH_DELETE h c) (\<lambda>h'.
     rbind (free_cell (client_ids s) c) (\<lambda>m. free_client_ids (s\<lparr>client_ids := m\<rparr>) h' cs))"

definition compiler_free :: "'c server \<Rightarrow> addr \<Rightarrow> 'c server res" where
  "compiler_free s a =
     (if a = NULL then Inr s
      else rbind (deref (compilers s) a) (\<lambda>cm.
        rbind (free_client_ids s (clients_list cm) (hash_elts (clients_list cm))) (\<lambda>(s1, _).
          Inr (s1\<lparr>compilers := (compilers s1)(a := None)\<rparr>))))"

section \<open>Removing a client\<close>

text \<open>The inner loop over one compiler's list, with the saved \<^verbatim>\<open>next\<close> pointer of \<^verbatim>\<open>HASH_ITER\<close>.\<close>

fun drop_client_ids :: "'c server \<Rightarrow> u32 \<Rightarrow> hash_head \<Rightarrow> addr list \<Rightarrow> ('c server \<times> hash_head) res" where
  "drop_client_ids s i h [] = Inr (s, h)"
| "drop_client_ids s i h (c # cs) =
     rbind (deref (client_ids s) c) (\<lambda>ci.
       if ci = i then
         rbind (HASH_DELETE h c) (\<lambda>h'.
         rbind (free_cell (client_ids s) c) (\<lambda>m. drop_client_ids (s\<lparr>client_ids := m\<rparr>) i h' cs))
       else drop_client_ids s i h cs)"

fun drop_from_compilers :: "'c server \<Rightarrow> u32 \<Rightarrow> addr list \<Rightarrow> 'c server res" where
  "drop_from_compilers s i [] = Inr s"
| "drop_from_compilers s i (a # as) =
     rbind (deref (compilers s) a) (\<lambda>cm.
     rbind (drop_client_ids s i (clients_list cm) (hash_elts (clients_list cm))) (\<lambda>(s1, h).
       drop_from_compilers (s1\<lparr>compilers := (compilers s1)(a \<mapsto> cm\<lparr>clients_list := h\<rparr>)\<rparr>) i as))"

text \<open>
  \<^verbatim>\<open>while((pending_sln = queue_pop(...)) != NULL) push_solution(pending_sln);\<close>
  if \<^verbatim>\<open>push_solution\<close> could put a solution back into the same queue, the loop would not end.
\<close>

partial_function (option) drain_loop ::
  "'c mysql_api \<Rightarrow> 'c server \<Rightarrow> addr \<Rightarrow> 'c server res option" where
  "drain_loop api s a =
     (case deref (clients s) a of
        Inl e \<Rightarrow> Some (Inl e)
      | Inr cl \<Rightarrow> (case lq_pop (solutions_queue cl) of
          (None, _) \<Rightarrow> Some (Inr s)
        | (Some p, q) \<Rightarrow>
            (case push_solution api (s\<lparr>clients := (clients s)(a \<mapsto> cl\<lparr>solutions_queue := q\<rparr>)\<rparr>) p of
               Inl e \<Rightarrow> Some (Inl e)
             | Inr (_, s') \<Rightarrow> drain_loop api s' a)))"

definition push_checking :: "'c mysql_api \<Rightarrow> 'c server \<Rightarrow> addr \<Rightarrow> 'c server res" where
  "push_checking api s a =
     rbind (deref (clients s) a) (\<lambda>cl. case checking_solution cl of
       None \<Rightarrow> Inr s
     | Some p \<Rightarrow> rbind (push_solution api s p) (\<lambda>(_, s1).
         rbind (deref (clients s1) a) (\<lambda>cl1.
           Inr (s1\<lparr>clients := (clients s1)(a \<mapsto> cl1\<lparr>checking_solution := None\<rparr>)\<rparr>))))"

text \<open>Taking the client out of the two tables; the address is that of its \<^verbatim>\<open>client_t\<close>.\<close>

definition unlink_client :: "'c server \<Rightarrow> u32 \<Rightarrow> addr \<Rightarrow> 'c server res" where
  "unlink_client s i client =
     rbind (drop_from_compilers s i (hash_elts (compilers_map s))) (\<lambda>s1.
     rbind (HASH_DELETE (clients_map s1) client) (\<lambda>h.
       Inr (s1\<lparr>clients_map := h, last_client_id := last_client_id s1 - 1\<rparr>)))"

definition drain_client :: "'c mysql_api \<Rightarrow> 'c server \<Rightarrow> addr \<Rightarrow> 'c server res option" where
  "drain_client api s client =
     obind (Some (deref (clients s) client)) (\<lambda>cl.
       if lq_count (solutions_queue cl) > 0 then drain_loop api s client else Some (Inr s))"

definition remove_client :: "'c mysql_api \<Rightarrow> 'c server \<Rightarrow> u32 \<Rightarrow> 'c server res option" where
  "remove_client api s i = (case HASH_FIND (clients_map s) (store32 i) of
     None \<Rightarrow> Some (Inr s)
   | Some client \<Rightarrow>
       obind (Some (unlink_client s i client)) (\<lambda>s1.
       obind (Some (push_checking api s1 client)) (\<lambda>s2.
       obind (drain_client api s2 client) (\<lambda>s3.
         Some (client_free s3 client)))))"

section \<open>Registering a client\<close>

text \<open>
  The second half of the handshake in \<^verbatim>\<open>client_loop\<close>: the new client gets the next id and goes into
  the client table, then under every compiler it announced.
\<close>

definition add_client :: "'c server \<Rightarrow> socket \<Rightarrow> u8 list \<Rightarrow> 'c server" where
  "add_client s ep res_pkt =
     (let new_client_id = last_client_id s;
          client = (client_create ep new_client_id)\<lparr>recv_pkt := Some res_pkt\<rparr>
      in s\<lparr>last_client_id := last_client_id s + 1,
           clients := (clients s)(next_addr s \<mapsto> client), next_addr := Suc (next_addr s),
           clients_map := HASH_ADD (clients_map s) (store32 new_client_id) (next_addr s)\<rparr>)"

text \<open>
  \<^verbatim>\<open>HASH_FIND_INT\<close> on the 16-bit local \<^verbatim>\<open>compiler_id\<close> reads the two bytes after it on the stack,
  \<^verbatim>\<open>HASH_ADD_INT\<close> on the 16-bit field \<^verbatim>\<open>id\<close> the two bytes of padding after it in fresh memory: both
  are arguments.
\<close>

definition find_or_add_compiler :: "'c server \<Rightarrow> u16 \<Rightarrow> u16 \<Rightarrow> u16 \<Rightarrow> addr \<times> 'c server" where
  "find_or_add_compiler s stack heap compiler_id =
     (case HASH_FIND (compilers_map s) (store16 compiler_id @ store16 stack) of
        Some c \<Rightarrow> (c, s)
      | None \<Rightarrow> (next_addr s,
          s\<lparr>compilers := (compilers s)(next_addr s \<mapsto> compiler_create compiler_id heap),
            next_addr := Suc (next_addr s),
            compilers_map := HASH_ADD (compilers_map s) (store16 compiler_id @ store16 heap) (next_addr s)\<rparr>))"

definition add_client_id :: "'c server \<Rightarrow> u32 \<Rightarrow> addr \<Rightarrow> 'c server res" where
  "add_client_id s new_client_id c =
     rbind (deref (compilers s) c) (\<lambda>compiler.
       Inr (s\<lparr>client_ids := (client_ids s)(next_addr s \<mapsto> new_client_id),
              next_addr := Suc (next_addr s),
              compilers := (compilers s)(c \<mapsto> compiler\<lparr>clients_list :=
                HASH_ADD (clients_list compiler) (store32 new_client_id) (next_addr s)\<rparr>)\<rparr>))"

fun add_compilers :: "'c server \<Rightarrow> u32 \<Rightarrow> (u16 \<times> u16 \<times> u16) list \<Rightarrow> 'c server res" where
  "add_compilers s new_client_id [] = Inr s"
| "add_compilers s new_client_id ((compiler_id, stack, heap) # ids) =
     (case find_or_add_compiler s stack heap compiler_id of
        (c, s1) \<Rightarrow> rbind (add_client_id s1 new_client_id c) (\<lambda>s2. add_compilers s2 new_client_id ids))"

definition register :: "'c server \<Rightarrow> socket \<Rightarrow> u8 list \<Rightarrow> (u16 \<times> u16 \<times> u16) list \<Rightarrow> 'c server res" where
  "register s ep res_pkt ids = add_compilers (add_client s ep res_pkt) (last_client_id s) ids"

end
