(* ===== verification/Dispatch.thy ===== *)
theory Dispatch
  imports Server
begin

text \<open>
  Which client gets a solution, and what becomes of the solutions of a client that is removed.
  The invariant \<open>srv_ok\<close> says that the tables are intact and lead to live structures.
\<close>

section \<open>The invariant\<close>

definition key_of_compiler :: "compiler_t \<Rightarrow> u8 list" where
  "key_of_compiler cm = store16 (cm_id cm) @ store16 (cm_padding cm)"

definition ids_ok :: "(addr \<rightharpoonup> u32) \<Rightarrow> hash_head \<Rightarrow> bool" where
  "ids_ok ids h \<longleftrightarrow> hash_ok h
     \<and> (\<forall>(k, c) \<in> set (hash_entries h). c \<noteq> NULL \<and> (\<exists>i. ids c = Some i \<and> k = store32 i))"

definition clients_ok :: "'c server \<Rightarrow> bool" where
  "clients_ok s \<longleftrightarrow> hash_ok (clients_map s)
     \<and> (\<forall>(k, a) \<in> set (hash_entries (clients_map s)).
          a \<noteq> NULL \<and> (\<exists>cl. clients s a = Some cl \<and> k = store32 (cl_id cl)))"

definition lists_ok :: "'c server \<Rightarrow> bool" where
  "lists_ok s \<longleftrightarrow>
     (\<forall>a cm. compilers s a = Some cm \<longrightarrow> ids_ok (client_ids s) (clients_list cm))
     \<and> (\<forall>a b cm cm'. compilers s a = Some cm \<longrightarrow> compilers s b = Some cm' \<longrightarrow> a \<noteq> b \<longrightarrow>
          set (hash_elts (clients_list cm)) \<inter> set (hash_elts (clients_list cm')) = {})"

definition compilers_ok :: "'c server \<Rightarrow> bool" where
  "compilers_ok s \<longleftrightarrow> hash_ok (compilers_map s)
     \<and> (\<forall>(k, a) \<in> set (hash_entries (compilers_map s)).
          a \<noteq> NULL \<and> (\<exists>cm. compilers s a = Some cm \<and> k = key_of_compiler cm))
     \<and> lists_ok s"

definition fresh_ok :: "'c server \<Rightarrow> bool" where
  "fresh_ok s \<longleftrightarrow> 0 < next_addr s \<and> (\<forall>a \<ge> next_addr s.
     clients s a = None \<and> compilers s a = None \<and> client_ids s a = None \<and> sln_mem s a = None)"

definition srv_ok :: "'c server \<Rightarrow> bool" where
  "srv_ok s \<longleftrightarrow> clients_ok s \<and> compilers_ok s \<and> fresh_ok s"

lemma compilers_ok_frame [simp]:
  "compilers_ok (s\<lparr>clients := x\<rparr>) = compilers_ok s" "compilers_ok (s\<lparr>clients_map := h\<rparr>) = compilers_ok s"
  "compilers_ok (s\<lparr>db := d\<rparr>) = compilers_ok s" "compilers_ok (s\<lparr>last_client_id := i\<rparr>) = compilers_ok s"
  "compilers_ok (s\<lparr>sln_mem := m\<rparr>) = compilers_ok s" "compilers_ok (s\<lparr>closed := ss\<rparr>) = compilers_ok s"
  by (simp_all add: compilers_ok_def lists_ok_def)

text \<open>The solutions the server holds, client by client in the order of the table.\<close>

definition held_by :: "client_t \<Rightarrow> sln_ptr multiset" where
  "held_by cl = mset (solutions_queue cl)
     + (case checking_solution cl of None \<Rightarrow> {#} | Some p \<Rightarrow> {#p#})"

definition held_at :: "'c server \<Rightarrow> addr \<Rightarrow> sln_ptr multiset" where
  "held_at s a = (case clients s a of None \<Rightarrow> {#} | Some cl \<Rightarrow> held_by cl)"

definition held :: "'c server \<Rightarrow> sln_ptr multiset" where
  "held s = sum_list (map (held_at s) (hash_elts (clients_map s)))"

lemma srv_ok_client:
  assumes "srv_ok s" and "a \<in> set (hash_elts (clients_map s))"
  obtains cl where "a \<noteq> NULL" "clients s a = Some cl"
  using assms by (fastforce simp: srv_ok_def clients_ok_def hash_elts_entries)

lemma srv_ok_find_client:
  assumes "srv_ok s" and "HASH_FIND (clients_map s) (store32 i) = Some a"
  obtains cl where "a \<in> set (hash_elts (clients_map s))" "a \<noteq> NULL" "clients s a = Some cl" "cl_id cl = i"
proof -
  have "(store32 i, a) \<in> set (hash_entries (clients_map s))"
    using assms by (intro ut.find_Some) (simp_all add: srv_ok_def clients_ok_def)
  moreover then obtain cl where "a \<noteq> NULL" "clients s a = Some cl" "cl_id cl = i"
    using assms(1) by (fastforce simp: srv_ok_def clients_ok_def)
  ultimately show ?thesis using that by (force simp: hash_elts_entries)
qed

lemma distinct_hash_elts: "hash_ok h \<Longrightarrow> distinct (hash_elts h)"
  by (simp add: hash_elts_entries hash_entries_distinct_elts)

lemma sum_list_upd:
  fixes f :: "'a \<Rightarrow> 'b multiset"
  assumes "distinct xs"
  shows "sum_list (map (f(a := v)) xs) + (if a \<in> set xs then f a else {#})
    = sum_list (map f xs) + (if a \<in> set xs then v else {#})"
  using assms
proof (induction xs)
  case Nil
  then show ?case by simp
next
  case (Cons x xs)
  then show ?case by (cases "x = a") (auto simp: ac_simps)
qed

lemma member_sum_list_mset:
  fixes f :: "'a \<Rightarrow> 'b multiset"
  shows "a \<in> set xs \<Longrightarrow> f a \<subseteq># sum_list (map f xs)"
  by (induction xs) (auto intro: subset_mset.add_increasing)

lemma size_held_at: "a \<in> set (hash_elts (clients_map s)) \<Longrightarrow> size (held_at s a) \<le> size (held s)"
  unfolding held_def by (intro size_mset_mono member_sum_list_mset)

section \<open>The choice\<close>

text \<open>The clients of a compiler's list that are in the client table, in the order of the list.\<close>

definition cands :: "'c server \<Rightarrow> addr list \<Rightarrow> addr list" where
  "cands s cs = concat (map (\<lambda>c. case client_ids s c of None \<Rightarrow> []
     | Some i \<Rightarrow> (case HASH_FIND (clients_map s) (store32 i) of None \<Rightarrow> [] | Some a \<Rightarrow> [a])) cs)"

definition idle :: "client_t \<Rightarrow> bool" where
  "idle cl \<longleftrightarrow> solutions_queue cl = [] \<and> checking_solution cl = None"

definition client_idle :: "'c server \<Rightarrow> addr \<Rightarrow> bool" where
  "client_idle s a = (case clients s a of None \<Rightarrow> False | Some cl \<Rightarrow> idle cl)"

lemma cands_in_map:
  assumes "srv_ok s" and "a \<in> set (cands s cs)"
  shows "a \<in> set (hash_elts (clients_map s))"
proof -
  from assms(2) obtain i where "HASH_FIND (clients_map s) (store32 i) = Some a"
    by (auto simp: cands_def split: option.splits)
  then show ?thesis using srv_ok_find_client [OF assms(1)] by metis
qed

lemma cur_loading_idle:
  assumes "size (held_by cl) < 2 ^ 32"
  shows "cur_loading cl = (if idle cl then 0 else 1)"
proof -
  define n where "n = length (solutions_queue cl) + (if checking_solution cl \<noteq> None then 1 else 0)"
  have "n < 2 ^ LENGTH(32)" using assms by (auto simp: n_def held_by_def split: option.splits)
  then have "(of_nat n :: u32) = 0 \<longleftrightarrow> n = 0" by (rule of_nat_eq_0_small)
  moreover have "lq_count (solutions_queue cl) + (if checking_solution cl \<noteq> None then 1 else 0) = (of_nat n :: u32)"
    by (simp add: n_def lq_count_def)
  moreover have "n = 0 \<longleftrightarrow> idle cl"
    by (cases "checking_solution cl") (simp_all add: n_def idle_def)
  ultimately show ?thesis by (simp add: cur_loading_def)
qed

text \<open>The first idle candidate, or else the last candidate, whatever its load.\<close>

definition pick :: "'c server \<Rightarrow> addr list \<Rightarrow> addr" where
  "pick s as = (case find (client_idle s) as of Some a \<Rightarrow> a | None \<Rightarrow> last as)"

lemma pick_Cons: "pick s (a # as) = (if client_idle s a \<or> as = [] then a else pick s as)"
  by (simp add: pick_def split: option.split)

lemma pick_in: "as \<noteq> [] \<Longrightarrow> pick s as \<in> set as"
  by (induction as) (auto simp: pick_Cons)

lemma choose_loop_spec:
  assumes ok: "srv_ok s" and small: "size (held s) < 2 ^ 32"
    and cs: "\<forall>c \<in> set cs. c \<noteq> NULL \<and> client_ids s c \<noteq> None" and "1 \<le> m"
  shows "choose_loop s cs m mf = Inr (if cands s cs = [] then mf else Some (pick s (cands s cs)))"
  using cs \<open>1 \<le> m\<close>
proof (induction cs arbitrary: m mf)
  case Nil
  then show ?case by (simp add: cands_def)
next
  case (Cons c cs)
  then obtain i where i: "c \<noteq> NULL" "client_ids s c = Some i" by auto
  show ?case
  proof (cases "HASH_FIND (clients_map s) (store32 i)")
    case None
    then have "cands s (c # cs) = cands s cs" using i by (simp add: cands_def)
    then show ?thesis using Cons i None by simp
  next
    case (Some a)
    then obtain cl where a: "a \<in> set (hash_elts (clients_map s))" "a \<noteq> NULL" "clients s a = Some cl"
      using srv_ok_find_client [OF ok] by metis
    have "size (held_by cl) < 2 ^ 32"
      using size_held_at [OF a(1)] a(3) small by (simp add: held_at_def)
    then have "cur_loading cl = (if client_idle s a then 0 else 1)"
      using a(3) by (simp add: cur_loading_idle client_idle_def)
    moreover have "cands s (c # cs) = a # cands s cs" using i Some by (simp add: cands_def)
    ultimately show ?thesis
      using Cons i Some a by (simp add: pick_Cons)
  qed
qed

section \<open>Pushing a solution\<close>

definition append_sln :: "'c server \<Rightarrow> addr \<Rightarrow> sln_ptr \<Rightarrow> 'c server" where
  "append_sln s a p = (case clients s a of None \<Rightarrow> s
     | Some cl \<Rightarrow> s\<lparr>clients := (clients s)(a \<mapsto> cl\<lparr>solutions_queue := solutions_queue cl @ [p]\<rparr>)\<rparr>)"

lemma append_sln_simps [simp]:
  "clients_map (append_sln s a p) = clients_map s" "compilers_map (append_sln s a p) = compilers_map s"
  "compilers (append_sln s a p) = compilers s" "client_ids (append_sln s a p) = client_ids s"
  "sln_mem (append_sln s a p) = sln_mem s" "next_addr (append_sln s a p) = next_addr s"
  "closed (append_sln s a p) = closed s"
  "db (append_sln s a p) = db s" "last_client_id (append_sln s a p) = last_client_id s"
  "b \<noteq> a \<Longrightarrow> clients (append_sln s a p) b = clients s b"
  by (simp_all add: append_sln_def split: option.splits)

lemma post_failed_simps [simp]:
  "clients_map (post_failed api s i) = clients_map s" "compilers_map (post_failed api s i) = compilers_map s"
  "compilers (post_failed api s i) = compilers s" "client_ids (post_failed api s i) = client_ids s"
  "sln_mem (post_failed api s i) = sln_mem s" "next_addr (post_failed api s i) = next_addr s"
  "closed (post_failed api s i) = closed s"
  "clients (post_failed api s i) = clients s" "last_client_id (post_failed api s i) = last_client_id s"
  "sent (db (post_failed api s i)) = sent (db s) @ [result_query i 0 ''FL'']"
  by (simp_all add: post_failed_def solution_post_result_def query_sent)

lemma srv_ok_post_failed [simp]: "srv_ok (post_failed api s i) = srv_ok s"
  by (simp add: srv_ok_def clients_ok_def compilers_ok_def lists_ok_def fresh_ok_def)

lemma srv_ok_append_sln: "srv_ok s \<Longrightarrow> srv_ok (append_sln s a p)"
  by (fastforce simp: srv_ok_def clients_ok_def compilers_ok_def lists_ok_def fresh_ok_def append_sln_def
      split: option.splits)

lemma held_post_failed [simp]: "held (post_failed api s i) = held s"
  by (simp add: held_def held_at_def [abs_def])

lemma held_append_sln:
  assumes "srv_ok s" and "a \<in> set (hash_elts (clients_map s))"
  shows "held (append_sln s a p) = add_mset p (held s)"
proof -
  obtain cl where cl: "clients s a = Some cl" using assms by (rule srv_ok_client)
  have dist: "distinct (hash_elts (clients_map s))"
    using assms(1) by (intro distinct_hash_elts) (simp add: srv_ok_def clients_ok_def)
  have upd: "held_at (append_sln s a p) = (held_at s)(a := add_mset p (held_at s a))"
    using cl by (auto simp: held_at_def append_sln_def held_by_def fun_eq_iff split: option.splits)
  have "held (append_sln s a p) + held_at s a = add_mset p (held s) + held_at s a"
    using sum_list_upd [OF dist, of "held_at s" a "add_mset p (held_at s a)"] assms(2)
    by (simp add: held_def upd)
  then show ?thesis by simp
qed

lemma load_sln_cong: "sln_mem s = sln_mem s' \<Longrightarrow> load_sln s p = load_sln s' p"
  by (simp add: load_sln_def)

lemma push_solution_spec:
  assumes ok: "srv_ok s" and small: "size (held s) < 2 ^ 32" and v: "load_sln s p = Inr v"
  shows "push_solution api s p = Inr
    (case HASH_FIND (compilers_map s) (store32 (sln_compiler_id v)) of
       None \<Rightarrow> (ERR_NOCOMPILER, post_failed api s (sln_id v))
     | Some c \<Rightarrow>
         if cands s (hash_elts (clients_list (the (compilers s c)))) = []
         then (ERR_NOCLIENTS, post_failed api s (sln_id v))
         else (0, append_sln s (pick s (cands s (hash_elts (clients_list (the (compilers s c)))))) p))"
proof (cases "HASH_FIND (compilers_map s) (store32 (sln_compiler_id v))")
  case None
  with v show ?thesis by (simp add: push_solution_def)
next
  case (Some c)
  then have "(store32 (sln_compiler_id v), c) \<in> set (hash_entries (compilers_map s))"
    using ok by (intro ut.find_Some) (simp_all add: srv_ok_def compilers_ok_def)
  then obtain cm where cm: "c \<noteq> NULL" "compilers s c = Some cm"
    using ok by (fastforce simp: srv_ok_def compilers_ok_def)
  define as where "as = cands s (hash_elts (clients_list cm))"
  have "\<forall>c \<in> set (hash_elts (clients_list cm)). c \<noteq> NULL \<and> client_ids s c \<noteq> None"
    using ok cm(2) by (fastforce simp: srv_ok_def compilers_ok_def lists_ok_def ids_ok_def hash_elts_entries)
  then have ch: "choose_loop s (hash_elts (clients_list cm)) 0x7FFFFFFF None
      = Inr (if as = [] then None else Some (pick s as))"
    using choose_loop_spec [OF ok small] as_def by simp
  show ?thesis
  proof (cases "as = []")
    case True
    with ch Some cm v show ?thesis by (simp add: push_solution_def as_def)
  next
    case False
    then have "pick s as \<in> set (hash_elts (clients_map s))"
      using cands_in_map [OF ok] pick_in unfolding as_def by blast
    then obtain cl where "pick s as \<noteq> NULL" "clients s (pick s as) = Some cl"
      by (rule srv_ok_client [OF ok])
    then show ?thesis
      using ch Some cm v False by (simp add: push_solution_def append_sln_def lq_push_def as_def)
  qed
qed

text \<open>What every caller of \<^verbatim>\<open>push_solution\<close> may rely on: the solution is handed over or posted as failed.\<close>

lemma push_solution_cases:
  assumes "srv_ok s" and "size (held s) < 2 ^ 32" and "load_sln s p = Inr v"
  obtains a where "push_solution api s p = Inr (0, append_sln s a p)" "a \<in> set (hash_elts (clients_map s))"
  | r where "push_solution api s p = Inr (r, post_failed api s (sln_id v))" "r \<noteq> 0"
proof (cases "HASH_FIND (compilers_map s) (store32 (sln_compiler_id v))")
  case None
  then show ?thesis using push_solution_spec [OF assms, of api] that(2) by simp
next
  case (Some c)
  let ?as = "cands s (hash_elts (clients_list (the (compilers s c))))"
  show ?thesis
  proof (cases "?as = []")
    case True
    then show ?thesis using push_solution_spec [OF assms, of api] Some that(2) by simp
  next
    case False
    then have "pick s ?as \<in> set (hash_elts (clients_map s))"
      using cands_in_map [OF assms(1)] pick_in by blast
    then show ?thesis using push_solution_spec [OF assms, of api] Some False that(1) by simp
  qed
qed

section \<open>Taking a client out of the tables\<close>

lemma drop_client_ids_ok:
  assumes "ids_ok (client_ids s) h" and "set cs \<subseteq> set (hash_elts h)" and "distinct cs"
  shows "\<exists>h'. drop_client_ids s i h cs
      = Inr (s\<lparr>client_ids := (\<lambda>a. if a \<in> set cs \<and> client_ids s a = Some i then None else client_ids s a)\<rparr>, h')
    \<and> hash_ok h'
    \<and> hash_entries h' = filter (\<lambda>e. \<not> (snd e \<in> set cs \<and> client_ids s (snd e) = Some i)) (hash_entries h)"
  using assms
proof (induction cs arbitrary: s h)
  case Nil
  then show ?case by (simp add: ids_ok_def)
next
  case (Cons c cs)
  then obtain k where k: "(k, c) \<in> set (hash_entries h)" by (auto simp: hash_elts_entries)
  with Cons.prems(1) obtain j where j: "c \<noteq> NULL" "client_ids s c = Some j" "k = store32 j"
    by (fastforce simp: ids_ok_def)
  show ?case
  proof (cases "j = i")
    case False
    with Cons.IH [OF Cons.prems(1)] Cons.prems obtain h' where
      IH: "drop_client_ids s i h cs
        = Inr (s\<lparr>client_ids := (\<lambda>a. if a \<in> set cs \<and> client_ids s a = Some i then None else client_ids s a)\<rparr>, h')"
        "hash_ok h'"
        "hash_entries h' = filter (\<lambda>e. \<not> (snd e \<in> set cs \<and> client_ids s (snd e) = Some i)) (hash_entries h)"
      by auto
    have "(\<lambda>a. if a \<in> set (c # cs) \<and> client_ids s a = Some i then None else client_ids s a)
        = (\<lambda>a. if a \<in> set cs \<and> client_ids s a = Some i then None else client_ids s a)"
      using j False by (auto simp: fun_eq_iff)
    moreover have "hash_entries h'
        = filter (\<lambda>e. \<not> (snd e \<in> set (c # cs) \<and> client_ids s (snd e) = Some i)) (hash_entries h)"
      unfolding IH(3) using j False by (intro filter_cong) auto
    ultimately show ?thesis using j False IH(1,2) by simp
  next
    case True
    obtain h1 where h1: "HASH_DELETE h c = Inr h1" "hash_ok h1"
        "hash_entries h1 = filter (\<lambda>e. snd e \<noteq> c) (hash_entries h)"
      using ut.delete_ok [OF _ k] Cons.prems(1) by (auto simp: ids_ok_def)
    define s1 where "s1 = s\<lparr>client_ids := (client_ids s)(c := None)\<rparr>"
    have s1: "client_ids s1 = (client_ids s)(c := None)" by (simp add: s1_def)
    have "ids_ok (client_ids s1) h1" using Cons.prems(1) h1(2,3) unfolding s1 by (fastforce simp: ids_ok_def)
    moreover have "set cs \<subseteq> set (hash_elts h1)"
      using Cons.prems(2,3) h1(3) by (force simp: hash_elts_entries)
    moreover have "distinct cs" using Cons.prems(3) by simp
    ultimately obtain h' where
      IH: "drop_client_ids s1 i h1 cs
        = Inr (s1\<lparr>client_ids := (\<lambda>a. if a \<in> set cs \<and> client_ids s1 a = Some i then None else client_ids s1 a)\<rparr>, h')"
        "hash_ok h'"
        "hash_entries h' = filter (\<lambda>e. \<not> (snd e \<in> set cs \<and> client_ids s1 (snd e) = Some i)) (hash_entries h1)"
      using Cons.IH [of s1 h1] by blast
    have "(\<lambda>a. if a \<in> set cs \<and> client_ids s1 a = Some i then None else client_ids s1 a)
        = (\<lambda>a. if a \<in> set (c # cs) \<and> client_ids s a = Some i then None else client_ids s a)"
      using j True by (auto simp: fun_eq_iff s1)
    moreover have "hash_entries h'
        = filter (\<lambda>e. \<not> (snd e \<in> set (c # cs) \<and> client_ids s (snd e) = Some i)) (hash_entries h)"
      unfolding IH(3) h1(3) filter_filter using j True by (intro filter_cong) (auto simp: s1)
    ultimately show ?thesis using j True h1(1) IH(1,2) by (simp add: s1_def)
  qed
qed

text \<open>\<open>dropped i as s s'\<close>: from \<open>s\<close> to \<open>s'\<close>, the id \<open>i\<close> left the lists of the compilers \<open>as\<close>.\<close>

definition dropped :: "u32 \<Rightarrow> addr list \<Rightarrow> 'c server \<Rightarrow> 'c server \<Rightarrow> bool" where
  "dropped i as s s' \<longleftrightarrow> lists_ok s'
     \<and> s' = s\<lparr>compilers := compilers s', client_ids := client_ids s'\<rparr>
     \<and> dom (client_ids s') \<subseteq> dom (client_ids s)
     \<and> (\<forall>a. a \<notin> set as \<longrightarrow> compilers s' a = compilers s a)
     \<and> (\<forall>a \<in> set as. \<forall>cm. compilers s a = Some cm \<longrightarrow>
          (\<exists>h. compilers s' a = Some (cm\<lparr>clients_list := h\<rparr>)
             \<and> hash_entries h = filter (\<lambda>e. fst e \<noteq> store32 i) (hash_entries (clients_list cm))))"

lemma store32_id:
  assumes "ids_ok ids h" and "(k, c) \<in> set (hash_entries h)"
  shows "ids c = Some i \<longleftrightarrow> k = store32 i"
  using assms by (auto simp: ids_ok_def)

lemma ids_ok_other:
  assumes "ids_ok ids h" and "\<forall>c \<in> set (hash_elts h). ids' c = ids c"
  shows "ids_ok ids' h"
  using assms by (fastforce simp: ids_ok_def hash_elts_entries)

lemma lists_ok_disjoint:
  "lists_ok s \<Longrightarrow> compilers s a = Some cm \<Longrightarrow> compilers s b = Some cm' \<Longrightarrow> b \<noteq> a \<Longrightarrow>
    set (hash_elts (clients_list cm)) \<inter> set (hash_elts (clients_list cm')) = {}"
  unfolding lists_ok_def by blast

lemma lists_ok_ids: "lists_ok s \<Longrightarrow> compilers s b = Some cm \<Longrightarrow> ids_ok (client_ids s) (clients_list cm)"
  by (simp add: lists_ok_def)

lemma lists_ok_upd:
  assumes ok: "lists_ok s" and h: "ids_ok ids h"
    and other: "\<And>b cm'. compilers s b = Some cm' \<Longrightarrow> b \<noteq> a \<Longrightarrow>
      set (hash_elts h) \<inter> set (hash_elts (clients_list cm')) = {}
        \<and> (\<forall>c \<in> set (hash_elts (clients_list cm')). ids c = client_ids s c)"
    and s': "client_ids s' = ids" "compilers s' = (compilers s)(a \<mapsto> cm\<lparr>clients_list := h\<rparr>)"
  shows "lists_ok s'"
proof -
  have "ids_ok ids (clients_list cm')" if b: "compilers s b = Some cm'" "b \<noteq> a" for b cm'
    using ids_ok_other [OF lists_ok_ids [OF ok b(1)]] other [OF b] by blast
  moreover have "set (hash_elts (clients_list cm1)) \<inter> set (hash_elts (clients_list cm2)) = {}"
    if "compilers s b = Some cm1" "compilers s c = Some cm2" "b \<noteq> c" for b c cm1 cm2
    using lists_ok_disjoint [OF ok that(1,2)] that(3) by blast
  moreover have "set (hash_elts h) \<inter> set (hash_elts (clients_list cm')) = {}"
    if "compilers s b = Some cm'" "b \<noteq> a" for b cm' using other [OF that] by blast
  ultimately show ?thesis
    unfolding lists_ok_def s' using h by (auto simp: fun_upd_apply Int_commute split: if_splits)
qed

lemma dropped_one:
  assumes ok: "lists_ok s" and a: "compilers s a = Some cm"
  shows "\<exists>s1 h. drop_client_ids s i (clients_list cm) (hash_elts (clients_list cm)) = Inr (s1, h)
    \<and> dropped i [a] s (s1\<lparr>compilers := (compilers s1)(a \<mapsto> cm\<lparr>clients_list := h\<rparr>)\<rparr>)"
proof -
  define l where "l = clients_list cm"
  define ids where "ids = (\<lambda>c. if c \<in> set (hash_elts l) \<and> client_ids s c = Some i then None else client_ids s c)"
  have old: "ids_ok (client_ids s) l" using ok a by (auto simp: lists_ok_def l_def)
  then have "distinct (hash_elts l)" by (intro distinct_hash_elts) (simp add: ids_ok_def)
  with drop_client_ids_ok [OF old, of "hash_elts l" i] obtain h where
    h: "drop_client_ids s i l (hash_elts l) = Inr (s\<lparr>client_ids := ids\<rparr>, h)" "hash_ok h"
      "hash_entries h = filter (\<lambda>e. \<not> (snd e \<in> set (hash_elts l) \<and> client_ids s (snd e) = Some i)) (hash_entries l)"
    unfolding ids_def by blast
  have ents: "hash_entries h = filter (\<lambda>e. fst e \<noteq> store32 i) (hash_entries l)"
    unfolding h(3) using store32_id [OF old] by (intro filter_cong) (force simp: hash_elts_entries)+
  have "ids_ok ids h"
    using old h(2) ents store32_id [OF old] by (fastforce simp: ids_ok_def ids_def)
  moreover have "set (hash_elts h) \<subseteq> set (hash_elts l)" using ents by (auto simp: hash_elts_entries)
  ultimately have "lists_ok (s\<lparr>client_ids := ids, compilers := (compilers s)(a \<mapsto> cm\<lparr>clients_list := h\<rparr>)\<rparr>)"
    using lists_ok_disjoint [OF ok a, folded l_def]
    by (intro lists_ok_upd [OF ok, where ids = ids and h = h and a = a and cm = cm]) (auto simp: ids_def)
  then have "dropped i [a] s (s\<lparr>client_ids := ids, compilers := (compilers s)(a \<mapsto> cm\<lparr>clients_list := h\<rparr>)\<rparr>)"
    using a ents by (auto simp: dropped_def ids_def l_def split: if_splits)
  with h(1) show ?thesis by (auto simp: l_def)
qed

lemma dropped_trans:
  assumes d1: "dropped i [a] s s2" and d2: "dropped i as s2 s'" and a: "a \<notin> set as"
  shows "dropped i (a # as) s s'"
  unfolding dropped_def
proof (intro conjI)
  show "lists_ok s'" using d2 by (simp add: dropped_def)
  show "s' = s\<lparr>compilers := compilers s', client_ids := client_ids s'\<rparr>"
    using d1 d2 unfolding dropped_def by (cases s, cases s2, cases s') simp
  show "dom (client_ids s') \<subseteq> dom (client_ids s)" using d1 d2 unfolding dropped_def by blast
  show "\<forall>b. b \<notin> set (a # as) \<longrightarrow> compilers s' b = compilers s b" using d1 d2 by (simp add: dropped_def)
  have "compilers s' a = compilers s2 a" using a d2 unfolding dropped_def by blast
  moreover have "\<forall>b \<in> set as. compilers s2 b = compilers s b" using a d1 by (auto simp: dropped_def)
  ultimately show "\<forall>b \<in> set (a # as). \<forall>cm. compilers s b = Some cm \<longrightarrow>
      (\<exists>h. compilers s' b = Some (cm\<lparr>clients_list := h\<rparr>)
         \<and> hash_entries h = filter (\<lambda>e. fst e \<noteq> store32 i) (hash_entries (clients_list cm)))"
    using d1 d2 unfolding dropped_def by simp
qed

lemma drop_from_compilers_ok:
  assumes "lists_ok s" and "distinct as" and "\<forall>a \<in> set as. a \<noteq> NULL \<and> compilers s a \<noteq> None"
  shows "\<exists>s'. drop_from_compilers s i as = Inr s' \<and> dropped i as s s'"
  using assms
proof (induction as arbitrary: s)
  case Nil
  then show ?case by (simp add: dropped_def)
next
  case (Cons a as)
  then obtain cm where cm: "a \<noteq> NULL" "compilers s a = Some cm" by auto
  from dropped_one [OF Cons.prems(1) cm(2), of i] obtain s1 h where
    s1: "drop_client_ids s i (clients_list cm) (hash_elts (clients_list cm)) = Inr (s1, h)"
      "dropped i [a] s (s1\<lparr>compilers := (compilers s1)(a \<mapsto> cm\<lparr>clients_list := h\<rparr>)\<rparr>)" by blast
  define s2 where "s2 = s1\<lparr>compilers := (compilers s1)(a \<mapsto> cm\<lparr>clients_list := h\<rparr>)\<rparr>"
  note d1 = s1(2) [folded s2_def]
  have "lists_ok s2" "\<forall>b \<in> set as. compilers s2 b = compilers s b"
    using d1 Cons.prems(2) by (auto simp: dropped_def)
  with Cons.IH [of s2] Cons.prems(2,3) obtain s' where
    s': "drop_from_compilers s2 i as = Inr s'" "dropped i as s2 s'" by auto
  then show ?case
    using cm s1(1) dropped_trans [OF d1 s'(2)] Cons.prems(2) by (simp add: s2_def)
qed

lemma unlink_client_ok:
  assumes ok: "srv_ok s" and i: "HASH_FIND (clients_map s) (store32 i) = Some a"
  shows "\<exists>s1 h. unlink_client s i a = Inr s1 \<and> srv_ok s1
    \<and> s1 = s\<lparr>compilers := compilers s1, client_ids := client_ids s1, clients_map := h,
             last_client_id := last_client_id s - 1\<rparr>
    \<and> hash_entries h = filter (\<lambda>e. snd e \<noteq> a) (hash_entries (clients_map s))
    \<and> dropped i (hash_elts (compilers_map s)) s
        (s1\<lparr>clients_map := clients_map s, last_client_id := last_client_id s\<rparr>)"
proof -
  have "distinct (hash_elts (compilers_map s))" "lists_ok s"
    "\<forall>a \<in> set (hash_elts (compilers_map s)). a \<noteq> NULL \<and> compilers s a \<noteq> None"
    using ok by (auto simp: srv_ok_def compilers_ok_def hash_elts_entries hash_entries_distinct_elts)
  with drop_from_compilers_ok obtain t where
    t: "drop_from_compilers s i (hash_elts (compilers_map s)) = Inr t" "dropped i (hash_elts (compilers_map s)) s t"
    by blast
  then obtain cms ids where frame: "t = s\<lparr>compilers := cms, client_ids := ids\<rparr>"
    and dom: "dom ids \<subseteq> dom (client_ids s)" and lists: "lists_ok t"
    unfolding dropped_def by (metis server.select_convs(7) server.surjective server.update_convs(7))
  have ent: "(store32 i, a) \<in> set (hash_entries (clients_map s))"
    using ok i by (intro ut.find_Some) (simp_all add: srv_ok_def clients_ok_def)
  then obtain h where h: "HASH_DELETE (clients_map s) a = Inr h" "hash_ok h"
      "hash_entries h = filter (\<lambda>e. snd e \<noteq> a) (hash_entries (clients_map s))"
    using ut.delete_ok [OF _ ent] ok by (auto simp: srv_ok_def clients_ok_def)
  define s1 where "s1 = s\<lparr>compilers := cms, client_ids := ids, clients_map := h,
             last_client_id := last_client_id s - 1\<rparr>"
  have t': "t = s1\<lparr>clients_map := clients_map s, last_client_id := last_client_id s\<rparr>"
    by (simp add: s1_def frame)
  have "unlink_client s i a = Inr s1"
    using t(1) h(1) by (simp add: unlink_client_def frame s1_def)
  moreover have "clients_ok s1" using ok h(2,3) by (auto simp: srv_ok_def clients_ok_def s1_def)
  moreover have "fresh_ok s1"
  proof -
    have "cms b = None" if "compilers s b = None" for b
      using t(2) [unfolded frame] ok that by (cases "b \<in> set (hash_elts (compilers_map s))")
        (force simp: dropped_def srv_ok_def compilers_ok_def hash_elts_entries)+
    then show ?thesis using ok dom by (auto simp: srv_ok_def fresh_ok_def s1_def domIff subset_iff)
  qed
  moreover have "compilers_ok s1"
  proof -
    have "\<exists>cm'. cms b = Some cm' \<and> key_of_compiler cm' = key_of_compiler cm"
      if "b \<in> set (hash_elts (compilers_map s))" "compilers s b = Some cm" for b cm
      using t(2) [unfolded frame] that by (fastforce simp: dropped_def key_of_compiler_def)
    moreover have "lists_ok s1" using lists by (simp add: lists_ok_def s1_def frame)
    ultimately show ?thesis using ok
      by (fastforce simp: srv_ok_def compilers_ok_def s1_def hash_elts_entries)
  qed
  ultimately show ?thesis using h(3) t(2) t' by (intro exI [of _ s1] exI [of _ h]) (simp add: srv_ok_def s1_def)
qed

lemma sum_list_filter_out:
  fixes f :: "'a \<Rightarrow> 'b multiset"
  assumes "distinct xs" and "a \<in> set xs"
  shows "sum_list (map f xs) = sum_list (map f (filter (\<lambda>x. x \<noteq> a) xs)) + f a"
  using assms
proof (induction xs)
  case Nil
  then show ?case by simp
next
  case (Cons x xs)
  moreover have "filter (\<lambda>x. x \<noteq> a) xs = xs" if "a \<notin> set xs" using that by (auto simp: filter_id_conv)
  ultimately show ?case by (cases "x = a") (auto simp: ac_simps)
qed

lemma held_unlinked:
  assumes ok: "srv_ok s" and a: "a \<in> set (hash_elts (clients_map s))"
    and h: "hash_entries h = filter (\<lambda>e. snd e \<noteq> a) (hash_entries (clients_map s))"
    and s1: "clients_map s1 = h" "clients s1 = clients s"
  shows "held s = held s1 + held_at s a"
proof -
  have "distinct (hash_elts (clients_map s))"
    using ok by (intro distinct_hash_elts) (simp add: srv_ok_def clients_ok_def)
  moreover have "hash_elts h = filter (\<lambda>b. b \<noteq> a) (hash_elts (clients_map s))"
    by (simp add: hash_elts_entries h filter_map comp_def)
  moreover have "held_at s1 = held_at s" by (simp add: held_at_def fun_eq_iff s1)
  ultimately show ?thesis using sum_list_filter_out [OF _ a, of "held_at s"] by (simp add: held_def s1)
qed

section \<open>Handing the solutions of a removed client over\<close>

definition sln_id_at :: "'c server \<Rightarrow> sln_ptr \<Rightarrow> u32" where
  "sln_id_at s p = (case load_sln s p of Inl _ \<Rightarrow> 0 | Inr v \<Rightarrow> sln_id v)"

lemma sln_id_at_cong: "sln_mem s = sln_mem s' \<Longrightarrow> sln_id_at s = sln_id_at s'"
  by (rule ext) (simp add: sln_id_at_def load_sln_def)

definition live :: "'c server \<Rightarrow> sln_ptr \<Rightarrow> bool" where
  "live s p \<longleftrightarrow> (\<exists>v. load_sln s p = Inr v)"

text \<open>
  \<open>handed_over a ps failed s s'\<close>: the solutions \<open>ps\<close> went to the clients of the table, except those of
  \<open>failed\<close>, for which the verdict FL was sent to the database; nothing else changed but the queues
  of the clients of the table, which only grew at their ends.
\<close>

definition grown :: "client_t option \<Rightarrow> client_t option \<Rightarrow> bool" where
  "grown c c' = (case c of None \<Rightarrow> c' = None
     | Some cl \<Rightarrow> (\<exists>ps. c' = Some (cl\<lparr>solutions_queue := solutions_queue cl @ ps\<rparr>)))"

definition queues_grow :: "(addr \<rightharpoonup> client_t) \<Rightarrow> (addr \<rightharpoonup> client_t) \<Rightarrow> bool" where
  "queues_grow m m' \<longleftrightarrow> (\<forall>b. grown (m b) (m' b))"

lemma grown_refl [simp]: "grown c c"
  by (auto simp: grown_def split: option.splits intro!: exI [of _ "[]"])

lemma grown_trans: "grown c c1 \<Longrightarrow> grown c1 c2 \<Longrightarrow> grown c c2"
  by (auto simp: grown_def split: option.splits)

lemma queues_grow_refl [simp]: "queues_grow m m"
  by (simp add: queues_grow_def)

lemma queues_grow_trans: "queues_grow m m1 \<Longrightarrow> queues_grow m1 m2 \<Longrightarrow> queues_grow m m2"
  unfolding queues_grow_def using grown_trans by blast

lemma queues_grow_upd: "queues_grow m m' \<Longrightarrow> queues_grow (m(a := v)) (m'(a := v))"
  by (simp add: queues_grow_def)

lemma queues_grow_append: "queues_grow (clients s) (clients (append_sln s a p))"
proof -
  have "grown (Some cl) (Some (cl\<lparr>solutions_queue := solutions_queue cl @ [p]\<rparr>))" for cl
    by (auto simp: grown_def)
  then show ?thesis by (simp add: queues_grow_def append_sln_def split: option.splits)
qed

definition handed_over ::
  "addr \<Rightarrow> sln_ptr multiset \<Rightarrow> sln_ptr list \<Rightarrow> 'c server \<Rightarrow> 'c server \<Rightarrow> bool" where
  "handed_over a ps failed s s' \<longleftrightarrow> srv_ok s'
     \<and> ps + held s = held s' + mset failed \<and> mset failed \<subseteq># ps \<and> queues_grow (clients s) (clients s')
     \<and> sent (db s') = sent (db s) @ map (\<lambda>p. result_query (sln_id_at s p) 0 ''FL'') failed
     \<and> clients s' a = clients s a
     \<and> s' = s\<lparr>clients := clients s', db := db s'\<rparr>"

lemma handed_over_refl: "srv_ok s \<Longrightarrow> handed_over a {#} [] s s"
  by (simp add: handed_over_def)

lemma handed_over_frame:
  assumes "handed_over a ps failed s s'"
  shows "clients_map s' = clients_map s" "sln_mem s' = sln_mem s" "closed s' = closed s"
    "compilers_map s' = compilers_map s" "compilers s' = compilers s"
    "last_client_id s' = last_client_id s" "client_ids s' = client_ids s"
proof -
  have *: "s' = s\<lparr>clients := clients s', db := db s'\<rparr>" using assms by (simp add: handed_over_def)
  show "clients_map s' = clients_map s" "sln_mem s' = sln_mem s" "closed s' = closed s"
    "compilers_map s' = compilers_map s" "compilers s' = compilers s"
    "last_client_id s' = last_client_id s" "client_ids s' = client_ids s"
    by (subst *, simp)+
qed

lemma handed_over_trans:
  assumes "handed_over a ps f s s1" and "handed_over a qs g s1 s2"
  shows "handed_over a (ps + qs) (f @ g) s s2"
proof -
  have "sln_id_at s1 = sln_id_at s"
    using handed_over_frame(2) [OF assms(1)] by (rule sln_id_at_cong)
  moreover have "s2 = s\<lparr>clients := clients s2, db := db s2\<rparr>"
    using assms unfolding handed_over_def by (cases s, cases s1, cases s2) simp
  moreover have "ps + qs + held s = held s2 + mset (f @ g)"
  proof -
    have "ps + qs + held s = qs + (held s1 + mset f)" using assms(1) by (simp add: handed_over_def ac_simps)
    also have "\<dots> = held s2 + mset g + mset f"
      using assms(2) by (simp add: handed_over_def add.assoc [symmetric])
    finally show ?thesis by (simp add: ac_simps)
  qed
  moreover have "mset (f @ g) \<subseteq># ps + qs" "queues_grow (clients s) (clients s2)"
    using assms queues_grow_trans by (auto simp: handed_over_def intro: subset_mset.add_mono)
  ultimately show ?thesis using assms by (simp add: handed_over_def)
qed

lemma push_solution_hands_over:
  assumes "srv_ok s" and "a \<notin> set (hash_elts (clients_map s))"
    and "size (held s) < 2 ^ 32" and "live s p"
  shows "\<exists>r s' f. push_solution api s p = Inr (r, s') \<and> handed_over a {#p#} f s s'"
proof -
  from assms(4) obtain v where v: "load_sln s p = Inr v" by (auto simp: live_def)
  from push_solution_cases [OF assms(1,3) v, of api] show ?thesis
  proof cases
    case (1 b)
    have "append_sln s b p = s\<lparr>clients := clients (append_sln s b p), db := db (append_sln s b p)\<rparr>"
      by (simp add: append_sln_def split: option.splits)
    moreover have "a \<noteq> b" using 1 assms(2) by blast
    ultimately have "handed_over a {#p#} [] s (append_sln s b p)"
      using srv_ok_append_sln [OF assms(1)] held_append_sln [OF assms(1) 1(2)]
      unfolding handed_over_def by (simp add: queues_grow_append)
    with 1 show ?thesis by blast
  next
    case (2 r)
    then have "handed_over a {#p#} [p] s (post_failed api s (sln_id v))"
      using assms(1) v by (simp add: handed_over_def sln_id_at_def) (simp add: post_failed_def)
    with 2 show ?thesis by blast
  qed
qed

lemma live_cong: "sln_mem s = sln_mem s' \<Longrightarrow> live s p = live s' p"
  unfolding live_def using load_sln_cong by metis

lemma handed_over_size:
  assumes "handed_over a ps f s s'"
  shows "size (held s') \<le> size ps + size (held s)"
proof -
  have "size (held s') + size (mset f) = size ps + size (held s)"
    using assms unfolding handed_over_def by (metis size_union)
  then show ?thesis by linarith
qed

text \<open>What a client that is in no table holds is of no account to the others.\<close>

lemma srv_ok_detached:
  assumes "srv_ok s" and "a \<notin> set (hash_elts (clients_map s))" and "clients s a \<noteq> None"
  shows "srv_ok (s\<lparr>clients := (clients s)(a := v)\<rparr>)"
proof -
  have "fresh_ok (s\<lparr>clients := (clients s)(a := v)\<rparr>)" using assms(1,3) by (auto simp: srv_ok_def fresh_ok_def)
  moreover have "\<forall>e \<in> set (hash_entries (clients_map s)). snd e \<noteq> a"
    using assms(2) by (auto simp: hash_elts_entries)
  then have "clients_ok (s\<lparr>clients := (clients s)(a := v)\<rparr>)"
    using assms(1) by (auto simp: srv_ok_def clients_ok_def case_prod_unfold)
  ultimately show ?thesis using assms(1) by (simp add: srv_ok_def)
qed

lemma held_detached:
  "a \<notin> set (hash_elts (clients_map s)) \<Longrightarrow> held (s\<lparr>clients := (clients s)(a := v)\<rparr>) = held s"
  unfolding held_def by (intro arg_cong [where f = sum_list]) (auto simp: held_at_def)

abbreviation set_client :: "'c server \<Rightarrow> addr \<Rightarrow> client_t \<Rightarrow> 'c server" where
  "set_client s a cl \<equiv> s\<lparr>clients := (clients s)(a \<mapsto> cl)\<rparr>"

lemma handed_over_set_client:
  assumes h: "handed_over a ps f s s'" and a: "a \<notin> set (hash_elts (clients_map s))" and "clients s a \<noteq> None"
  shows "handed_over a ps f (set_client s a cl) (set_client s' a cl)"
proof -
  have cm: "clients_map s' = clients_map s" using h by (rule handed_over_frame)
  have "srv_ok (set_client s' a cl)"
    using h a cm assms(3) by (intro srv_ok_detached) (auto simp: handed_over_def)
  moreover have "held (set_client s' a cl) = held s'" "held (set_client s a cl) = held s"
    using a cm by (simp_all add: held_detached)
  moreover have "sln_id_at (set_client s a cl) = sln_id_at s"
    by (rule sln_id_at_cong) simp
  moreover have "set_client s' a cl = (set_client s a cl)\<lparr>clients := (clients s')(a \<mapsto> cl), db := db s'\<rparr>"
    using h by (cases s, cases s') (simp add: handed_over_def)
  ultimately show ?thesis using h by (simp add: handed_over_def queues_grow_upd)
qed

lemma drain_loop_ok:
  assumes "srv_ok s" and "a \<notin> set (hash_elts (clients_map s))" and "a \<noteq> NULL"
    and "clients s a = Some cl" and "solutions_queue cl = q" and "\<forall>p \<in> set q. live s p"
    and "size (held s) + length q < 2 ^ 32"
  shows "\<exists>s' f. drain_loop api s a = Some (Inr s')
    \<and> handed_over a (mset q) f (set_client s a (cl\<lparr>solutions_queue := []\<rparr>)) s'"
  using assms
proof (induction q arbitrary: s cl)
  case Nil
  then have "set_client s a (cl\<lparr>solutions_queue := []\<rparr>) = s" by (cases s) auto
  moreover have "drain_loop api s a = Some (Inr s)"
    using Nil by (subst drain_loop.simps) (simp add: lq_pop_def)
  ultimately show ?case using handed_over_refl [OF Nil.prems(1)] by (metis mset_zero_iff)
next
  case (Cons p q)
  define s1 where "s1 = set_client s a (cl\<lparr>solutions_queue := q\<rparr>)"
  have s1: "srv_ok s1" "held s1 = held s" "clients_map s1 = clients_map s" "sln_mem s1 = sln_mem s"
    using srv_ok_detached [OF Cons.prems(1,2)] held_detached [OF Cons.prems(2)] Cons.prems(4)
    by (simp_all add: s1_def)
  have "size (held s1) < 2 ^ 32" using s1(2) Cons.prems(7) by simp
  moreover have "live s1 p" using live_cong [OF s1(4)] Cons.prems(6) by simp
  ultimately obtain r s2 f where
    push: "push_solution api s1 p = Inr (r, s2)" and f: "handed_over a {#p#} f s1 s2"
    using push_solution_hands_over [OF s1(1)] s1(3) Cons.prems(2) by metis
  note fr = handed_over_frame [OF f]
  have s2: "srv_ok s2" "clients s2 a = Some (cl\<lparr>solutions_queue := q\<rparr>)"
    using f by (simp_all add: handed_over_def s1_def)
  moreover have "a \<notin> set (hash_elts (clients_map s2))" using fr(1) s1(3) Cons.prems(2) by simp
  moreover have "\<forall>p \<in> set q. live s2 p" using live_cong [of s2 s] fr(2) s1(4) Cons.prems(6) by simp
  moreover have "size (held s2) + length q < 2 ^ 32"
    using handed_over_size [OF f] s1(2) Cons.prems(7) by simp
  ultimately have "\<exists>s' g. drain_loop api s2 a = Some (Inr s')
      \<and> handed_over a (mset q) g (set_client s2 a (cl\<lparr>solutions_queue := []\<rparr>)) s'"
    using Cons.IH [of s2 "cl\<lparr>solutions_queue := q\<rparr>"] Cons.prems(3) by (simp add: fun_upd_def)
  then obtain s' g where
    IH: "drain_loop api s2 a = Some (Inr s')"
      "handed_over a (mset q) g (set_client s2 a (cl\<lparr>solutions_queue := []\<rparr>)) s'" by blast
  have "handed_over a {#p#} f (set_client s1 a (cl\<lparr>solutions_queue := []\<rparr>))
      (set_client s2 a (cl\<lparr>solutions_queue := []\<rparr>))"
    using f s1(3) Cons.prems(2) by (intro handed_over_set_client) (simp_all add: s1_def)
  from handed_over_trans [OF this IH(2)]
  have "handed_over a (mset (p # q)) (f @ g) (set_client s a (cl\<lparr>solutions_queue := []\<rparr>)) s'"
    by (simp add: s1_def)
  moreover have "drain_loop api s a = Some (Inr s')"
    using Cons.prems(3,4,5) push IH(1) by (subst drain_loop.simps) (simp add: lq_pop_def s1_def)
  ultimately show ?case by blast
qed

lemma push_checking_ok:
  assumes "srv_ok s" and "a \<notin> set (hash_elts (clients_map s))" and "a \<noteq> NULL"
    and "clients s a = Some cl" and "\<forall>p \<in># held_by cl. live s p" and "size (held s) < 2 ^ 32"
  shows "\<exists>s' f. push_checking api s a = Inr s'
    \<and> handed_over a (held_by (cl\<lparr>solutions_queue := []\<rparr>)) f (set_client s a (cl\<lparr>checking_solution := None\<rparr>)) s'"
proof (cases "checking_solution cl")
  case None
  then have "set_client s a (cl\<lparr>checking_solution := None\<rparr>) = s" using assms(4) by (cases s) auto
  then show ?thesis using None assms handed_over_refl [OF assms(1)]
    by (simp add: push_checking_def held_by_def) metis
next
  case (Some p)
  then have "live s p" using assms(5) by (simp add: held_by_def)
  with push_solution_hands_over [OF assms(1,2,6)] obtain r s1 f where
    s1: "push_solution api s p = Inr (r, s1)" "handed_over a {#p#} f s s1" by blast
  then have "clients s1 a = Some cl" using assms(4) by (simp add: handed_over_def)
  then show ?thesis
    using Some s1 assms(2,3,4) handed_over_set_client [OF s1(2)]
    by (auto simp: push_checking_def held_by_def)
qed

lemma drain_client_ok:
  assumes "srv_ok s" and "a \<notin> set (hash_elts (clients_map s))" and "a \<noteq> NULL"
    and "clients s a = Some cl" and "\<forall>p \<in> set (solutions_queue cl). live s p"
    and "size (held s) + length (solutions_queue cl) < 2 ^ 32"
  shows "\<exists>s' f. drain_client api s a = Some (Inr s')
    \<and> handed_over a (mset (solutions_queue cl)) f (set_client s a (cl\<lparr>solutions_queue := []\<rparr>)) s'"
proof (cases "solutions_queue cl = []")
  case True
  then have "set_client s a (cl\<lparr>solutions_queue := []\<rparr>) = s" using assms(4) by (cases s) auto
  moreover have "drain_client api s a = Some (Inr s)"
    using True assms(3,4) by (simp add: drain_client_def obind_def)
  ultimately show ?thesis using True handed_over_refl [OF assms(1)] by (metis mset_zero_iff)
next
  case False
  then have "lq_count (solutions_queue cl) \<noteq> 0" using assms(6) by (simp add: lq_count_zero)
  then have "drain_client api s a = drain_loop api s a"
    using assms(3,4) by (simp add: drain_client_def obind_def word_gt_0)
  then show ?thesis using drain_loop_ok [OF assms(1-4) refl assms(5,6)] by simp
qed

lemma clients_list_dropped:
  assumes "dropped i as s s'" and "a \<in> set as" and "compilers s a \<noteq> None"
  shows "store32 i \<notin> fst ` set (hash_entries (clients_list (the (compilers s' a))))"
  using assms by (fastforce simp: dropped_def)

lemma client_free_empty:
  assumes "a \<noteq> NULL" and "clients s a = Some cl" and "idle cl"
  shows "client_free s a = Inr (s\<lparr>clients := (clients s)(a := None), closed := closed s @ [cl_socket cl]\<rparr>)"
  using assms by (simp add: client_free_def idle_def solution_free_def)

lemma srv_ok_closed [simp]: "srv_ok (s\<lparr>closed := ss\<rparr>) = srv_ok s"
  by (simp add: srv_ok_def clients_ok_def fresh_ok_def)

lemma held_closed [simp]: "held (s\<lparr>closed := ss\<rparr>) = held s"
  by (simp add: held_def held_at_def [abs_def])

text \<open>The last three steps of \<^verbatim>\<open>remove_client\<close>, on a client that is in no table any more.\<close>

lemma release_detached:
  assumes ok: "srv_ok s" and a: "a \<notin> set (hash_elts (clients_map s))" "a \<noteq> NULL" "clients s a = Some cl"
    and lv: "\<forall>p \<in># held_by cl. live s p" and small: "size (held s + held_by cl) < 2 ^ 32"
  shows "\<exists>s' f. obind (Some (push_checking api s a)) (\<lambda>s2. obind (drain_client api s2 a) (\<lambda>s3. Some (client_free s3 a)))
        = Some (Inr s')
    \<and> srv_ok s' \<and> held_by cl + held s = held s' + mset f \<and> mset f \<subseteq># held_by cl
    \<and> queues_grow ((clients s)(a := None)) (clients s')
    \<and> sent (db s') = sent (db s) @ map (\<lambda>p. result_query (sln_id_at s p) 0 ''FL'') f
    \<and> clients s' a = None \<and> closed s' = closed s @ [cl_socket cl]
    \<and> s' = s\<lparr>clients := clients s', db := db s', closed := closed s'\<rparr>"
proof -
  define c1 where "c1 = cl\<lparr>checking_solution := None\<rparr>"
  define c2 where "c2 = c1\<lparr>solutions_queue := []\<rparr>"
  have split: "held_by cl = held_by (cl\<lparr>solutions_queue := []\<rparr>) + mset (solutions_queue cl)"
    by (simp add: held_by_def)
  from push_checking_ok [OF ok a lv, of api] small obtain s2 f where
    s2: "push_checking api s a = Inr s2"
      "handed_over a (held_by (cl\<lparr>solutions_queue := []\<rparr>)) f (set_client s a c1) s2"
    by (auto simp: c1_def)
  note fr = handed_over_frame [OF s2(2)]
  have "srv_ok s2" "clients s2 a = Some c1" using s2(2) by (simp_all add: handed_over_def)
  moreover have det: "a \<notin> set (hash_elts (clients_map s2))" using fr(1) a by simp
  moreover have "\<forall>p \<in> set (solutions_queue c1). live s2 p"
    using lv live_cong [of s2 s] fr(2) by (simp add: c1_def held_by_def)
  moreover have "size (held s2) + length (solutions_queue c1) < 2 ^ 32"
    using handed_over_size [OF s2(2)] small split a(1) by (simp add: held_detached c1_def)
  ultimately obtain s3 g where
    s3: "drain_client api s2 a = Some (Inr s3)"
      "handed_over a (mset (solutions_queue cl)) g (set_client s2 a c2) s3"
    using drain_client_ok [of s2 a c1 api] a(2) by (auto simp: c1_def c2_def)
  have "handed_over a (held_by (cl\<lparr>solutions_queue := []\<rparr>)) f (set_client s a c2) (set_client s2 a c2)"
    using handed_over_set_client [OF s2(2), of c2] a by simp
  from handed_over_trans [OF this s3(2)]
  have all: "handed_over a (held_by cl) (f @ g) (set_client s a c2) s3" using split by simp
  define s' where "s' = s3\<lparr>clients := (clients s3)(a := None), closed := closed s3 @ [cl_socket cl]\<rparr>"
  have c3: "clients s3 a = Some c2" using all by (simp add: handed_over_def)
  have "client_free s3 a = Inr s'"
    using client_free_empty [OF a(2) c3] by (simp add: c2_def c1_def idle_def s'_def)
  then have run: "obind (Some (push_checking api s a)) (\<lambda>s2. obind (drain_client api s2 a) (\<lambda>s3. Some (client_free s3 a)))
      = Some (Inr s')"
    using s2(1) s3(1) by (simp add: obind_def)
  have "a \<notin> set (hash_elts (clients_map s3))" using handed_over_frame(1) [OF all] a(1) by simp
  then have keep: "srv_ok s'" "held s' = held s3"
    using srv_ok_detached [of s3 a None] held_detached [of a s3 None] all c3
    by (simp_all add: handed_over_def s'_def)
  have "sln_id_at (set_client s a c2) = sln_id_at s"
    by (rule sln_id_at_cong) simp
  then have sums: "held_by cl + held s = held s' + mset (f @ g)"
    "sent (db s') = sent (db s) @ map (\<lambda>p. result_query (sln_id_at s p) 0 ''FL'') (f @ g)"
    using all keep(2) a(1) by (simp_all add: handed_over_def held_detached s'_def)
  have "s' = s\<lparr>clients := clients s', db := db s', closed := closed s'\<rparr>"
    using all by (cases s, cases s3) (simp add: handed_over_def s'_def)
  moreover have "clients s' a = None" "closed s' = closed s @ [cl_socket cl]" "mset (f @ g) \<subseteq># held_by cl"
    using handed_over_frame(3) [OF all] all by (simp_all add: s'_def handed_over_def)
  moreover have "queues_grow ((clients s)(a := None)) (clients s')"
    using queues_grow_upd [of "clients (set_client s a c2)" "clients s3" a None] all
    by (simp add: s'_def handed_over_def)
  ultimately show ?thesis using run keep(1) sums by blast
qed

text \<open>The whole operation.\<close>

lemma HASH_DELETE_room: "HASH_DELETE h a = Inr h' \<Longrightarrow> hash_room h \<Longrightarrow> hash_room h'"
  by (auto simp: HASH_DELETE_def hash_room_def Let_def length_remove1 split: option.splits if_splits)

lemma drop_client_ids_clients_map: "drop_client_ids s i h cs = Inr (s', h') \<Longrightarrow> clients_map s' = clients_map s"
  by (induction s i h cs rule: drop_client_ids.induct) (auto simp: res_simps split: if_splits)

lemma drop_from_compilers_clients_map:
  "drop_from_compilers s i as = Inr s' \<Longrightarrow> clients_map s' = clients_map s"
  by (induction s i as rule: drop_from_compilers.induct)
    (auto simp: res_simps dest: drop_client_ids_clients_map)

lemma unlink_client_room:
  "unlink_client s i a = Inr s1 \<Longrightarrow> hash_room (clients_map s) \<Longrightarrow> hash_room (clients_map s1)"
  by (auto simp: unlink_client_def res_simps) (metis HASH_DELETE_room drop_from_compilers_clients_map)

lemma remove_client_ok:
  assumes "srv_ok s" and "HASH_FIND (clients_map s) (store32 i) = Some a"
    and "\<forall>p \<in># held_at s a. live s p" and "size (held s) < 2 ^ 32"
  shows "\<exists>s' failed. remove_client api s i = Some (Inr s') \<and> srv_ok s'
    \<and> held s = held s' + mset failed \<and> mset failed \<subseteq># held_at s a
    \<and> queues_grow ((clients s)(a := None)) (clients s') \<and> sln_mem s' = sln_mem s
    \<and> sent (db s') = sent (db s) @ map (\<lambda>p. result_query (sln_id_at s p) 0 ''FL'') failed
    \<and> hash_entries (clients_map s') = filter (\<lambda>e. snd e \<noteq> a) (hash_entries (clients_map s))
    \<and> (hash_room (clients_map s) \<longrightarrow> hash_room (clients_map s'))
    \<and> last_client_id s' = last_client_id s - 1
    \<and> (\<forall>c \<in> set (hash_elts (compilers_map s')).
         store32 i \<notin> fst ` set (hash_entries (clients_list (the (compilers s' c)))))
    \<and> clients s' a = None
    \<and> closed s' = closed s @ [cl_socket (the (clients s a))]
    \<and> next_addr s' = next_addr s \<and> server_running s' = server_running s"
proof -
  from srv_ok_find_client [OF assms(1,2)] obtain cl where
    a: "a \<in> set (hash_elts (clients_map s))" "a \<noteq> NULL" "clients s a = Some cl" by metis
  from unlink_client_ok [OF assms(1,2)] obtain s1 h where
    un: "unlink_client s i a = Inr s1" "srv_ok s1"
      "hash_entries h = filter (\<lambda>e. snd e \<noteq> a) (hash_entries (clients_map s))"
      "dropped i (hash_elts (compilers_map s)) s (s1\<lparr>clients_map := clients_map s, last_client_id := last_client_id s\<rparr>)"
    and fr: "s1 = s\<lparr>compilers := compilers s1, client_ids := client_ids s1, clients_map := h,
             last_client_id := last_client_id s - 1\<rparr>" by blast
  have eq: "clients_map s1 = h" "clients s1 = clients s" "sln_mem s1 = sln_mem s" "db s1 = db s"
    "closed s1 = closed s" "compilers_map s1 = compilers_map s" "last_client_id s1 = last_client_id s - 1"
    "next_addr s1 = next_addr s" "server_running s1 = server_running s"
    by (subst fr, simp)+
  have h: "hash_elts h = filter (\<lambda>b. b \<noteq> a) (hash_elts (clients_map s))"
    by (simp add: hash_elts_entries un(3) filter_map comp_def)
  have sum: "held s = held s1 + held_by cl"
    using held_unlinked [OF assms(1) a(1) un(3) eq(1,2)] a(3) by (simp add: held_at_def)
  have lv: "\<forall>p \<in># held_by cl. live s1 p"
    using assms(3) a(3) live_cong [OF eq(3)] by (simp add: held_at_def)
  obtain s' f where s': "obind (Some (push_checking api s1 a))
        (\<lambda>s2. obind (drain_client api s2 a) (\<lambda>s3. Some (client_free s3 a))) = Some (Inr s')"
      "srv_ok s'" "held_by cl + held s1 = held s' + mset f" "mset f \<subseteq># held_by cl"
      "queues_grow ((clients s1)(a := None)) (clients s')"
      "sent (db s') = sent (db s1) @ map (\<lambda>p. result_query (sln_id_at s1 p) 0 ''FL'') f"
      "clients s' a = None" "closed s' = closed s1 @ [cl_socket cl]"
    and fr': "s' = s1\<lparr>clients := clients s', db := db s', closed := closed s'\<rparr>"
    using release_detached [OF un(2) _ a(2) _ lv, of api] eq h sum assms(4) a(3) by auto
  have eq': "compilers s' = compilers s1" "compilers_map s' = compilers_map s" "clients_map s' = h"
    "last_client_id s' = last_client_id s - 1" "sln_mem s' = sln_mem s"
    "next_addr s' = next_addr s" "server_running s' = server_running s"
    by (subst fr', simp add: eq)+
  have "hash_room (clients_map s) \<longrightarrow> hash_room h"
    using unlink_client_room [OF un(1)] eq(1) by simp
  moreover have "store32 i \<notin> fst ` set (hash_entries (clients_list (the (compilers s' c))))"
    if c: "c \<in> set (hash_elts (compilers_map s'))" for c
  proof -
    have "compilers s c \<noteq> None"
      using c assms(1) by (auto simp: eq' srv_ok_def compilers_ok_def hash_elts_entries)
    with clients_list_dropped [OF un(4)] c show ?thesis by (simp add: eq')
  qed
  moreover have "remove_client api s i = Some (Inr s')"
    using assms(2) un(1) s'(1) by (simp add: remove_client_def obind_def)
  moreover have "sln_id_at s1 = sln_id_at s" using eq(3) by (rule sln_id_at_cong)
  moreover have "queues_grow ((clients s)(a := None)) (clients s')" using s'(5) eq(2) by simp
  moreover have "held s = held s' + mset f" "mset f \<subseteq># held_at s a"
    using s'(3,4) sum a(3) by (simp_all add: held_at_def ac_simps)
  ultimately show ?thesis
    using s'(2,6-8) eq eq' un(3) a(3) by (intro exI [of _ s'] exI [of _ f]) simp
qed

end
