(* ===== verification/Registry.thy ===== *)
theory Registry
  imports Dispatch
begin

text \<open>
  Clients coming and going: the registration half of the handshake keeps the tables intact and makes
  the client reachable through every compiler it announced; together with the removal of clients this
  gives the properties of the registry of \<^verbatim>\<open>server.c\<close>.
\<close>

section \<open>Room in the tables\<close>

text \<open>Room for \<open>k\<close> more items, even if each of them doubled the bucket array.\<close>

definition hash_space :: "nat \<Rightarrow> hash_head \<Rightarrow> bool" where
  "hash_space k head \<longleftrightarrow> k \<le> 25 \<and> (case head of None \<Rightarrow> True
     | Some t \<Rightarrow> length (app t) + k < 2 ^ 32 \<and> unat (log2_num_buckets t) + k \<le> 30)"

lemma hash_space_room: "hash_space (Suc k) h \<Longrightarrow> hash_room h"
  by (auto simp: hash_space_def hash_room_def split: option.splits)

lemma hash_space_less: "hash_space k h \<Longrightarrow> j \<le> k \<Longrightarrow> hash_space j h"
  by (auto simp: hash_space_def split: option.splits)

lemma hash_space_None [simp]: "hash_space k None \<longleftrightarrow> k \<le> 25"
  by (simp add: hash_space_def)

lemma unat_Suc_log2: "unat (l :: u32) < 30 \<Longrightarrow> unat (l + 1) = Suc (unat l)"
  by (simp add: unat_word_ariths)

lemma HASH_ADD_TO_BKT_log2:
  "app (HASH_ADD_TO_BKT t b h) = app t"
  "log2_num_buckets (HASH_ADD_TO_BKT t b h) \<in> {log2_num_buckets t, log2_num_buckets t + 1}"
  by (simp_all add: HASH_ADD_TO_BKT_def Let_def HASH_EXPAND_BUCKETS_simps)

lemma hash_space_add:
  assumes "hash_space (Suc k) h"
  shows "hash_space k (HASH_ADD h key a)"
proof -
  define t0 where "t0 = (case h of None \<Rightarrow> HASH_MAKE_TABLE | Some t \<Rightarrow> t)"
  define hh where "hh = \<lparr>hh_elt = a, hh_key = key, hh_hashv = HASH_JEN key\<rparr>"
  define t where "t = t0\<lparr>app := app t0 @ [hh], num_items := num_items t0 + 1\<rparr>"
  have t0: "length (app t0) + Suc k < 2 ^ 32" "unat (log2_num_buckets t0) + Suc k \<le> 30" "k \<le> 25"
    using assms by (auto simp: hash_space_def t0_def HASH_MAKE_TABLE_def split: option.splits)
  let ?t' = "HASH_ADD_TO_BKT t (HASH_TO_BKT (hh_hashv hh) (num_buckets t)) hh"
  have add: "HASH_ADD h key a = Some ?t'"
    by (simp add: HASH_ADD_def Let_def t_def t0_def hh_def)
  have "log2_num_buckets ?t' = log2_num_buckets t0 \<or> log2_num_buckets ?t' = log2_num_buckets t0 + 1"
    using HASH_ADD_TO_BKT_log2(2) [of t "HASH_TO_BKT (hh_hashv hh) (num_buckets t)" hh] by (simp add: t_def)
  moreover have "unat (log2_num_buckets t0 + 1) = Suc (unat (log2_num_buckets t0))"
    using t0(2) by (intro unat_Suc_log2) simp
  ultimately show ?thesis
    using t0 by (auto simp: add hash_space_def HASH_ADD_TO_BKT_log2(1) t_def)
qed

definition cspace :: "nat \<Rightarrow> nat \<Rightarrow> 'c server \<Rightarrow> bool" where
  "cspace k j s \<longleftrightarrow> hash_space k (compilers_map s)
     \<and> j \<le> 25 \<and> (\<forall>a cm. compilers s a = Some cm \<longrightarrow> hash_space j (clients_list cm))"

section \<open>Adding a client\<close>

lemma fresh_not_listed:
  assumes "srv_ok s"
  shows "next_addr s \<notin> snd ` set (hash_entries (clients_map s))"
    "next_addr s \<notin> snd ` set (hash_entries (compilers_map s))"
    "compilers s c = Some cm \<Longrightarrow> next_addr s \<notin> snd ` set (hash_entries (clients_list cm))"
proof -
  have fr: "clients s (next_addr s) = None" "compilers s (next_addr s) = None" "client_ids s (next_addr s) = None"
    using assms by (simp_all add: srv_ok_def fresh_ok_def)
  show "next_addr s \<notin> snd ` set (hash_entries (clients_map s))"
    using assms fr(1) by (fastforce simp: srv_ok_def clients_ok_def)
  show "next_addr s \<notin> snd ` set (hash_entries (compilers_map s))"
    using assms fr(2) by (fastforce simp: srv_ok_def compilers_ok_def)
  show "next_addr s \<notin> snd ` set (hash_entries (clients_list cm))" if "compilers s c = Some cm"
    using assms fr(3) that by (fastforce simp: srv_ok_def compilers_ok_def lists_ok_def ids_ok_def)
qed

lemma add_client_ok:
  assumes ok: "srv_ok s" and room: "hash_room (clients_map s)"
  shows "srv_ok (add_client s ep pkt)"
    "hash_entries (clients_map (add_client s ep pkt))
       = hash_entries (clients_map s) @ [(store32 (last_client_id s), next_addr s)]"
proof -
  have ok': "hash_ok (clients_map s)" using ok by (simp add: srv_ok_def clients_ok_def)
  note new = ok' room fresh_not_listed(1) [OF ok]
  show ent: "hash_entries (clients_map (add_client s ep pkt))
      = hash_entries (clients_map s) @ [(store32 (last_client_id s), next_addr s)]"
    using ut.add_entries [OF new] by (simp add: add_client_def Let_def)
  have "hash_ok (clients_map (add_client s ep pkt))"
    using ut.add_invar [OF new] by (simp add: add_client_def Let_def)
  moreover have "0 < next_addr s" using ok by (simp add: srv_ok_def fresh_ok_def)
  moreover have other: "snd e \<noteq> next_addr s" if "e \<in> set (hash_entries (clients_map s))" for e
    using fresh_not_listed(1) [OF ok] that by (metis image_eqI)
  ultimately have "clients_ok (add_client s ep pkt)"
    using ok unfolding clients_ok_def ent
    by (auto simp: srv_ok_def clients_ok_def add_client_def client_create_def Let_def dest: other)
  moreover have "fresh_ok (add_client s ep pkt)" "compilers_ok (add_client s ep pkt)"
    using ok by (auto simp: srv_ok_def fresh_ok_def compilers_ok_def lists_ok_def add_client_def Let_def)
  ultimately show "srv_ok (add_client s ep pkt)" by (simp add: srv_ok_def)
qed

section \<open>Adding it to the compilers\<close>

text \<open>Registration changes only the compilers, their lists and the allocator.\<close>

definition reg_frame :: "'c server \<Rightarrow> 'c server \<Rightarrow> bool" where
  "reg_frame s s' \<longleftrightarrow> s' = s\<lparr>compilers := compilers s', compilers_map := compilers_map s',
     client_ids := client_ids s', next_addr := next_addr s'\<rparr>"

lemma reg_frame_trans: "reg_frame s s1 \<Longrightarrow> reg_frame s1 s2 \<Longrightarrow> reg_frame s s2"
  by (cases s, cases s1, cases s2) (simp add: reg_frame_def)

lemma reg_frame_eq:
  assumes "reg_frame s s'"
  shows "clients s' = clients s" "clients_map s' = clients_map s" "last_client_id s' = last_client_id s"
    "sln_mem s' = sln_mem s" "db s' = db s" "closed s' = closed s" "server_running s' = server_running s"
  by (subst assms [unfolded reg_frame_def], simp)+

text \<open>\<open>listed i k s\<close>: a compiler of the table with the key \<open>k\<close> has the client \<open>i\<close> in its list.\<close>

definition listed :: "u32 \<Rightarrow> u8 list \<Rightarrow> 'c server \<Rightarrow> bool" where
  "listed i k s \<longleftrightarrow> (\<exists>c cm. (k, c) \<in> set (hash_entries (compilers_map s)) \<and> compilers s c = Some cm
     \<and> store32 i \<in> fst ` set (hash_entries (clients_list cm)))"

lemma listed_mono:
  assumes "listed i key s"
    and "\<And>e. e \<in> set (hash_entries (compilers_map s)) \<Longrightarrow> e \<in> set (hash_entries (compilers_map s'))"
    and "\<And>c cm. compilers s c = Some cm \<Longrightarrow> \<exists>cm'. compilers s' c = Some cm'
      \<and> fst ` set (hash_entries (clients_list cm)) \<subseteq> fst ` set (hash_entries (clients_list cm'))"
  shows "listed i key s'"
  using assms unfolding listed_def by blast

lemma find_or_add_compiler_ok:
  assumes ok: "srv_ok s" and sp: "cspace (Suc k) j s"
    and r: "find_or_add_compiler s stack heap cid = (c, s1)"
  shows "srv_ok s1" "cspace k j s1" "reg_frame s s1" "c \<noteq> NULL \<and> compilers s1 c \<noteq> None"
    "listed i key s \<Longrightarrow> listed i key s1"
    "stack = heap \<Longrightarrow> (store16 cid @ store16 heap, c) \<in> set (hash_entries (compilers_map s1))"
    "stack = heap \<Longrightarrow> distinct (map fst (hash_entries (compilers_map s))) \<Longrightarrow>
       distinct (map fst (hash_entries (compilers_map s1)))"
proof -
  have hok: "hash_ok (compilers_map s)" using ok by (simp add: srv_ok_def compilers_ok_def)
  have room: "hash_room (compilers_map s)" using sp by (auto simp: cspace_def intro: hash_space_room)
  have sp': "cspace k j s" using sp by (auto simp: cspace_def intro: hash_space_less)
  have "srv_ok s1 \<and> cspace k j s1 \<and> reg_frame s s1 \<and> c \<noteq> NULL \<and> compilers s1 c \<noteq> None
    \<and> (listed i key s \<longrightarrow> listed i key s1)
    \<and> (stack = heap \<longrightarrow> (store16 cid @ store16 heap, c) \<in> set (hash_entries (compilers_map s1)))
    \<and> (stack = heap \<longrightarrow> distinct (map fst (hash_entries (compilers_map s))) \<longrightarrow>
       distinct (map fst (hash_entries (compilers_map s1))))"
  proof (cases "HASH_FIND (compilers_map s) (store16 cid @ store16 stack)")
    case (Some d)
    with r have "c = d" "s1 = s" by (simp_all add: find_or_add_compiler_def)
    moreover have "(store16 cid @ store16 stack, d) \<in> set (hash_entries (compilers_map s))"
      using ut.find_Some [OF hok Some] .
    moreover then obtain cm where "d \<noteq> NULL" "compilers s d = Some cm"
      using ok by (fastforce simp: srv_ok_def compilers_ok_def)
    ultimately show ?thesis using ok sp' by (auto simp: reg_frame_def)
  next
    case None
    let ?k = "store16 cid @ store16 heap"
    have c: "c = next_addr s"
      and s1: "s1 = s\<lparr>compilers := (compilers s)(c \<mapsto> compiler_create cid heap), next_addr := Suc c,
            compilers_map := HASH_ADD (compilers_map s) ?k c\<rparr>"
      using r None by (auto simp: find_or_add_compiler_def)
    have fr: "compilers s c = None" "0 < c" using ok by (simp_all add: srv_ok_def fresh_ok_def c)
    have new: "c \<notin> snd ` set (hash_entries (compilers_map s))" using fresh_not_listed(2) [OF ok] by (simp add: c)
    have ent: "hash_entries (compilers_map s1) = hash_entries (compilers_map s) @ [(?k, c)]"
      using ut.add_entries [OF hok room new] by (simp add: s1)
    have other: "snd e \<noteq> c" if "e \<in> set (hash_entries (compilers_map s))" for e
      using new that by (metis image_eqI)
    have "lists_ok s1"
      using ok by (auto simp: srv_ok_def compilers_ok_def lists_ok_def s1 compiler_create_def ids_ok_def
          hash_ok_def hash_entries_def hash_elts_def)
    moreover have "hash_ok (compilers_map s1)" using ut.add_invar [OF hok room new] by (simp add: s1)
    ultimately have "compilers_ok s1"
      using ok fr(2) unfolding compilers_ok_def ent
      by (auto simp: srv_ok_def compilers_ok_def s1 key_of_compiler_def compiler_create_def dest: other)
    moreover have "clients_ok s1" "fresh_ok s1"
      using ok by (auto simp: srv_ok_def clients_ok_def fresh_ok_def s1 c)
    moreover have "cspace k j s1"
      using sp hash_space_add by (auto simp: cspace_def s1 compiler_create_def)
    moreover have "listed i key s \<Longrightarrow> listed i key s1"
      unfolding listed_def ent using fr(1) by (fastforce simp: s1)
    moreover have "?k \<notin> fst ` set (hash_entries (compilers_map s))" if "stack = heap"
      using ut.find_None [OF hok] None that by simp
    ultimately show ?thesis using ent fr(2) by (auto simp: srv_ok_def reg_frame_def s1)
  qed
  then show "srv_ok s1" "cspace k j s1" "reg_frame s s1" "c \<noteq> NULL \<and> compilers s1 c \<noteq> None"
    "listed i key s \<Longrightarrow> listed i key s1"
    "stack = heap \<Longrightarrow> (store16 cid @ store16 heap, c) \<in> set (hash_entries (compilers_map s1))"
    "stack = heap \<Longrightarrow> distinct (map fst (hash_entries (compilers_map s))) \<Longrightarrow>
       distinct (map fst (hash_entries (compilers_map s1)))" by blast+
qed

lemma add_client_id_ok:
  assumes ok: "srv_ok s" and sp: "cspace k (Suc j) s" and c: "c \<noteq> NULL" "compilers s c = Some cm"
  shows "\<exists>s'. add_client_id s i c = Inr s' \<and> srv_ok s' \<and> cspace k j s' \<and> reg_frame s s'
    \<and> compilers_map s' = compilers_map s \<and> (\<forall>n key. listed n key s \<longrightarrow> listed n key s')
    \<and> (\<forall>key. (key, c) \<in> set (hash_entries (compilers_map s)) \<longrightarrow> listed i key s')"
proof -
  define x where "x = next_addr s"
  define h where "h = HASH_ADD (clients_list cm) (store32 i) x"
  define s' where "s' = s\<lparr>client_ids := (client_ids s)(x \<mapsto> i), next_addr := Suc x,
      compilers := (compilers s)(c \<mapsto> cm\<lparr>clients_list := h\<rparr>)\<rparr>"
  have fr: "client_ids s x = None" "0 < x" using ok by (simp_all add: srv_ok_def fresh_ok_def x_def)
  have l: "ids_ok (client_ids s) (clients_list cm)"
    using ok c by (auto simp: srv_ok_def compilers_ok_def lists_ok_def)
  have new: "x \<notin> snd ` set (hash_entries (clients_list cm))" using fresh_not_listed(3) [OF ok c(2)] by (simp add: x_def)
  have room: "hash_room (clients_list cm)" using sp c by (auto simp: cspace_def intro: hash_space_room)
  have hok: "hash_ok (clients_list cm)" using l by (simp add: ids_ok_def)
  have ent: "hash_entries h = hash_entries (clients_list cm) @ [(store32 i, x)]"
    using ut.add_entries [OF hok room new] by (simp add: h_def)
  have "hash_ok h" using ut.add_invar [OF hok room new] by (simp add: h_def)
  then have hids: "ids_ok ((client_ids s)(x \<mapsto> i)) h"
    using l fr by (fastforce simp: ids_ok_def ent)
  have old: "x \<notin> set (hash_elts (clients_list cm'))" if "compilers s b = Some cm'" for b cm'
    using fresh_not_listed(3) [OF ok that] by (simp add: x_def hash_elts_entries)
  have lok: "lists_ok s" using ok by (simp add: srv_ok_def compilers_ok_def)
  have "set (hash_elts h) = insert x (set (hash_elts (clients_list cm)))"
    by (simp add: hash_elts_entries ent)
  then have "lists_ok s'"
    using lists_ok_disjoint [OF lok c(2)] old
    by (intro lists_ok_upd [OF lok hids, where a = c and cm = cm]) (auto simp: s'_def)
  then have "compilers_ok s'"
    using ok c(2) by (fastforce simp: srv_ok_def compilers_ok_def s'_def key_of_compiler_def)
  moreover have "clients_ok s'" "fresh_ok s'"
    using ok c by (auto simp: srv_ok_def clients_ok_def fresh_ok_def s'_def x_def)
  moreover have "cspace k j s'"
    using sp hash_space_add c hash_space_less [of "Suc j"] by (auto simp: cspace_def s'_def h_def)
  moreover have "listed n key s \<Longrightarrow> listed n key s'" for n key
    by (erule listed_mono) (use c(2) in \<open>auto simp: s'_def ent\<close>)
  moreover have "add_client_id s i c = Inr s'"
    using c by (simp add: add_client_id_def s'_def x_def h_def)
  ultimately show ?thesis
    using ent by (intro exI [of _ s']) (auto simp: srv_ok_def reg_frame_def listed_def s'_def)
qed

definition same_junk :: "(u16 \<times> u16 \<times> u16) list \<Rightarrow> bool" where
  "same_junk ids = list_all (\<lambda>(cid, stack, heap). stack = heap) ids"

definition all_listed :: "u32 \<Rightarrow> (u16 \<times> u16 \<times> u16) list \<Rightarrow> 'c server \<Rightarrow> bool" where
  "all_listed i ids s = list_all (\<lambda>(cid, stack, heap). listed i (store16 cid @ store16 heap) s) ids"

text \<open>With the bytes after the 16-bit id the same on the stack and in the new structure, every announced
  compiler ends up in the table once, with the client in its list.\<close>

lemma add_compilers_ok:
  assumes "srv_ok s" and "cspace (length ids) (length ids) s"
  shows "\<exists>s'. add_compilers s i ids = Inr s' \<and> srv_ok s' \<and> reg_frame s s'
    \<and> (\<forall>n key. listed n key s \<longrightarrow> listed n key s')
    \<and> (same_junk ids \<longrightarrow>
        all_listed i ids s'
        \<and> (distinct (map fst (hash_entries (compilers_map s))) \<longrightarrow>
            distinct (map fst (hash_entries (compilers_map s')))))"
  using assms
proof (induction ids arbitrary: s)
  case Nil
  then show ?case by (auto simp: reg_frame_def all_listed_def)
next
  case (Cons e ids)
  obtain cid st hp where e: "e = (cid, st, hp)" by (cases e)
  obtain c s1 where s1: "find_or_add_compiler s st hp cid = (c, s1)" by (cases "find_or_add_compiler s st hp cid")
  let ?n = "length ids"
  have sp: "cspace (Suc ?n) (Suc ?n) s" using Cons.prems(2) by simp
  note fac = find_or_add_compiler_ok [OF Cons.prems(1) sp s1]
  obtain cm where cm: "c \<noteq> NULL" "compilers s1 c = Some cm" using fac(4) by blast
  from add_client_id_ok [OF fac(1,2) cm, of i] obtain s2 where
    s2: "add_client_id s1 i c = Inr s2" "srv_ok s2" "cspace ?n ?n s2" "reg_frame s1 s2"
      "compilers_map s2 = compilers_map s1" "\<forall>n key. listed n key s1 \<longrightarrow> listed n key s2"
      "\<forall>key. (key, c) \<in> set (hash_entries (compilers_map s1)) \<longrightarrow> listed i key s2" by blast
  from Cons.IH [OF s2(2,3)] obtain s' where
    s': "add_compilers s2 i ids = Inr s'" "srv_ok s'" "reg_frame s2 s'"
      "\<forall>n key. listed n key s2 \<longrightarrow> listed n key s'"
      "same_junk ids \<longrightarrow>
        all_listed i ids s'
        \<and> (distinct (map fst (hash_entries (compilers_map s2))) \<longrightarrow>
            distinct (map fst (hash_entries (compilers_map s'))))" by blast
  have "add_compilers s i (e # ids) = Inr s'" using s1 s2(1) s'(1) by (simp add: e)
  moreover have "reg_frame s s'" using reg_frame_trans fac(3) s2(4) s'(3) by blast
  moreover have "\<forall>n key. listed n key s \<longrightarrow> listed n key s'" using fac(5) s2(6) s'(4) by blast
  moreover have "listed i (store16 cid @ store16 hp) s'" if "st = hp"
    using fac(6) [OF that] s2(7) s'(4) by blast
  moreover have "distinct (map fst (hash_entries (compilers_map s2)))"
    if "st = hp" "distinct (map fst (hash_entries (compilers_map s)))"
    using fac(7) [OF that] s2(5) by simp
  ultimately show ?case using s'(2,5) by (intro exI [of _ s']) (auto simp: e same_junk_def all_listed_def)
qed

lemma register_ok:
  assumes ok: "srv_ok s" and "hash_room (clients_map s)" and "cspace (length ids) (length ids) s"
  shows "\<exists>s'. register s ep pkt ids = Inr s' \<and> srv_ok s' \<and> reg_frame (add_client s ep pkt) s'
    \<and> (\<forall>n key. listed n key s \<longrightarrow> listed n key s')
    \<and> (same_junk ids \<longrightarrow>
        all_listed (last_client_id s) ids s'
        \<and> (distinct (map fst (hash_entries (compilers_map s))) \<longrightarrow>
            distinct (map fst (hash_entries (compilers_map s')))))"
proof -
  let ?s = "add_client s ep pkt"
  have eq: "compilers ?s = compilers s" "compilers_map ?s = compilers_map s"
    by (simp_all add: add_client_def Let_def)
  then have "cspace (length ids) (length ids) ?s" using assms(3) by (simp add: cspace_def)
  from add_compilers_ok [OF add_client_ok(1) [OF assms(1,2)] this, of "last_client_id s"]
  show ?thesis using eq by (auto simp: register_def listed_def)
qed

lemma held_register:
  assumes "srv_ok s" and "hash_room (clients_map s)" and "reg_frame (add_client s ep pkt) s'"
  shows "held s' = held s"
proof -
  note fr = reg_frame_eq [OF assms(3)]
  have c: "clients s' = (clients s)(next_addr s \<mapsto> (client_create ep (last_client_id s))\<lparr>recv_pkt := Some pkt\<rparr>)"
    using fr(1) by (simp add: add_client_def Let_def)
  have "hash_elts (clients_map s') = hash_elts (clients_map s) @ [next_addr s]"
    using fr(2) add_client_ok(2) [OF assms(1,2), of ep pkt] by (simp add: hash_elts_entries)
  moreover have "map (held_at s') (hash_elts (clients_map s)) = map (held_at s) (hash_elts (clients_map s))"
    using fresh_not_listed(1) [OF assms(1)] by (intro map_cong) (auto simp: held_at_def c hash_elts_entries image_iff)
  moreover have "held_at s' (next_addr s) = {#}" by (simp add: held_at_def c client_create_def held_by_def)
  ultimately show ?thesis by (simp add: held_def cong: map_cong)
qed

section \<open>A registered client is found\<close>

lemma u16_bit_beyond [simp]: "16 \<le> m \<Longrightarrow> \<not> bit (a :: u16) (m + n)"
  by (auto dest: bit_imp_le_length)

lemma store16_zero: "store16 cid @ store16 0 = store32 (ucast cid)"
  unfolding store16_def store32_def
  by (auto intro!: bit_word_eqI simp: bit_simps)

lemma listed_push:
  assumes ok: "srv_ok s" and d: "distinct (map fst (hash_entries (compilers_map s)))"
    and l: "listed i (store32 (sln_compiler_id v)) s" and i: "store32 i \<in> fst ` set (hash_entries (clients_map s))"
    and small: "size (held s) < 2 ^ 32" and v: "load_sln s p = Inr v"
  shows "\<exists>a \<in> set (hash_elts (clients_map s)). push_solution api s p = Inr (0, append_sln s a p)"
proof -
  from l obtain c cm where c: "(store32 (sln_compiler_id v), c) \<in> set (hash_entries (compilers_map s))"
    "compilers s c = Some cm" "store32 i \<in> fst ` set (hash_entries (clients_list cm))"
    by (auto simp: listed_def)
  have find: "HASH_FIND (compilers_map s) (store32 (sln_compiler_id v)) = Some c"
    using ut.find_map_of [OF _ d] ok c(1) d by (simp add: srv_ok_def compilers_ok_def)
  obtain x where x: "(store32 i, x) \<in> set (hash_entries (clients_list cm))" using c(3) by auto
  then have "client_ids s x = Some i"
    using lists_ok_ids [of s c cm] ok c(2) by (fastforce simp: srv_ok_def compilers_ok_def ids_ok_def)
  moreover obtain a where "HASH_FIND (clients_map s) (store32 i) = Some a"
    using ut.find_iff [of "clients_map s" "store32 i"] ok i by (auto simp: srv_ok_def clients_ok_def)
  moreover have "x \<in> set (hash_elts (clients_list cm))" using x by (force simp: hash_elts_entries)
  ultimately have "cands s (hash_elts (clients_list cm)) \<noteq> []" by (auto simp: cands_def intro!: bexI [of _ x])
  then have "push_solution api s p = Inr (0, append_sln s (pick s (cands s (hash_elts (clients_list cm)))) p)"
    "pick s (cands s (hash_elts (clients_list cm))) \<in> set (hash_elts (clients_map s))"
    using push_solution_spec [OF ok small v, of api] find c(2) cands_in_map [OF ok] pick_in by auto
  then show ?thesis by blast
qed

section \<open>A concrete server\<close>

text \<open>One client that announced compiler 1, and an array of two solutions in memory.\<close>

definition demo_socket :: socket where
  "demo_socket = \<lparr>sk_in = [], sk_rx = (\<lambda>_. Avail 0), rx_pos = 0, sk_out = [], sk_tx = (\<lambda>_. Room 1000),
     tx_pos = 0, sk_errno = EAGAIN\<rparr>"

definition demo_sln :: solution_t where
  "demo_sln = \<lparr>sln_id = 7, sln_user_id = 1, sln_task_id = 2, sln_source = [65, 0], sln_source_len = 2,
     sln_compiler_id = 1, sln_checking = 0, sln_accepted = False, sln_response = [], sln_response_len = 0\<rparr>"

definition demo_start :: "unit server" where
  "demo_start = (server_init \<lparr>conn = (), sent = []\<rparr>)\<lparr>sln_mem := [1 \<mapsto> [demo_sln, demo_sln]], next_addr := 2\<rparr>"

definition demo_one :: "unit server" where
  "demo_one = projr (register demo_start demo_socket [] [(1, 0, 0)])"

lemma demo_start_ok: "srv_ok demo_start"
  by (simp add: demo_start_def server_init_def srv_ok_def clients_ok_def compilers_ok_def lists_ok_def
      fresh_ok_def hash_ok_def hash_entries_def)

lemma demo_one_ok:
  "srv_ok demo_one" "hash_entries (clients_map demo_one) = [(store32 1, 2)]"
  "last_client_id demo_one = 2" "sln_mem demo_one = [1 \<mapsto> [demo_sln, demo_sln]]"
  "clients demo_one = [2 \<mapsto> (client_create demo_socket 1)\<lparr>recv_pkt := Some []\<rparr>]"
  "listed 1 (store32 1) demo_one" "distinct (map fst (hash_entries (compilers_map demo_one)))"
  "held demo_one = {#}" "hash_room (clients_map demo_one)"
  and demo_one_running: "server_running demo_one"
  and demo_one_clients_map: "clients_map demo_one = HASH_ADD None (store32 1) 2"
proof -
  have room: "hash_room (clients_map demo_start)" "cspace 1 1 demo_start"
    by (simp_all add: demo_start_def server_init_def hash_room_def cspace_def)
  obtain s' where s': "register demo_start demo_socket [] [(1, 0, 0)] = Inr s'" "srv_ok s'"
      "reg_frame (add_client demo_start demo_socket []) s'"
      "all_listed (last_client_id demo_start) [(1, 0, 0)] s'"
      "distinct (map fst (hash_entries (compilers_map s')))"
    using register_ok [OF demo_start_ok room(1), of "[(1, 0, 0)]" demo_socket "[]"] room(2)
    by (auto simp: same_junk_def demo_start_def server_init_def hash_entries_def)
  have eq: "demo_one = s'" by (simp add: demo_one_def s'(1))
  note fr = reg_frame_eq [OF s'(3)]
  show "srv_ok demo_one" "distinct (map fst (hash_entries (compilers_map demo_one)))" using s' eq by simp_all
  show "hash_entries (clients_map demo_one) = [(store32 1, 2)]"
    using fr(2) add_client_ok(2) [OF demo_start_ok room(1)]
    by (simp add: eq) (simp add: demo_start_def server_init_def hash_entries_def)
  show "last_client_id demo_one = 2" "sln_mem demo_one = [1 \<mapsto> [demo_sln, demo_sln]]"
    "clients demo_one = [2 \<mapsto> (client_create demo_socket 1)\<lparr>recv_pkt := Some []\<rparr>]"
    using fr(1,3,4) by (simp_all add: eq add_client_def Let_def demo_start_def server_init_def)
  show "listed 1 (store32 1) demo_one"
    using s'(4) store16_zero [of 1] by (simp add: all_listed_def eq demo_start_def server_init_def)
  show "held demo_one = {#}"
    using held_register [OF demo_start_ok room(1) s'(3)]
    by (simp add: eq held_def demo_start_def server_init_def hash_elts_def)
  show "server_running demo_one"
    using fr(7) by (simp add: eq add_client_def Let_def demo_start_def server_init_def)
  show "clients_map demo_one = HASH_ADD None (store32 1) 2"
    using fr(2) by (simp add: eq add_client_def Let_def demo_start_def server_init_def)
  then show "hash_room (clients_map demo_one)"
    using hash_space_room hash_space_add [of 1 None "store32 1" 2] by simp
qed

lemma demo_load: "load_sln demo_one (1, 0) = Inr demo_sln" "load_sln demo_one (1, 1) = Inr demo_sln"
  by (simp_all add: load_sln_def demo_one_ok(4))

lemma demo_find: "HASH_FIND (clients_map demo_one) (store32 1) = Some 2"
  using ut.find_map_of [of "clients_map demo_one"] demo_one_ok(1,2) by (simp add: srv_ok_def clients_ok_def)

section \<open>Properties\<close>

text \<open>
  C4: \<^verbatim>\<open>push_solution\<close> on intact tables.  With no compiler of that id, or with no connected client for
  it, the verdict FL is sent to the database, the error code is returned and no queue changes.
  Otherwise exactly one queue grows by the solution: that of the first client of the compiler's list
  that neither checks nor has queued anything, and if all are busy that of the last client of the
  list, however many solutions the others have waiting.
\<close>

theorem push_solution_picks:
  assumes "srv_ok s" and "size (held s) < 2 ^ 32" and "load_sln s p = Inr v"
  shows "push_solution api s p = Inr
    (case HASH_FIND (compilers_map s) (store32 (sln_compiler_id v)) of
       None \<Rightarrow> (ERR_NOCOMPILER, post_failed api s (sln_id v))
     | Some c \<Rightarrow>
         (let as = cands s (hash_elts (clients_list (the (compilers s c))))
          in if as = [] then (ERR_NOCLIENTS, post_failed api s (sln_id v))
             else (0, append_sln s (case find (client_idle s) as of Some a \<Rightarrow> a | None \<Rightarrow> last as) p)))"
  unfolding Let_def pick_def [symmetric] using assms by (rule push_solution_spec)

theorem push_solution_picks_witness:
  "push_solution demo_api demo_one (1, 0) = Inr (0, append_sln demo_one 2 (1, 0))"
proof -
  obtain a where a: "a \<in> set (hash_elts (clients_map demo_one))"
    "push_solution demo_api demo_one (1, 0) = Inr (0, append_sln demo_one a (1, 0))"
    using listed_push [OF demo_one_ok(1,7) _ _ _ demo_load(1), of 1 demo_api] demo_one_ok(2,6,8)
    by (auto simp: demo_sln_def)
  then have "a = 2" using demo_one_ok(2) by (simp add: hash_elts_entries)
  with a push_solution_picks [OF demo_one_ok(1) _ demo_load(1), of demo_api] demo_one_ok(8) show ?thesis by simp
qed

text \<open>
  C3: \<^verbatim>\<open>remove_client\<close> of a connected client ends, and loses no solution: each one the client was
  checking or had queued is afterwards held by another connected client, or its verdict FL is sent
  to the database; the other clients keep what they have, in order, and their queues only grow.  The id is in no
  compiler's list any more, the structure of the client is released, its socket is closed once, and
  the tables are intact.
\<close>

theorem remove_client_conserves:
  assumes "srv_ok s" and "HASH_FIND (clients_map s) (store32 i) = Some a"
    and "\<forall>p \<in># held_at s a. live s p" and "size (held s) < 2 ^ 32"
  shows "\<exists>s' failed. remove_client api s i = Some (Inr s') \<and> srv_ok s'
    \<and> held s = held s' + mset failed \<and> mset failed \<subseteq># held_at s a
    \<and> queues_grow ((clients s)(a := None)) (clients s')
    \<and> sent (db s') = sent (db s) @ map (\<lambda>p. result_query (sln_id_at s p) 0 ''FL'') failed
    \<and> hash_entries (clients_map s') = filter (\<lambda>e. snd e \<noteq> a) (hash_entries (clients_map s))
    \<and> (\<forall>c \<in> set (hash_elts (compilers_map s')).
         store32 i \<notin> fst ` set (hash_entries (clients_list (the (compilers s' c)))))
    \<and> clients s' a = None
    \<and> closed s' = closed s @ [cl_socket (the (clients s a))]"
  using remove_client_ok [OF assms, of api] by blast

theorem remove_client_conserves_witness:
  "\<exists>s' failed. remove_client demo_api (append_sln demo_one 2 (1, 0)) 1 = Some (Inr s') \<and> srv_ok s'
    \<and> {#(1, 0)#} = held s' + mset failed"
proof -
  let ?s = "append_sln demo_one 2 (1, 0)"
  have ok: "srv_ok ?s" using demo_one_ok(1) by (rule srv_ok_append_sln)
  have h: "held ?s = {#(1, 0)#}"
    using held_append_sln [OF demo_one_ok(1), of 2] demo_one_ok(2,8) by (simp add: hash_elts_entries)
  have "held_at ?s 2 = {#(1, 0)#}"
    by (simp add: held_at_def append_sln_def demo_one_ok(5) held_by_def client_create_def)
  moreover have "live ?s (1, 0)" by (simp add: live_def load_sln_def demo_one_ok(4))
  ultimately have "\<forall>p \<in># held_at ?s 2. live ?s p" by simp
  from remove_client_conserves [OF ok _ this, of 1 demo_api] h demo_find show ?thesis by auto
qed

text \<open>
  C5: registration.  When the two bytes after the 16-bit compiler id are zero wherever they are read
  (on the stack and in new memory), registering a client succeeds, keeps the tables intact and the
  solutions where they are, gives the client the next id, and from then on every live solution for a
  compiler the client announced goes to some connected client.
\<close>

theorem register_serves:
  assumes "srv_ok s" and "hash_room (clients_map s)" and "cspace (length ids) (length ids) s"
    and "distinct (map fst (hash_entries (compilers_map s)))" and "list_all (\<lambda>(cid, stack, heap). stack = 0 \<and> heap = 0) ids"
    and "size (held s) < 2 ^ 32"
  shows "\<exists>s'. register s ep pkt ids = Inr s' \<and> srv_ok s' \<and> held s' = held s
    \<and> last_client_id s' = last_client_id s + 1
    \<and> hash_entries (clients_map s') = hash_entries (clients_map s) @ [(store32 (last_client_id s), next_addr s)]
    \<and> (\<forall>p v. load_sln s' p = Inr v \<longrightarrow> sln_compiler_id v \<in> (\<lambda>(cid, _). ucast cid) ` set ids \<longrightarrow>
         (\<exists>a \<in> set (hash_elts (clients_map s')). push_solution api s' p = Inr (0, append_sln s' a p)))"
proof -
  have "same_junk ids" using assms(5) by (auto simp: same_junk_def list_all_iff)
  with register_ok [OF assms(1-3), of ep pkt] assms(4) obtain s' where
    s': "register s ep pkt ids = Inr s'" "srv_ok s'" "reg_frame (add_client s ep pkt) s'"
      "all_listed (last_client_id s) ids s'" "distinct (map fst (hash_entries (compilers_map s')))" by blast
  note fr = reg_frame_eq [OF s'(3)]
  have h: "held s' = held s" using held_register [OF assms(1,2) s'(3)] .
  have ent: "hash_entries (clients_map s') = hash_entries (clients_map s) @ [(store32 (last_client_id s), next_addr s)]"
    using fr(2) add_client_ok(2) [OF assms(1,2)] by simp
  have "\<exists>a \<in> set (hash_elts (clients_map s')). push_solution api s' p = Inr (0, append_sln s' a p)"
    if v: "load_sln s' p = Inr v" and c: "sln_compiler_id v \<in> (\<lambda>(cid, _). ucast cid) ` set ids" for p v
  proof -
    from c assms(5) obtain cid where cid: "(cid, 0, 0) \<in> set ids" "sln_compiler_id v = ucast cid"
      by (fastforce simp: list_all_iff)
    then have "listed (last_client_id s) (store32 (sln_compiler_id v)) s'"
      using s'(4) store16_zero [of cid] by (force simp: all_listed_def list_all_iff)
    with listed_push [OF s'(2,5) _ _ _ v] ent h assms(6) show ?thesis by auto
  qed
  moreover have "last_client_id s' = last_client_id s + 1" using fr(3) by (simp add: add_client_def Let_def)
  ultimately show ?thesis using s'(1,2) h ent by blast
qed

theorem register_serves_witness:
  "\<exists>s'. register demo_start demo_socket [] [(1, 0, 0)] = Inr s' \<and> srv_ok s'
    \<and> (\<exists>a \<in> set (hash_elts (clients_map s')). push_solution demo_api s' (1, 0) = Inr (0, append_sln s' a (1, 0)))"
proof -
  have "hash_room (clients_map demo_start)" "cspace (length [(1, 0, 0)]) (length [(1, 0, 0)]) demo_start"
    "distinct (map fst (hash_entries (compilers_map demo_start)))" "size (held demo_start) < 2 ^ 32"
    by (simp_all add: demo_start_def server_init_def hash_room_def cspace_def hash_entries_def held_def hash_elts_def)
  from register_serves [OF demo_start_ok this(1-3) _ this(4), of demo_socket "[]" demo_api] obtain s' where
    s': "register demo_start demo_socket [] [(1, 0, 0)] = Inr s'" "srv_ok s'"
      "\<And>p v. load_sln s' p = Inr v \<Longrightarrow> sln_compiler_id v = 1 \<Longrightarrow>
         (\<exists>a \<in> set (hash_elts (clients_map s')). push_solution demo_api s' p = Inr (0, append_sln s' a p))"
    by auto
  have "s' = demo_one" by (simp add: demo_one_def s'(1))
  with s' demo_load(1) show ?thesis by (auto simp: demo_sln_def)
qed

text \<open>
  C38: the padding of \<^verbatim>\<open>compiler_t\<close> decides whether a compiler can be found.  If \<^verbatim>\<open>malloc\<close> returns memory
  whose two bytes behind the 16-bit id are not zero, the first client that announces the compiler is
  registered, but every solution for that compiler is answered with FL, "no compiler".
\<close>

theorem padding_hides_compiler:
  assumes "heap \<noteq> 0"
  shows "\<exists>s'. register (server_init d) ep pkt [(cid, stack, heap)] = Inr s' \<and> srv_ok s'
    \<and> (\<forall>m p v. load_sln (s'\<lparr>sln_mem := m\<rparr>) p = Inr v \<longrightarrow> sln_compiler_id v = ucast cid \<longrightarrow>
         push_solution api (s'\<lparr>sln_mem := m\<rparr>) p
           = Inr (ERR_NOCOMPILER, post_failed api (s'\<lparr>sln_mem := m\<rparr>) (sln_id v)))"
proof -
  let ?s = "server_init d"
  have ok: "srv_ok ?s" by (simp add: server_init_def srv_ok_def clients_ok_def compilers_ok_def
        lists_ok_def fresh_ok_def hash_ok_def hash_entries_def)
  have room: "hash_room (clients_map ?s)" "cspace (length [(cid, stack, heap)]) (length [(cid, stack, heap)]) ?s"
    by (simp_all add: server_init_def hash_room_def cspace_def)
  from register_ok [OF ok room, of ep pkt] obtain s' where
    s': "register ?s ep pkt [(cid, stack, heap)] = Inr s'" "srv_ok s'" by blast
  have "compilers_map s' = HASH_ADD None (store16 cid @ store16 heap) 2"
    using s'(1) by (auto simp: register_def find_or_add_compiler_def HASH_FIND_def add_client_def
        server_init_def add_client_id_def numeral_2_eq_2)
  then have "hash_entries (compilers_map s') = [(store16 cid @ store16 heap, 2)]"
    using ut.add_entries [of None 2 "store16 cid @ store16 heap"]
    by (simp add: hash_ok_def hash_room_def hash_entries_def)
  moreover have "store16 heap \<noteq> store16 0"
    using assms load16_store16 [of heap] load16_store16 [of 0] by (auto simp: store16_def)
  ultimately have "store32 (ucast cid) \<notin> fst ` set (hash_entries (compilers_map s'))"
    by (simp flip: store16_zero)
  then have "HASH_FIND (compilers_map s') (store32 (ucast cid)) = None"
    using ut.find_iff [of "compilers_map s'" "store32 (ucast cid)"] s'(2)
    by (auto simp: srv_ok_def compilers_ok_def)
  then show ?thesis using s' by (auto simp: push_solution_def)
qed

theorem padding_hides_compiler_witness:
  "\<exists>s'. register (server_init \<lparr>conn = (), sent = []\<rparr>) demo_socket [] [(1, 0, 5)] = Inr s'
    \<and> fst (projr (push_solution demo_api (s'\<lparr>sln_mem := [1 \<mapsto> [demo_sln]]\<rparr>) (1, 0))) = ERR_NOCOMPILER"
proof -
  obtain s' where s': "register (server_init \<lparr>conn = (), sent = []\<rparr>) demo_socket [] [(1, 0, 5)] = Inr s'"
      "\<And>m p v. load_sln (s'\<lparr>sln_mem := m\<rparr>) p = Inr v \<Longrightarrow> sln_compiler_id v = 1 \<Longrightarrow>
         push_solution demo_api (s'\<lparr>sln_mem := m\<rparr>) p
           = Inr (ERR_NOCOMPILER, post_failed demo_api (s'\<lparr>sln_mem := m\<rparr>) (sln_id v))"
    using padding_hides_compiler [of 5 "\<lparr>conn = (), sent = []\<rparr>" demo_socket "[]" 1 0 demo_api] by auto
  have "load_sln (s'\<lparr>sln_mem := [1 \<mapsto> [demo_sln]]\<rparr>) (1, 0) = Inr demo_sln" by (simp add: load_sln_def)
  then have "push_solution demo_api (s'\<lparr>sln_mem := [1 \<mapsto> [demo_sln]]\<rparr>) (1, 0)
      = Inr (ERR_NOCOMPILER, post_failed demo_api (s'\<lparr>sln_mem := [1 \<mapsto> [demo_sln]]\<rparr>) (sln_id demo_sln))"
    by (rule s'(2)) (simp add: demo_sln_def)
  with s'(1) show ?thesis by simp
qed

text \<open>
  Ids are not unique.  \<^verbatim>\<open>remove_client\<close> counts \<^verbatim>\<open>last_client_id\<close> down whichever client it removes, so
  when a client other than the newest one leaves, the next client to register gets the id the newest
  one still has: two different clients are in the table under one id.
\<close>

theorem client_id_reused:
  assumes "srv_ok s" and "HASH_FIND (clients_map s) (store32 i) = Some a"
    and "\<forall>p \<in># held_at s a. live s p" and "size (held s) < 2 ^ 32" and "hash_room (clients_map s)"
    and "(store32 (last_client_id s - 1), b) \<in> set (hash_entries (clients_map s))" and "a \<noteq> b"
  shows "\<exists>s1. remove_client api s i = Some (Inr s1)
    \<and> (let s2 = add_client s1 ep pkt in srv_ok s2
         \<and> (store32 (last_client_id s - 1), b) \<in> set (hash_entries (clients_map s2))
         \<and> (store32 (last_client_id s - 1), next_addr s1) \<in> set (hash_entries (clients_map s2))
         \<and> next_addr s1 \<noteq> b)"
proof -
  from remove_client_ok [OF assms(1-4), of api] obtain s1 where
    s1: "remove_client api s i = Some (Inr s1)" "srv_ok s1" "hash_room (clients_map s1)"
      "hash_entries (clients_map s1) = filter (\<lambda>e. snd e \<noteq> a) (hash_entries (clients_map s))"
      "last_client_id s1 = last_client_id s - 1" using assms(5) by blast
  have b: "(store32 (last_client_id s - 1), b) \<in> set (hash_entries (clients_map s1))"
    using assms(6,7) by (simp add: s1(4))
  then have "next_addr s1 \<noteq> b" using fresh_not_listed(1) [OF s1(2)] by force
  with b add_client_ok [OF s1(2,3), of ep pkt] s1(1,5) show ?thesis by (simp add: Let_def)
qed

theorem client_id_reused_witness:
  "\<exists>s1. remove_client demo_api (add_client demo_one demo_socket []) 1 = Some (Inr s1)
    \<and> (store32 2, next_addr demo_one) \<in> set (hash_entries (clients_map (add_client s1 demo_socket [])))
    \<and> (store32 2, next_addr s1) \<in> set (hash_entries (clients_map (add_client s1 demo_socket [])))"
proof -
  let ?s = "add_client demo_one demo_socket []"
  have ent: "hash_entries (clients_map ?s) = [(store32 1, 2), (store32 2, next_addr demo_one)]"
    using add_client_ok(2) [OF demo_one_ok(1,9)] demo_one_ok(2,3) by simp
  have ok: "srv_ok ?s" using add_client_ok(1) [OF demo_one_ok(1,9)] .
  have ne: "next_addr demo_one \<noteq> 2"
    using fresh_not_listed(1) [OF demo_one_ok(1)] demo_one_ok(2) by auto
  have find: "HASH_FIND (clients_map ?s) (store32 1) = Some 2"
    using ut.find_map_of [of "clients_map ?s"] ok ent by (simp add: srv_ok_def clients_ok_def)
  have c: "clients ?s 2 = Some ((client_create demo_socket 1)\<lparr>recv_pkt := Some []\<rparr>)"
    using ne demo_one_ok(5) by (simp add: add_client_def Let_def)
  have "held ?s = {#}"
    using held_register [OF demo_one_ok(1,9), of demo_socket "[]" ?s] demo_one_ok(8) by (simp add: reg_frame_def)
  moreover have "held_at ?s 2 = {#}" by (simp add: held_at_def c held_by_def client_create_def)
  moreover have "clients_map ?s = HASH_ADD (HASH_ADD None (store32 1) 2) (store32 2) (next_addr demo_one)"
    by (simp add: add_client_def Let_def demo_one_ok demo_one_clients_map)
  then have "hash_room (clients_map ?s)"
    using hash_space_room [OF hash_space_add [OF hash_space_add [of "Suc (Suc 0)" None]]] by simp
  moreover have "last_client_id ?s = 3" by (simp add: add_client_def Let_def demo_one_ok(3))
  ultimately show ?thesis
    using client_id_reused [OF ok find, of "next_addr demo_one" demo_api demo_socket "[]"] ne ent
    by (auto simp: Let_def)
qed

end
