(* ===== verification/Client_Loop.thy ===== *)
theory Client_Loop
  imports Registry
begin

text \<open>
  The conversation with one client: the handshake of \<^verbatim>\<open>client_loop\<close>, the packet
  \<^verbatim>\<open>process_solutions\<close> builds and the loop that sends it, and one round of the main loop with its
  timeouts and its result packets.  Operations return \<open>None\<close> when the C code does not return.
  Memory that \<^verbatim>\<open>malloc\<close> and \<^verbatim>\<open>realloc\<close> hand out is filled with zeroes here; it is only read after
  \<^verbatim>\<open>recv_all\<close> has filled it.
\<close>

section \<open>The packet with a solution\<close>

definition pkt_length :: "solution_t \<Rightarrow> nat" where
  "pkt_length sln = 1 + 4 + 4 + 4 + unat (sln_source_len sln)"

definition check_packet :: "solution_t \<Rightarrow> u8 list res" where
  "check_packet sln =
     (if unat (sln_source_len sln) \<le> length (sln_source sln)
      then Inr (store16 (htons (of_nat (pkt_length sln))) @ [OP_CHECK_SLN]
        @ store32 (htonl (sln_id sln)) @ store32 (htonl (sln_compiler_id sln))
        @ store32 (htonl (sln_source_len sln)) @ take (unat (sln_source_len sln)) (sln_source sln))
      else Inl Out_of_bounds)"

section \<open>Sending it\<close>

text \<open>
  The loop \<^verbatim>\<open>do ... while(sent <= 0)\<close>.  \<open>Inl\<close> is a status the function returns from inside the loop,
  \<open>Inr\<close> the value of \<^verbatim>\<open>sent\<close> after it.
\<close>

partial_function (option) send_retry :: "client_t \<Rightarrow> u8 list \<Rightarrow> ((int + int) \<times> client_t) option" where
  "send_retry client pkt =
     (case send_all (cl_socket client) pkt (of_nat (length pkt)) of
        (n_sent, sk) \<Rightarrow>
          if n_sent \<le> 0 then
            (if sk_errno sk = EAGAIN then
               (if last_send_delay client + SEND_TIMEOUT_SEC \<ge> SEND_MAX_TIMEOUT
                then Some (Inl CLI_SENDTIMEOUT,
                  client\<lparr>cl_socket := sk, last_send_delay := last_send_delay client + SEND_TIMEOUT_SEC\<rparr>)
                else send_retry
                  (client\<lparr>cl_socket := sk, last_send_delay := last_send_delay client + SEND_TIMEOUT_SEC\<rparr>) pkt)
             else if sk_errno sk = ECONNRESET then Some (Inl CLI_CONNERROR, client\<lparr>cl_socket := sk\<rparr>)
             else send_retry (client\<lparr>cl_socket := sk\<rparr>) pkt)
          else Some (Inr n_sent, client\<lparr>cl_socket := sk\<rparr>))"

definition process_solutions :: "'c server \<Rightarrow> addr \<Rightarrow> (int \<times> 'c server) res option" where
  "process_solutions s a =
     obind (Some (deref (clients s) a)) (\<lambda>client.
       if lq_count (solutions_queue client) = 0 then Some (Inr (0, s))
       else case lq_pop (solutions_queue client) of (sln, q) \<Rightarrow>
         obind (Some (case sln of None \<Rightarrow> Inl Null_deref | Some p \<Rightarrow> rbind (load_sln s p) check_packet)) (\<lambda>pkt.
           case send_retry (client\<lparr>solutions_queue := q, checking_solution := sln, send_pkt := Some pkt\<rparr>) pkt of
             None \<Rightarrow> None
           | Some (Inl status, client') \<Rightarrow> Some (Inr (status, set_client s a client'))
           | Some (Inr n_sent, client') \<Rightarrow>
               Some (Inr (if n_sent < int (length pkt) then CLI_CONNERROR else 0, set_client s a client'))))"

section \<open>One round of the main loop\<close>

definition realloc :: "u8 list option \<Rightarrow> nat \<Rightarrow> u8 list" where
  "realloc p n = (let old = (case p of None \<Rightarrow> [] | Some bs \<Rightarrow> bs) in take n old @ replicate (n - length old) 0)"

text \<open>The timeout branch: \<open>True\<close> when the client has used up its time.\<close>

definition recv_timed_out :: "client_t \<Rightarrow> bool \<times> client_t" where
  "recv_timed_out client =
     (if checking_solution client \<noteq> None then
        (last_recv_delay client + RECV_TIMEOUT_SEC \<ge> RECV_MAX_TIMEOUT,
         client\<lparr>last_recv_delay := last_recv_delay client + RECV_TIMEOUT_SEC\<rparr>)
      else if last_recv_delay client > 0 then (False, client\<lparr>last_recv_delay := 0\<rparr>)
      else (False, client))"

text \<open>The packet of a client that is not a timeout: \<^verbatim>\<open>switch(op_code)\<close>.\<close>

definition handle_packet :: "'c mysql_api \<Rightarrow> 'c server \<Rightarrow> addr \<Rightarrow> u8 list \<Rightarrow> 'c server res" where
  "handle_packet api s a res_pkt =
     rbind (read8 res_pkt 0) (\<lambda>op_code.
       if op_code = OP_RESULT then
         rbind (read32 res_pkt 1) (\<lambda>solution_id.
         rbind (read8 res_pkt 5) (\<lambda>result_code.
         rbind (read8 res_pkt 6) (\<lambda>test_number.
         rbind (deref (clients s) a) (\<lambda>client.
           solution_free
             (set_client (s\<lparr>db := post_result api (db s) (ntohl solution_id) result_code test_number\<rparr>) a
               (client\<lparr>checking_solution := None\<rparr>))
             (checking_solution client)))))
       else Inr s)"

text \<open>The boolean of the result says whether the loop goes on.\<close>

definition remove_and_break :: "'c mysql_api \<Rightarrow> 'c server \<Rightarrow> u32 \<Rightarrow> (bool \<times> 'c server) res option" where
  "remove_and_break api s i = obind (remove_client api s i) (\<lambda>s'. Some (Inr (False, s')))"

definition receive_round :: "'c mysql_api \<Rightarrow> 'c server \<Rightarrow> addr \<Rightarrow> u32 \<Rightarrow> (bool \<times> 'c server) res option" where
  "receive_round api s a new_client_id =
     obind (Some (deref (clients s) a)) (\<lambda>client.
       case recv_all (cl_socket client) [0, 0] 2 of (recvd, len_buf, sk) \<Rightarrow>
       let client = client\<lparr>cl_socket := sk\<rparr> in
       if recvd \<le> 0 then
         (if sk_errno sk = EAGAIN then
            (case recv_timed_out client of (dead, client) \<Rightarrow>
               if dead then remove_and_break api (set_client s a client) new_client_id
               else Some (Inr (True, set_client s a client)))
          else if sk_errno sk = ECONNRESET then remove_and_break api (set_client s a client) new_client_id
          else Some (Inr (True, set_client s a client)))
       else
         (let res_len = ntohs (load16 (len_buf ! 0) (len_buf ! 1)) in
          case recv_all sk (realloc (recv_pkt client) (unat res_len)) (ucast res_len) of (recvd, res_pkt, sk) \<Rightarrow>
          let s = set_client s a (client\<lparr>cl_socket := sk, recv_pkt := Some res_pkt\<rparr>) in
          if recvd \<noteq> int (unat res_len) then Some (Inr (True, s))
          else Some (rbind (handle_packet api s a res_pkt) (\<lambda>s. Inr (True, s)))))"

definition client_round :: "'c mysql_api \<Rightarrow> 'c server \<Rightarrow> addr \<Rightarrow> u32 \<Rightarrow> (bool \<times> 'c server) res option" where
  "client_round api s a new_client_id =
     obind (process_solutions s a) (\<lambda>(status, s).
       if status = CLI_SENDTIMEOUT \<or> status = CLI_CONNERROR then remove_and_break api s new_client_id
       else receive_round api s a new_client_id)"

partial_function (option) main_loop :: "'c mysql_api \<Rightarrow> 'c server \<Rightarrow> addr \<Rightarrow> u32 \<Rightarrow> 'c server res option" where
  "main_loop api s a new_client_id =
     (if server_running s
      then (case client_round api s a new_client_id of
          None \<Rightarrow> None
        | Some (Inl e) \<Rightarrow> Some (Inl e)
        | Some (Inr (go_on, s')) \<Rightarrow> if go_on then main_loop api s' a new_client_id else Some (Inr s'))
      else Some (Inr s))"

section \<open>The handshake\<close>

definition welcome_pkt :: "u8 list" where
  "welcome_pkt = [0x00, 0x01, 0xFF]"

fun read_compilers :: "u8 list \<Rightarrow> nat \<Rightarrow> nat \<Rightarrow> u16 list res" where
  "read_compilers res_pkt off 0 = Inr []"
| "read_compilers res_pkt off (Suc n) =
     rbind (read16 res_pkt off) (\<lambda>c. rbind (read_compilers res_pkt (off + 2) n) (\<lambda>cs. Inr (ntohs c # cs)))"

text \<open>
  \<open>junk i\<close> is what lies behind the \<open>i\<close>-th compiler id on the stack and in new memory.  The result is the
  address of the new client, if the handshake succeeds; the socket is closed if it does not.
\<close>

definition reject :: "'c server \<Rightarrow> socket \<Rightarrow> (addr option \<times> 'c server) res" where
  "reject s sk = Inr (None, s\<lparr>closed := closed s @ [sk]\<rparr>)"

definition handshake ::
  "(nat \<Rightarrow> u16 \<times> u16) \<Rightarrow> 'c server \<Rightarrow> socket \<Rightarrow> (addr option \<times> 'c server) res" where
  "handshake junk s ep =
     (case send_all ep welcome_pkt 3 of (_, sk0) \<Rightarrow>
      case recv_all sk0 [0, 0] 2 of (recvd, len_buf, sk1) \<Rightarrow>
      if recvd \<noteq> 2 then reject s sk1
      else let res_len = ntohs (load16 (len_buf ! 0) (len_buf ! 1)) in
        case recv_all sk1 (replicate (unat res_len) 0) (ucast res_len) of (recvd, res_pkt, sk2) \<Rightarrow>
        if recvd \<noteq> int (unat res_len) then reject s sk2
        else rbind (read8 res_pkt 0) (\<lambda>op_code.
          if op_code \<noteq> OP_COMPILERS_LIST then reject s sk2
          else rbind (read8 res_pkt 1) (\<lambda>compilers_count.
            rbind (read_compilers res_pkt 2 (unat compilers_count)) (\<lambda>compilers_ids.
            rbind (register s sk2 res_pkt (map (\<lambda>(i, c). (c, junk i)) (enumerate 0 compilers_ids)))
              (\<lambda>s'. Inr (Some (next_addr s), s'))))))"

definition client_loop ::
  "'c mysql_api \<Rightarrow> (nat \<Rightarrow> u16 \<times> u16) \<Rightarrow> 'c server \<Rightarrow> socket \<Rightarrow> 'c server res option" where
  "client_loop api junk s ep = obind (Some (handshake junk s ep)) (\<lambda>(client, s').
     case client of None \<Rightarrow> Some (Inr s') | Some a \<Rightarrow> main_loop api s' a (last_client_id s))"

section \<open>What sending does\<close>

lemma send_all_cases:
  assumes "length pkt < 2 ^ 32" and "send_all sk pkt (of_nat (length pkt)) = (n, sk')"
  shows "\<exists>m. sk_out sk' = sk_out sk @ take m pkt
    \<and> (m = length pkt \<and> n = int (length pkt) \<or> m < length pkt \<and> n \<le> 0)"
proof -
  have u: "unat (of_nat (length pkt) :: u32) = length pkt" using assms(1) by (intro unat_of_nat_small) simp
  obtain d where "transfer_loop True sk pkt 0 (of_nat (length pkt)) = (n, d, sk')"
    using assms(2) by (auto simp: send_all_def transfer_all_def split: prod.splits)
  from send_loop_spec [OF this] u show ?thesis by simp
qed

text \<open>
  \<open>retried pkt cl r cl'\<close>: only the connection and the delay changed, and the peer got some proper
  prefixes of the packet, the last of which is the packet itself if the loop ended with a count.
\<close>

definition retried :: "u8 list \<Rightarrow> client_t \<Rightarrow> int + int \<Rightarrow> client_t \<Rightarrow> bool" where
  "retried pkt cl r cl' \<longleftrightarrow> cl' = cl\<lparr>cl_socket := cl_socket cl', last_send_delay := last_send_delay cl'\<rparr>
     \<and> (\<exists>ms. (\<forall>m \<in> set ms. m < length pkt)
          \<and> sk_out (cl_socket cl') = sk_out (cl_socket cl) @ concat (map (\<lambda>m. take m pkt) ms)
               @ (if isl r then [] else pkt))
     \<and> r \<in> {Inl CLI_SENDTIMEOUT, Inl CLI_CONNERROR, Inr (int (length pkt))}"

lemma retried_frame:
  assumes "retried pkt cl r cl'"
  shows "cl_id cl' = cl_id cl" "solutions_queue cl' = solutions_queue cl"
    "checking_solution cl' = checking_solution cl" "recv_pkt cl' = recv_pkt cl"
    "send_pkt cl' = send_pkt cl" "last_recv_delay cl' = last_recv_delay cl"
proof -
  have *: "cl' = cl\<lparr>cl_socket := cl_socket cl', last_send_delay := last_send_delay cl'\<rparr>"
    using assms by (simp add: retried_def)
  show "cl_id cl' = cl_id cl" "solutions_queue cl' = solutions_queue cl"
    "checking_solution cl' = checking_solution cl" "recv_pkt cl' = recv_pkt cl"
    "send_pkt cl' = send_pkt cl" "last_recv_delay cl' = last_recv_delay cl"
    by (subst *, simp)+
qed

lemma retried_step:
  assumes m: "sk_out sk = sk_out (cl_socket cl) @ take m pkt" "m < length pkt"
    and r: "retried pkt (cl\<lparr>cl_socket := sk, last_send_delay := d\<rparr>) r cl'"
  shows "retried pkt cl r cl'"
proof -
  from r obtain ms where ms: "\<forall>m \<in> set ms. m < length pkt"
      "sk_out (cl_socket cl') = sk_out sk @ concat (map (\<lambda>m. take m pkt) ms) @ (if isl r then [] else pkt)"
    by (auto simp: retried_def)
  have "\<exists>ms. (\<forall>m \<in> set ms. m < length pkt)
      \<and> sk_out (cl_socket cl') = sk_out (cl_socket cl) @ concat (map (\<lambda>m. take m pkt) ms)
           @ (if isl r then [] else pkt)"
    using ms m by (intro exI [of _ "m # ms"]) simp
  then show ?thesis using r unfolding retried_def by (cases cl, cases cl') simp
qed

lemma send_retry_retried:
  assumes "length pkt < 2 ^ 32" and "pkt \<noteq> []" and "send_retry cl pkt = Some (r, cl')"
  shows "retried pkt cl r cl'"
proof -
  have "\<forall>r cl'. res = (r, cl') \<longrightarrow> length p < 2 ^ 32 \<longrightarrow> p \<noteq> [] \<longrightarrow> retried p cl r cl'"
    if "send_retry cl p = Some res" for cl p res
    using that
  proof (rule send_retry.raw_induct [rotated], intro allI impI)
    fix retry and cl :: client_t and p res r cl'
    assume IH: "\<And>cl p res. retry cl p = Some res \<Longrightarrow>
        \<forall>r cl'. res = (r, cl') \<longrightarrow> length p < 2 ^ 32 \<longrightarrow> p \<noteq> [] \<longrightarrow> retried p cl r cl'"
      and run: "(case send_all (cl_socket cl) p (of_nat (length p)) of
        (n_sent, sk) \<Rightarrow>
          if n_sent \<le> 0 then
            (if sk_errno sk = EAGAIN then
               (if last_send_delay cl + SEND_TIMEOUT_SEC \<ge> SEND_MAX_TIMEOUT
                then Some (Inl CLI_SENDTIMEOUT,
                  cl\<lparr>cl_socket := sk, last_send_delay := last_send_delay cl + SEND_TIMEOUT_SEC\<rparr>)
                else retry
                  (cl\<lparr>cl_socket := sk, last_send_delay := last_send_delay cl + SEND_TIMEOUT_SEC\<rparr>) p)
             else if sk_errno sk = ECONNRESET then Some (Inl CLI_CONNERROR, cl\<lparr>cl_socket := sk\<rparr>)
             else retry (cl\<lparr>cl_socket := sk\<rparr>) p)
          else Some (Inr n_sent, cl\<lparr>cl_socket := sk\<rparr>)) = Some res"
      and res: "res = (r, cl')" and len: "length p < 2 ^ 32" and ne: "p \<noteq> []"
    obtain n sk where sa: "send_all (cl_socket cl) p (of_nat (length p)) = (n, sk)" by fastforce
    from send_all_cases [OF len sa] obtain m where
      m: "sk_out sk = sk_out (cl_socket cl) @ take m p"
        "m = length p \<and> n = int (length p) \<or> m < length p \<and> n \<le> 0" by blast
    show "retried p cl r cl'"
    proof (cases "m < length p \<and> n \<le> 0")
      case True
      have again: "retried p cl r cl'" if "retry (cl\<lparr>cl_socket := sk, last_send_delay := d\<rparr>) p = Some res" for d
        using IH [OF that] res len ne retried_step [OF m(1)] True by blast
      have stop: "retried p cl x (cl\<lparr>cl_socket := sk, last_send_delay := d\<rparr>)"
        if "x \<in> {Inl CLI_SENDTIMEOUT, Inl CLI_CONNERROR}" for x d
        using that m(1) True unfolding retried_def by (auto intro!: exI [of _ "[m]"])
      have keep: "cl\<lparr>cl_socket := sk\<rparr> = cl\<lparr>cl_socket := sk, last_send_delay := last_send_delay cl\<rparr>" by simp
      note again [of "last_send_delay cl", folded keep] stop [of _ "last_send_delay cl", folded keep]
      with run again stop True res sa show ?thesis by (auto split: if_splits)
    next
      case False
      then have n: "n = int (length p)" "m = length p" using m(2) by auto
      with run sa m(1) res ne show ?thesis by (auto simp: retried_def intro!: exI [of _ "[]"])
    qed
  qed
  then show ?thesis using assms by blast
qed

text \<open>The loop only ends if some call ends it.\<close>

lemma send_all_first_fails:
  assumes "sk_tx sk (tx_pos sk) = Tx_fail e" and "0 < len"
  shows "send_all sk data len = (-1, sk\<lparr>tx_pos := Suc (tx_pos sk), sk_errno := e\<rparr>)"
  using assms by (simp add: send_all_def transfer_all_def transfer_loop.simps transfer_step_def send_def)

lemma send_retry_spin:
  assumes "send_retry cl pkt = Some res" and "0 < length pkt" and "length pkt < 2 ^ 32"
  shows "\<exists>i \<ge> tx_pos (cl_socket cl). \<nexists>n. sk_tx (cl_socket cl) i = Tx_fail (Other_errno n)"
proof -
  have "0 < length p \<longrightarrow> length p < 2 ^ 32 \<longrightarrow>
      (\<exists>i \<ge> tx_pos (cl_socket cl). \<nexists>n. sk_tx (cl_socket cl) i = Tx_fail (Other_errno n))"
    if "send_retry cl p = Some res" for cl p res
    using that
  proof (rule send_retry.raw_induct [rotated], intro impI)
    fix retry and cl :: client_t and p res
    assume IH: "\<And>cl p res. retry cl p = Some res \<Longrightarrow> 0 < length p \<longrightarrow> length p < 2 ^ 32 \<longrightarrow>
        (\<exists>i \<ge> tx_pos (cl_socket cl). \<nexists>n. sk_tx (cl_socket cl) i = Tx_fail (Other_errno n))"
      and run: "(case send_all (cl_socket cl) p (of_nat (length p)) of
        (n_sent, sk) \<Rightarrow>
          if n_sent \<le> 0 then
            (if sk_errno sk = EAGAIN then
               (if last_send_delay cl + SEND_TIMEOUT_SEC \<ge> SEND_MAX_TIMEOUT
                then Some (Inl CLI_SENDTIMEOUT,
                  cl\<lparr>cl_socket := sk, last_send_delay := last_send_delay cl + SEND_TIMEOUT_SEC\<rparr>)
                else retry
                  (cl\<lparr>cl_socket := sk, last_send_delay := last_send_delay cl + SEND_TIMEOUT_SEC\<rparr>) p)
             else if sk_errno sk = ECONNRESET then Some (Inl CLI_CONNERROR, cl\<lparr>cl_socket := sk\<rparr>)
             else retry (cl\<lparr>cl_socket := sk\<rparr>) p)
          else Some (Inr n_sent, cl\<lparr>cl_socket := sk\<rparr>)) = Some res"
      and p: "0 < length p" "length p < 2 ^ 32"
    let ?sk = "cl_socket cl"
    have len: "(0 :: u32) < of_nat (length p)"
      using of_nat_eq_0_small [of "length p", where 'a = 32] p by (simp add: word_gt_0)
    show "\<exists>i \<ge> tx_pos ?sk. \<nexists>n. sk_tx ?sk i = Tx_fail (Other_errno n)"
    proof (cases "\<exists>n. sk_tx ?sk (tx_pos ?sk) = Tx_fail (Other_errno n)")
      case True
      then obtain n where n: "sk_tx ?sk (tx_pos ?sk) = Tx_fail (Other_errno n)" by blast
      let ?sk' = "?sk\<lparr>tx_pos := Suc (tx_pos ?sk), sk_errno := Other_errno n\<rparr>"
      have "retry (cl\<lparr>cl_socket := ?sk'\<rparr>) p = Some res"
        using run send_all_first_fails [OF n len] by simp
      from IH [OF this] p obtain i where "i \<ge> Suc (tx_pos ?sk)" "\<nexists>n. sk_tx ?sk i = Tx_fail (Other_errno n)"
        by auto
      then show ?thesis by (intro exI [of _ i]) simp
    qed blast
  qed
  then show ?thesis using assms by blast
qed

text \<open>It does end when no call fails with anything but a timeout or a reset, and none accepts nothing.\<close>

definition tx_fair :: "socket \<Rightarrow> bool" where
  "tx_fair sk \<longleftrightarrow> (\<forall>i. case sk_tx sk i of Room k \<Rightarrow> 0 < k | Tx_fail e \<Rightarrow> e \<in> {EAGAIN, ECONNRESET})"

lemma transfer_step_fair:
  assumes "transfer_step True sk data off rem = (n, d, sk')" and "tx_fair sk" and "0 < rem"
    and "off + unat rem \<le> length data"
  shows "tx_fair sk'" "n \<le> 0 \<Longrightarrow> sk_errno sk' \<in> {EAGAIN, ECONNRESET}"
proof -
  have "sk_tx sk' = sk_tx sk"
    using assms(1) by (auto simp: transfer_step_def send_def Let_def split: tx_event.splits)
  then show "tx_fair sk'" using assms(2) by (simp add: tx_fair_def)
  have rem: "0 < unat rem" using assms(3) by (simp add: word_less_nat_alt)
  show "sk_errno sk' \<in> {EAGAIN, ECONNRESET}" if "n \<le> 0"
  proof (cases "sk_tx sk (tx_pos sk)")
    case (Room k)
    then have "0 < k" using assms(2) by (metis tx_fair_def tx_event.simps(5))
    then show ?thesis using Room assms(1,4) rem that by (auto simp: transfer_step_def send_def Let_def)
  next
    case (Tx_fail e)
    then have "e \<in> {EAGAIN, ECONNRESET}" using assms(2) by (metis tx_fair_def tx_event.simps(6))
    then show ?thesis using Tx_fail assms(1) by (auto simp: transfer_step_def send_def)
  qed
qed

lemma send_loop_fair:
  assumes "transfer_loop True sk data off rem = (n, d, sk')" and "tx_fair sk"
    and "off + unat rem \<le> length data" and "0 < off \<or> 0 < rem"
  shows "tx_fair sk' \<and> (n \<le> 0 \<longrightarrow> sk_errno sk' \<in> {EAGAIN, ECONNRESET})"
  using assms
proof (induction sk data off rem arbitrary: n d sk' rule: transfer_induct [where do_send = True])
  case (zero s data off)
  then show ?case by (auto simp: transfer_loop_0)
next
  case (fail s data off rem n d s1)
  then show ?case using transfer_loop_stop [OF fail.hyps] transfer_step_fair [OF fail.hyps(2) fail.prems(2) fail.hyps(1)] by auto
next
  case (more s data off rem m e s1)
  have "transfer_loop True s1 e (off + nat m) (rem - of_int m) = (n, d, sk')"
    using more.prems(1) transfer_loop_go [OF more.hyps(1,2)] more.hyps(3) by simp
  moreover have "tx_fair s1" using transfer_step_fair(1) [OF more.hyps(2) more.prems(2) more.hyps(1)] more.prems(3) .
  moreover have "e = data" using send_step [OF more.hyps(2) more.prems(3)] by simp
  ultimately show ?case using more.IH more.hyps more.prems(3) by simp
qed

lemma send_retry_returns:
  assumes "tx_fair (cl_socket cl)" and "unat (last_send_delay cl) < 18" and "0 < length pkt" and "length pkt < 2 ^ 32"
  shows "\<exists>r cl'. send_retry cl pkt = Some (r, cl')"
  using assms(1,2)
proof (induction "18 - unat (last_send_delay cl)" arbitrary: cl rule: less_induct)
  case less
  obtain n sk where sa: "send_all (cl_socket cl) pkt (of_nat (length pkt)) = (n, sk)" by fastforce
  have u: "unat (of_nat (length pkt) :: u32) = length pkt" using assms(4) by (intro unat_of_nat_small) simp
  then have "(0 :: u32) < of_nat (length pkt)" using assms(3) by (simp add: word_less_nat_alt)
  then have fair: "tx_fair sk" "n \<le> 0 \<Longrightarrow> sk_errno sk \<in> {EAGAIN, ECONNRESET}"
    using sa send_loop_fair [of "cl_socket cl" pkt 0 "of_nat (length pkt)"] less.prems(1) u
    by (auto simp: send_all_def transfer_all_def split: prod.splits)
  have d: "unat (last_send_delay cl + 6) = unat (last_send_delay cl) + 6"
    using less.prems(2) by (simp add: unat_word_ariths)
  show ?case
  proof (cases "n \<le> 0 \<and> sk_errno sk = EAGAIN \<and> \<not> last_send_delay cl + 6 \<ge> 18")
    case True
    then have "unat (last_send_delay cl) + 6 < 18" using d by (simp add: word_le_nat_alt)
    then have "\<exists>r cl'. send_retry (cl\<lparr>cl_socket := sk, last_send_delay := last_send_delay cl + 6\<rparr>) pkt = Some (r, cl')"
      using d fair(1) by (intro less.hyps) simp_all
    then show ?thesis using sa True by (subst send_retry.simps) simp
  next
    case False
    then show ?thesis using sa fair(2) by (subst send_retry.simps) auto
  qed
qed

section \<open>What a round does to the server\<close>

lemma srv_ok_set_client:
  assumes "srv_ok s" and "clients s a = Some cl" and "cl_id cl' = cl_id cl"
  shows "srv_ok (set_client s a cl')"
proof -
  have "clients_ok (set_client s a cl')"
    using assms by (force simp: srv_ok_def clients_ok_def)
  moreover have "fresh_ok (set_client s a cl')" using assms(1,2) by (auto simp: srv_ok_def fresh_ok_def)
  ultimately show ?thesis using assms(1) by (simp add: srv_ok_def)
qed

lemma srv_ok_nonnull: "srv_ok s \<Longrightarrow> a \<in> set (hash_elts (clients_map s)) \<Longrightarrow> a \<noteq> NULL"
  by (metis srv_ok_client)

lemma held_set_client:
  assumes "srv_ok s" and "a \<in> set (hash_elts (clients_map s))" and "clients s a = Some cl"
  shows "held (set_client s a cl') + held_by cl = held s + held_by cl'"
proof -
  have "distinct (hash_elts (clients_map s))"
    using assms(1) by (intro distinct_hash_elts) (simp add: srv_ok_def clients_ok_def)
  moreover have "held_at (set_client s a cl') = (held_at s)(a := held_by cl')"
    by (auto simp: held_at_def fun_eq_iff)
  moreover have "held_at s a = held_by cl" using assms(3) by (simp add: held_at_def)
  ultimately show ?thesis
    using sum_list_upd [of "hash_elts (clients_map s)" "held_at s" a "held_by cl'"] assms(2)
    by (simp add: held_def)
qed

lemma check_packet_length: "check_packet v = Inr pkt \<Longrightarrow> length pkt = 15 + unat (sln_source_len v)"
  by (auto simp: check_packet_def split: if_splits)

lemma process_solutions_ok:
  assumes ok: "srv_ok s" and a: "a \<in> set (hash_elts (clients_map s))" "clients s a = Some cl"
    and q: "solutions_queue cl = p # ps" and small: "size (held s) < 2 ^ 32"
    and pkt: "rbind (load_sln s p) check_packet = Inr pkt" "length pkt < 2 ^ 32"
    and run: "process_solutions s a = Some (Inr (status, s'))"
  shows "\<exists>r cl'. send_retry (cl\<lparr>solutions_queue := ps, checking_solution := Some p, send_pkt := Some pkt\<rparr>) pkt = Some (r, cl')
    \<and> retried pkt (cl\<lparr>solutions_queue := ps, checking_solution := Some p, send_pkt := Some pkt\<rparr>) r cl'
    \<and> s' = set_client s a cl' \<and> status = (case r of Inl st \<Rightarrow> st | Inr _ \<Rightarrow> 0)"
proof -
  let ?cl = "cl\<lparr>solutions_queue := ps, checking_solution := Some p, send_pkt := Some pkt\<rparr>"
  have "a \<noteq> NULL" using srv_ok_client [OF ok a(1)] by blast
  moreover have "length (p # ps) < 2 ^ 32"
    using size_held_at [OF a(1)] small a(2) q by (simp add: held_at_def held_by_def)
  then have "lq_count (p # ps) \<noteq> 0" using lq_count_zero by blast
  ultimately obtain r cl' where r: "send_retry ?cl pkt = Some (r, cl')"
    and res: "s' = set_client s a cl'" "status = (case r of Inl st \<Rightarrow> st
      | Inr n_sent \<Rightarrow> if n_sent < int (length pkt) then CLI_CONNERROR else 0)"
    using run a(2) q pkt(1)
    by (auto simp: process_solutions_def obind_def split: option.splits sum.splits prod.splits)
  have "0 < length pkt" using pkt(1) by (auto simp: res_simps dest: check_packet_length)
  then have "retried pkt ?cl r cl'" using send_retry_retried [OF pkt(2) _ r] by auto
  moreover then have "status = (case r of Inl st \<Rightarrow> st | Inr _ \<Rightarrow> 0)"
    using res(2) by (auto simp: retried_def)
  ultimately show ?thesis using r res(1) by blast
qed

section \<open>Properties of sending\<close>

text \<open>
  C23: the packet on the wire.  Its bytes are the 16-bit length, the opcode, id, compiler and source
  length in network order and the source.  The length field is the number of bytes that follow it
  modulo 65536, so it is right exactly for sources of at most 65522 bytes.
\<close>

theorem check_packet_framing:
  assumes "check_packet sln = Inr pkt"
  shows "\<exists>len. pkt = be16 len @ [OP_CHECK_SLN] @ be32 (sln_id sln) @ be32 (sln_compiler_id sln)
        @ be32 (sln_source_len sln) @ take (unat (sln_source_len sln)) (sln_source sln)
    \<and> length pkt = 2 + (13 + unat (sln_source_len sln))
    \<and> unat len = (13 + unat (sln_source_len sln)) mod 65536
    \<and> (unat len = length pkt - 2 \<longleftrightarrow> unat (sln_source_len sln) \<le> 65522)"
proof -
  let ?n = "13 + unat (sln_source_len sln)"
  have p: "pkt = be16 (of_nat ?n) @ [OP_CHECK_SLN] @ be32 (sln_id sln) @ be32 (sln_compiler_id sln)
      @ be32 (sln_source_len sln) @ take (unat (sln_source_len sln)) (sln_source sln)"
    using assms unfolding check_packet_def pkt_length_def store16_htons store32_htonl
    by (auto split: if_splits)
  have u: "unat (of_nat ?n :: u16) = ?n mod 65536" unfolding unat_of_nat take_bit_eq_mod by simp
  have "?n mod 65536 = ?n \<longleftrightarrow> unat (sln_source_len sln) \<le> 65522"
  proof
    assume "?n mod 65536 = ?n"
    then have "?n < 65536" by (metis mod_less_divisor zero_less_numeral)
    then show "unat (sln_source_len sln) \<le> 65522" by simp
  qed simp
  then show ?thesis
    using p u check_packet_length [OF assms] by (intro exI [of _ "of_nat ?n"]) simp
qed

theorem check_packet_framing_witness:
  "\<exists>pkt len. check_packet demo_sln = Inr pkt \<and> unat (len :: u16) = 15 \<and> length pkt = 17
    \<and> take 2 pkt = be16 len"
proof -
  obtain pkt where pkt: "check_packet demo_sln = Inr pkt"
    by (simp add: check_packet_def demo_sln_def)
  from check_packet_framing [OF this] pkt show ?thesis
    by (force simp: demo_sln_def be16_def)
qed

text \<open>
  C6: \<^verbatim>\<open>process_solutions\<close> takes the next solution from the queue, and the only solution the server no
  longer holds afterwards is the one the client was still checking: it is overwritten without being
  posted or queued again.  The tables stay intact; on success the whole packet has reached the
  connection, possibly after some prefixes of it from attempts that failed half way.
\<close>

theorem process_solutions_overwrites:
  assumes "srv_ok s" and "a \<in> set (hash_elts (clients_map s))" and "clients s a = Some cl"
    and "solutions_queue cl = p # ps" and "size (held s) < 2 ^ 32"
    and "rbind (load_sln s p) check_packet = Inr pkt" and "length pkt < 2 ^ 32"
    and "process_solutions s a = Some (Inr (status, s'))"
  shows "srv_ok s' \<and> held s = held s' + (case checking_solution cl of None \<Rightarrow> {#} | Some old \<Rightarrow> {#old#})
    \<and> (\<exists>cl'. clients s' a = Some cl' \<and> solutions_queue cl' = ps \<and> checking_solution cl' = Some p
         \<and> (status = 0 \<longrightarrow> (\<exists>ms. (\<forall>m \<in> set ms. m < length pkt) \<and> sk_out (cl_socket cl')
              = sk_out (cl_socket cl) @ concat (map (\<lambda>m. take m pkt) ms) @ pkt)))
    \<and> status \<in> {0, CLI_SENDTIMEOUT, CLI_CONNERROR}"
proof -
  let ?cl = "cl\<lparr>solutions_queue := ps, checking_solution := Some p, send_pkt := Some pkt\<rparr>"
  from process_solutions_ok [OF assms] obtain r cl' where
    r: "retried pkt ?cl r cl'" "s' = set_client s a cl'" "status = (case r of Inl st \<Rightarrow> st | Inr _ \<Rightarrow> 0)" by blast
  then have cl': "cl_id cl' = cl_id cl" "solutions_queue cl' = ps" "checking_solution cl' = Some p"
    using retried_frame [OF r(1)] by simp_all
  have "srv_ok s'" using srv_ok_set_client [OF assms(1,3)] cl' r(2) by simp
  moreover have "held s' + held_by cl = held s + held_by cl'"
    using held_set_client [OF assms(1-3)] r(2) by simp
  then have "held s = held s' + (case checking_solution cl of None \<Rightarrow> {#} | Some old \<Rightarrow> {#old#})"
    using cl' assms(4) by (cases "checking_solution cl") (auto simp: held_by_def)
  ultimately show ?thesis using r cl' by (auto simp: retried_def split: sum.splits)
qed

theorem process_solutions_overwrites_witness:
  "\<exists>cl s' status. checking_solution cl = Some (1, 1)
    \<and> process_solutions (set_client demo_one 2 cl) 2 = Some (Inr (status, s'))
    \<and> srv_ok s' \<and> held (set_client demo_one 2 cl) = held s' + {#(1, 1)#}"
proof -
  let ?old = "(client_create demo_socket 1)\<lparr>recv_pkt := Some []\<rparr>"
  let ?cl = "?old\<lparr>solutions_queue := [(1, 0)], checking_solution := Some (1, 1)\<rparr>"
  let ?s = "set_client demo_one 2 ?cl"
  have "clients demo_one 2 = Some ?old" by (simp add: demo_one_ok(5))
  from srv_ok_set_client [OF demo_one_ok(1) this, of ?cl] have ok: "srv_ok ?s" by simp
  have a: "2 \<in> set (hash_elts (clients_map ?s))" using demo_one_ok(2) by (simp add: hash_elts_entries)
  have cl: "clients ?s 2 = Some ?cl" by simp
  have "held ?s = held_by ?cl"
    using held_set_client [OF demo_one_ok(1), of 2 ?old ?cl] demo_one_ok(5,8) a
    by (simp add: held_by_def client_create_def)
  then have small: "size (held ?s) < 2 ^ 32" by (simp add: held_by_def)
  obtain pkt where p: "check_packet demo_sln = Inr pkt" by (simp add: check_packet_def demo_sln_def)
  then have len: "length pkt = 17" using check_packet_length [OF p] by (simp add: demo_sln_def)
  have pkt: "rbind (load_sln ?s (1, 0)) check_packet = Inr pkt"
    using p demo_one_ok(4) by (simp add: load_sln_def)
  let ?new = "?cl\<lparr>solutions_queue := [], checking_solution := Some (1, 0), send_pkt := Some pkt\<rparr>"
  have "tx_fair (cl_socket ?new)" by (simp add: tx_fair_def client_create_def demo_socket_def)
  then obtain r cl' where r: "send_retry ?new pkt = Some (r, cl')"
    using send_retry_returns [of ?new pkt] len by (auto simp: client_create_def)
  then obtain status s' where run: "process_solutions ?s 2 = Some (Inr (status, s'))"
    using pkt by (cases r) (auto simp: process_solutions_def obind_def lq_count_def)
  from process_solutions_overwrites [OF ok a cl _ small pkt _ run] len show ?thesis
    by (intro exI [of _ ?cl]) (use run in auto)
qed

text \<open>If no call fails with anything but a timeout or a reset and none accepts zero bytes, the send loop ends.\<close>

lemma process_solutions_returns:
  assumes "srv_ok s" and "a \<in> set (hash_elts (clients_map s))" and "clients s a = Some cl"
    and "tx_fair (cl_socket cl)" and "unat (last_send_delay cl) < 18"
    and "\<forall>p \<in> set (solutions_queue cl). \<exists>pkt. rbind (load_sln s p) check_packet = Inr pkt \<and> length pkt < 2 ^ 32"
  shows "\<exists>status s'. process_solutions s a = Some (Inr (status, s'))"
proof (cases "lq_count (solutions_queue cl) = 0")
  case True
  then show ?thesis using srv_ok_nonnull [OF assms(1,2)] assms(3) by (simp add: process_solutions_def obind_def)
next
  case False
  then obtain p ps where q: "solutions_queue cl = p # ps" by (cases "solutions_queue cl") auto
  with assms(6) obtain pkt where pkt: "rbind (load_sln s p) check_packet = Inr pkt" "length pkt < 2 ^ 32" by auto
  let ?cl = "cl\<lparr>solutions_queue := ps, checking_solution := Some p, send_pkt := Some pkt\<rparr>"
  have "0 < length pkt" using pkt(1) by (auto simp: res_simps dest: check_packet_length)
  then obtain r cl' where "send_retry ?cl pkt = Some (r, cl')"
    using send_retry_returns [of ?cl pkt] assms(4,5) pkt(2) by auto
  then show ?thesis
    using False q pkt(1) assms(3) srv_ok_nonnull [OF assms(1,2)]
    by (cases r) (simp_all add: process_solutions_def obind_def)
qed

text \<open>On any other error that lasts it does not.\<close>

lemma process_solutions_spins:
  assumes "srv_ok s" and "a \<in> set (hash_elts (clients_map s))" and "clients s a = Some cl"
    and "lq_count (solutions_queue cl) \<noteq> 0"
    and "rbind (load_sln s (hd (solutions_queue cl))) check_packet = Inr pkt" and "length pkt < 2 ^ 32"
    and "\<forall>i \<ge> tx_pos (cl_socket cl). sk_tx (cl_socket cl) i = Tx_fail (Other_errno n)"
  shows "process_solutions s a = None"
proof -
  obtain p ps where q: "solutions_queue cl = p # ps" using assms(4) by (cases "solutions_queue cl") auto
  let ?cl = "cl\<lparr>solutions_queue := ps, checking_solution := Some p, send_pkt := Some pkt\<rparr>"
  have "0 < length pkt" using assms(5) by (auto simp: res_simps dest: check_packet_length)
  then have "send_retry ?cl pkt = None"
    using send_retry_spin [of ?cl pkt] assms(6,7) by (cases "send_retry ?cl pkt") auto
  then show ?thesis
    using assms(3,4,5) q srv_ok_nonnull [OF assms(1,2)] by (simp add: process_solutions_def obind_def)
qed

definition broken_socket :: socket where
  "broken_socket = demo_socket\<lparr>sk_tx := (\<lambda>_. Tx_fail (Other_errno 32))\<rparr>"

text \<open>
  C34: when the send loop ends.  If no call fails with anything but a timeout or a reset and none accepts
  zero bytes, \<^verbatim>\<open>process_solutions\<close> returns, after at most three timeouts in the life of the client.  But if from now
  on every call fails with an error that is neither a timeout nor a reset (a broken pipe, for instance), a
  client with a solution in its queue never leaves it: it spins without waiting.
\<close>

theorem process_solutions_ends:
  assumes "srv_ok s" and "a \<in> set (hash_elts (clients_map s))" and "clients s a = Some cl"
    and "\<forall>p \<in> set (solutions_queue cl). \<exists>pkt. rbind (load_sln s p) check_packet = Inr pkt \<and> length pkt < 2 ^ 32"
  shows "(tx_fair (cl_socket cl) \<and> unat (last_send_delay cl) < 18 \<longrightarrow> (\<exists>status s'. process_solutions s a = Some (Inr (status, s'))))
    \<and> (lq_count (solutions_queue cl) \<noteq> 0 \<and> (\<forall>i \<ge> tx_pos (cl_socket cl). sk_tx (cl_socket cl) i = Tx_fail (Other_errno n)) \<longrightarrow>
         process_solutions s a = None)"
proof (intro conjI impI, goal_cases)
  case 1
  then show ?case using process_solutions_returns [OF assms(1-3)] assms(4) by blast
next
  case 2
  then have "solutions_queue cl \<noteq> []" by auto
  then obtain pkt where "rbind (load_sln s (hd (solutions_queue cl))) check_packet = Inr pkt" "length pkt < 2 ^ 32"
    using assms(4) hd_in_set by blast
  then show ?case using process_solutions_spins [OF assms(1-3)] 2 by blast
qed

theorem process_solutions_ends_witness:
  "(\<exists>status s'. process_solutions demo_one 2 = Some (Inr (status, s')))
    \<and> process_solutions (set_client demo_one 2 (client_create broken_socket 1\<lparr>solutions_queue := [(1, 0)]\<rparr>)) 2 = None"
proof
  show "\<exists>status s'. process_solutions demo_one 2 = Some (Inr (status, s'))"
    using process_solutions_ends [OF demo_one_ok(1), of 2] demo_one_ok(2,5)
    by (simp add: hash_elts_entries client_create_def tx_fair_def demo_socket_def)
  let ?cl = "client_create broken_socket 1\<lparr>solutions_queue := [(1, 0)]\<rparr>"
  let ?s = "set_client demo_one 2 ?cl"
  have ok: "srv_ok ?s"
    using srv_ok_set_client [OF demo_one_ok(1), of 2 _ ?cl] demo_one_ok(5) by (simp add: client_create_def)
  have a: "2 \<in> set (hash_elts (clients_map ?s))" using demo_one_ok(2) by (simp add: hash_elts_entries)
  have cl: "clients ?s 2 = Some ?cl" by simp
  have q: "lq_count (solutions_queue ?cl) \<noteq> 0" by (simp add: lq_count_def)
  obtain pkt where p: "check_packet demo_sln = Inr pkt" by (simp add: check_packet_def demo_sln_def)
  then have l: "length pkt = 17" using check_packet_length [OF p] by (simp add: demo_sln_def)
  have "rbind (load_sln ?s (hd (solutions_queue ?cl))) check_packet = Inr pkt"
    using p demo_one_ok(4) by (simp add: load_sln_def)
  moreover have "\<forall>i \<ge> tx_pos (cl_socket ?cl). sk_tx (cl_socket ?cl) i = Tx_fail (Other_errno 32)"
    by (simp add: client_create_def broken_socket_def)
  ultimately show "process_solutions ?s 2 = None" using process_solutions_ends [OF ok a cl, of 32] l q by simp
qed

end
