(* ===== verification/Sessions.thy ===== *)
theory Sessions
  imports Client_Loop
begin

text \<open>
  Properties of a client's session: which handshakes are accepted and which read past the packet, what
  a result packet does, when a silent client is removed and when the loop never ends.
\<close>

section \<open>The handshake\<close>

lemma send_all_in: "send_all sk data len = (n, sk') \<Longrightarrow> sk_in sk' = sk_in sk \<and> sk_rx sk' = sk_rx sk"
proof -
  have "sk_in s' = sk_in s" if "transfer_loop True s data off rem = (n, d, s')" for s data off rem n d s'
    using that
  proof (induction s data off rem arbitrary: n d s' rule: transfer_induct [where do_send = True])
    case (zero s data off)
    then show ?case by (simp add: transfer_loop_0)
  next
    case (fail s data off rem n d s1)
    from fail.hyps(2) have "sk_in s1 = sk_in s"
      by (auto simp: transfer_step_def send_def Let_def split: tx_event.splits)
    then show ?case using fail.prems transfer_loop_stop [OF fail.hyps] by simp
  next
    case (more s data off rem m e s1)
    from more.hyps(2) have "sk_in s1 = sk_in s"
      by (auto simp: transfer_step_def send_def Let_def split: tx_event.splits)
    moreover have "transfer_loop True s1 e (off + nat m) (rem - of_int m) = (n, d, s')"
      using more.prems transfer_loop_go [OF more.hyps(1,2)] more.hyps(3) by simp
    from more.IH [OF this] have "sk_in s' = sk_in s1" .
    ultimately show ?case by simp
  qed
  then show "send_all sk data len = (n, sk') \<Longrightarrow> ?thesis"
    using transfer_loop_rx by (auto simp: send_all_def transfer_all_def split: prod.splits)
qed

text \<open>A connection that delivers a 16-bit length and that many bytes.\<close>

definition delivers :: "socket \<Rightarrow> u8 list \<Rightarrow> u8 list \<Rightarrow> bool" where
  "delivers sk body rest \<longleftrightarrow> (\<forall>i. \<exists>k>0. sk_rx sk i = Avail k) \<and> length body < 65536
     \<and> sk_in sk = be16 (of_nat (length body)) @ body @ rest"

lemma delivers_length:
  assumes "delivers sk body rest"
  shows "\<exists>sk'. recv_all sk [x, y] 2 = (2, be16 (of_nat (length body)), sk')
    \<and> (\<forall>i. \<exists>k>0. sk_rx sk' i = Avail k) \<and> sk_in sk' = body @ rest"
  using recv_all_complete [of sk 2 "[x, y]"] assms by (auto simp: delivers_def be16_def)

lemma delivers_body:
  assumes "\<forall>i. \<exists>k>0. sk_rx sk i = Avail k" and "sk_in sk = body @ rest" and "length body < 65536"
    and "length buf = length body"
  shows "\<exists>sk'. recv_all sk buf (ucast (of_nat (length body) :: u16)) = (int (length body), body, sk')
    \<and> sk_in sk' = rest"
proof -
  have u: "unat (of_nat (length body) :: u16) = length body" using assms(3) by (intro unat_of_nat_small) simp
  then have "unat (ucast (of_nat (length body) :: u16) :: u32) = length body"
    using assms(3) by (simp add: unsigned_ucast_eq take_bit_nat_eq_self)
  with recv_all_complete [OF assms(1), of "ucast (of_nat (length body) :: u16)" buf] assms(2,4) show ?thesis by auto
qed

lemma be16_reads: "ntohs (load16 (be16 w ! 0) (be16 w ! Suc 0)) = w"
  by (simp add: be16_def ntohs_load16_be16)

lemma read_compilers_be16:
  "length pre = off \<Longrightarrow> read_compilers (pre @ concat (map be16 ids) @ post) off (length ids) = Inr ids"
proof (induction ids arbitrary: pre off)
  case Nil
  then show ?case by simp
next
  case (Cons c ids)
  have "rbind (read16 (pre @ be16 c @ concat (map be16 ids) @ post) off) (\<lambda>v. Inr (ntohs v)) = Inr c"
    using Cons.prems by (rule read16_be16)
  moreover have "read_compilers ((pre @ be16 c) @ concat (map be16 ids) @ post) (off + 2) (length ids) = Inr ids"
    using Cons.prems by (intro Cons.IH) simp
  ultimately show ?case by (auto simp: res_simps)
qed

lemma read_compilers_short:
  "0 < n \<Longrightarrow> length pkt < off + 2 * n \<Longrightarrow> read_compilers pkt off n = Inl Out_of_bounds"
proof (induction n arbitrary: off)
  case 0
  then show ?case by simp
next
  case (Suc n)
  then show ?case by (cases n) (auto simp: read16_def)
qed

lemma handshake_reads:
  assumes "delivers ep body rest"
  shows "\<exists>n sk0 sk1 sk2. send_all ep welcome_pkt 3 = (n, sk0)
    \<and> recv_all sk0 [0, 0] 2 = (2, be16 (of_nat (length body)), sk1)
    \<and> recv_all sk1 (replicate (unat (of_nat (length body) :: u16)) 0) (ucast (of_nat (length body) :: u16))
        = (int (unat (of_nat (length body) :: u16)), body, sk2)
    \<and> sk_in sk2 = rest"
proof -
  obtain n sk0 where s0: "send_all ep welcome_pkt 3 = (n, sk0)" by fastforce
  then have "delivers sk0 body rest" using assms send_all_in by (simp add: delivers_def)
  then obtain sk1 where s1: "recv_all sk0 [0, 0] 2 = (2, be16 (of_nat (length body)), sk1)"
      "\<forall>i. \<exists>k>0. sk_rx sk1 i = Avail k" "sk_in sk1 = body @ rest"
    using delivers_length by blast
  have len: "length body < 65536" using assms by (simp add: delivers_def)
  then have u: "unat (of_nat (length body) :: u16) = length body" by (intro unat_of_nat_small) simp
  from delivers_body [OF s1(2,3) len, of "replicate (length body) 0"] obtain sk2 where
    s2: "recv_all sk1 (replicate (length body) 0) (ucast (of_nat (length body) :: u16)) = (int (length body), body, sk2)"
      "sk_in sk2 = rest" by auto
  then show ?thesis using s0 s1(1) u by auto
qed

lemma handshake_delivers:
  assumes "delivers ep body rest"
  shows "\<exists>sk. sk_in sk = rest \<and> handshake junk s ep =
    rbind (read8 body 0) (\<lambda>op_code.
      if op_code \<noteq> OP_COMPILERS_LIST then reject s sk
      else rbind (read8 body 1) (\<lambda>compilers_count.
        rbind (read_compilers body 2 (unat compilers_count)) (\<lambda>compilers_ids.
        rbind (register s sk body (map (\<lambda>(i, c). (c, junk i)) (enumerate 0 compilers_ids)))
          (\<lambda>s'. Inr (Some (next_addr s), s')))))"
  using handshake_reads [OF assms] by (elim exE conjE) (auto simp: handshake_def be16_reads intro!: exI)

text \<open>
  C22: the handshake.  Over a connection that delivers the packet, however it is cut into pieces, a
  client that announces compilers in the documented layout is registered under exactly these compilers,
  and the bytes after its packet are left for the main loop.
\<close>

theorem handshake_registers:
  assumes "delivers ep ([OP_COMPILERS_LIST, of_nat (length ids)] @ concat (map be16 ids)) rest"
    and "length ids < 256"
  shows "\<exists>sk. sk_in sk = rest \<and> handshake junk s ep
    = rbind (register s sk ([OP_COMPILERS_LIST, of_nat (length ids)] @ concat (map be16 ids))
        (map (\<lambda>(i, c). (c, junk i)) (enumerate 0 ids))) (\<lambda>s'. Inr (Some (next_addr s), s'))"
proof -
  let ?body = "[OP_COMPILERS_LIST, of_nat (length ids)] @ concat (map be16 ids)"
  have "unat (of_nat (length ids) :: u8) = length ids" using assms(2) by (intro unat_of_nat_small) simp
  moreover have "read_compilers ?body 2 (length ids) = Inr ids"
    using read_compilers_be16 [of "[OP_COMPILERS_LIST, of_nat (length ids)]" 2 ids "[]"] by simp
  ultimately show ?thesis
    using handshake_delivers [OF assms(1), of junk s] by (simp add: read8_def)
qed

theorem handshake_registers_witness:
  "\<exists>s'. handshake (\<lambda>_. (0, 0)) demo_start
      (demo_socket\<lparr>sk_in := [0, 4, 0x89, 1, 0, 1], sk_rx := \<lambda>_. Avail 3\<rparr>) = Inr (Some 2, s') \<and> srv_ok s'"
proof -
  let ?ep = "demo_socket\<lparr>sk_in := [0, 4, 0x89, 1, 0, 1], sk_rx := \<lambda>_. Avail 3\<rparr>"
  have "delivers ?ep ([OP_COMPILERS_LIST, of_nat (length [1 :: u16])] @ concat (map be16 [1])) []"
    by (simp add: delivers_def be16_def)
  from handshake_registers [OF this, of "\<lambda>_. (0, 0)" demo_start] obtain sk where
    h: "handshake (\<lambda>_. (0, 0)) demo_start ?ep
      = rbind (register demo_start sk [0x89, 1, 0, 1] [(1, 0, 0)]) (\<lambda>s'. Inr (Some (next_addr demo_start), s'))"
    by (auto simp: be16_def)
  have "hash_room (clients_map demo_start)" "cspace (length [(1, 0, 0)]) (length [(1, 0, 0)]) demo_start"
    by (simp_all add: demo_start_def server_init_def hash_room_def cspace_def)
  from register_ok [OF demo_start_ok this, of sk "[0x89, 1, 0, 1]"] h show ?thesis
    by (auto simp: demo_start_def)
qed

text \<open>
  C37: the handshake trusts the compiler count.  If the packet announces more compilers than it has
  bytes for, or is empty or has only the opcode, the loop reads beyond the buffer the packet is in.
\<close>

theorem handshake_overread:
  assumes "delivers ep body rest"
    and "body = [] \<or> body = [OP_COMPILERS_LIST]
      \<or> (\<exists>count bs. body = OP_COMPILERS_LIST # count # bs \<and> length bs < 2 * unat count)"
  shows "handshake junk s ep = Inl Out_of_bounds"
proof -
  have "read_compilers (OP_COMPILERS_LIST # count # bs) 2 (unat count) = Inl Out_of_bounds"
    if "length bs < 2 * unat count" for count bs
    using that by (intro read_compilers_short) auto
  then show ?thesis
    using handshake_delivers [OF assms(1), of junk s] assms(2) by (auto simp: read8_def)
qed

theorem handshake_overread_witness:
  "handshake (\<lambda>_. (0, 0)) demo_start
      (demo_socket\<lparr>sk_in := [0, 3, 0x89, 9, 1], sk_rx := \<lambda>_. Avail 1\<rparr>) = Inl Out_of_bounds"
  by (rule handshake_overread [of _ "[0x89, 9, 1]" "[]"]) (simp_all add: delivers_def be16_def)

section \<open>Results\<close>

text \<open>The verdict of a result code: the value of \<^verbatim>\<open>ac\<close> and the response text.\<close>

definition verdict :: "u8 \<Rightarrow> u8 \<Rightarrow> (8 word \<times> string) option" where
  "verdict code test =
     (if code = 0 then Some (1, ''AC'')
      else if unat code < 6 then
        Some (0, [''WA '', ''MLE '', ''TLE '', ''PE '', ''RE ''] ! (unat code - 1) @ show_u (unat test))
      else if code = 6 then Some (0, ''FL'')
      else if code = 7 then Some (0, ''CE'')
      else None)"

lemma length_show_u8: "length (show_u (unat (w :: u8))) \<le> 3"
  by (rule length_show_u) (use unsigned_less [of w, where 'a = nat] in simp_all)

lemma verdict_text_fits:
  assumes "length kind \<le> 3"
  shows "verdict_text kind t = kind @ '' '' @ show_u (unat t)"
  unfolding verdict_text_def by (rule snprintf_fits) (use assms length_show_u8 [of t] in simp)

lemma unat_code_cases:
  "unat (code :: u8) < 6 \<longleftrightarrow> code \<in> {0, 1, 2, 3, 4, 5}"
proof -
  have "unat code < 6 \<longleftrightarrow> unat code \<in> {0, 1, 2, 3, 4, 5}" by auto
  also have "\<dots> \<longleftrightarrow> code \<in> {0, 1, 2, 3, 4, 5}" by (auto simp: word_unat_eq_iff)
  finally show ?thesis .
qed

lemma post_result_verdict:
  "post_result api d i code test = (case verdict code test of
     None \<Rightarrow> d | Some (ac, text) \<Rightarrow> snd (solution_post_result api d i ac text))"
  by (simp add: post_result_def verdict_def unat_code_cases verdict_text_fits)

lemma verdict_length: "verdict code test = Some (ac, text) \<Longrightarrow> length text \<le> 10 \<and> ac \<in> {0, 1}"
  using length_show_u8 [of test]
  by (auto simp: verdict_def unat_code_cases split: if_splits)

text \<open>
  What a result writes.  For the codes 0 to 7 exactly one statement is sent, which sets the verdict
  and its text (with the test number for WA, MLE, TLE, PE and RE) on the reported id; neither the 10-byte
  text buffer nor the 100-byte statement buffer ever cuts it off.  Other codes send nothing.
\<close>

theorem post_result_statement:
  "sent (post_result api d i code test) = sent d @ (case verdict code test of
     None \<Rightarrow> []
   | Some (ac, text) \<Rightarrow> [''update solutions set checking = 2, ac = '' @ (if ac = 0 then ''0'' else ''1'')
       @ '', response = '' @ [CHR 0x27] @ text @ [CHR 0x27] @ '' where id = '' @ show_u (unat i)])"
proof (cases "verdict code test")
  case None
  then show ?thesis by (simp add: post_result_verdict)
next
  case (Some v)
  then obtain ac resp where v: "v = (ac, resp)" "length resp \<le> 10" "ac \<in> {0, 1}"
    using verdict_length by (cases v) blast
  moreover have "show_u 0 = ''0''" "show_u 1 = ''1''" by code_simp+
  ultimately have "show_u (unat (scast ac :: u32)) = (if ac = 0 then ''0'' else ''1'')" by auto
  then show ?thesis
    using Some v result_query_fits [OF v(2)]
    by (simp add: post_result_verdict solution_post_result_def query_sent)
qed

lemma read_result:
  assumes "pkt = OP_RESULT # be32 i @ code # test # tl_bytes"
  shows "read8 pkt 0 = Inr OP_RESULT" "rbind (read32 pkt 1) (\<lambda>v. Inr (ntohl v)) = Inr i"
    "read8 pkt 5 = Inr code" "read8 pkt 6 = Inr test"
  using read32_be32 [of "[OP_RESULT]" 1 i "code # test # tl_bytes"] assms
  by (simp_all add: read8_def be32_def)

lemma handle_result:
  assumes "pkt = OP_RESULT # be32 i @ code # test # tl_bytes" and "a \<noteq> NULL" and "clients s a = Some cl"
  shows "handle_packet api s a pkt = solution_free
    (set_client (s\<lparr>db := post_result api (db s) i code test\<rparr>) a (cl\<lparr>checking_solution := None\<rparr>))
    (checking_solution cl)"
proof -
  obtain w where "read32 pkt 1 = Inr w" "ntohl w = i"
    using read_result(2) [OF assms(1)] by (auto simp: res_simps)
  then show ?thesis using read_result [OF assms(1)] assms(2,3) by (simp add: handle_packet_def)
qed

text \<open>
  C36: releasing a checked solution.  Solutions are fetched as one array, but a result releases the
  solution it belongs to on its own.  For any but the first of the array this passes \<^verbatim>\<open>free\<close> a pointer
  that \<^verbatim>\<open>malloc\<close> never returned.  For the first it releases the whole array: every other solution of the
  same fetch, queued or being checked anywhere, is a dangling pointer from then on.
\<close>

theorem result_frees_batch:
  assumes "pkt = OP_RESULT # be32 i @ code # test # tl_bytes" and "a \<noteq> NULL" and "clients s a = Some cl"
    and "checking_solution cl = Some (b, j)" and "load_sln s (b, j) = Inr v"
  shows "if j = 0
    then \<exists>s'. handle_packet api s a pkt = Inr s' \<and> (\<forall>k. load_sln s' (b, k) = Inl Use_after_free)
      \<and> db s' = post_result api (db s) i code test
      \<and> clients s' = (clients s)(a \<mapsto> cl\<lparr>checking_solution := None\<rparr>)
    else handle_packet api s a pkt = Inl Invalid_free"
proof -
  let ?s = "set_client (s\<lparr>db := post_result api (db s) i code test\<rparr>) a (cl\<lparr>checking_solution := None\<rparr>)"
  have "load_sln ?s (b, j) = Inr v" using assms(5) by (simp add: load_sln_def)
  moreover have "b \<noteq> NULL" using assms(5) by (auto simp: load_sln_def res_simps)
  ultimately show ?thesis
    using handle_result [OF assms(1-3), of api] assms(4)
    by (simp add: solution_free_def) (simp add: load_sln_def deref_def)
qed

theorem result_frees_batch_witness:
  "handle_packet demo_api (set_client demo_one 2 (client_create demo_socket 1\<lparr>checking_solution := Some (1, 1)\<rparr>)) 2
    [109, 0, 0, 0, 7, 0, 0] = Inl Invalid_free"
proof -
  let ?cl = "client_create demo_socket 1\<lparr>checking_solution := Some (1, 1)\<rparr>"
  have b: "be32 7 = [0, 0, 0, 7]" by (simp add: be32_def)
  have "load_sln (set_client demo_one 2 ?cl) (1, 1) = Inr demo_sln"
    using demo_one_ok(4) by (simp add: load_sln_def)
  then show ?thesis
    using result_frees_batch [of "[109, 0, 0, 0, 7, 0, 0]" 7 0 0 "[]" 2 "set_client demo_one 2 ?cl" ?cl 1 1 demo_sln demo_api] by (simp add: b)
qed

section \<open>Silence\<close>

lemma recv_all_first_fails:
  assumes "sk_rx sk (rx_pos sk) = Rx_fail e"
  shows "recv_all sk buf 2 = (-1, buf, sk\<lparr>rx_pos := Suc (rx_pos sk), sk_errno := e\<rparr>)"
  using assms by (simp add: recv_all_def transfer_all_def transfer_loop.simps transfer_step_def recv_def)

text \<open>One round in which nothing arrives: the state of the client after it.\<close>

definition waited :: "client_t \<Rightarrow> client_t" where
  "waited cl = cl\<lparr>cl_socket := (cl_socket cl)\<lparr>rx_pos := Suc (rx_pos (cl_socket cl)), sk_errno := EAGAIN\<rparr>,
     last_recv_delay := last_recv_delay cl + RECV_TIMEOUT_SEC\<rparr>"

lemma silent_round:
  assumes "a \<noteq> NULL" and "clients s a = Some cl" and "solutions_queue cl = []" and "checking_solution cl \<noteq> None"
    and "sk_rx (cl_socket cl) (rx_pos (cl_socket cl)) = Rx_fail EAGAIN"
  shows "client_round api s a i =
    (if last_recv_delay cl + 5 \<ge> 25 then remove_and_break api (set_client s a (waited cl)) i
     else Some (Inr (True, set_client s a (waited cl))))"
  using assms recv_all_first_fails [OF assms(5), of "[0, 0]"]
  by (simp add: client_round_def process_solutions_def receive_round_def obind_def recv_timed_out_def waited_def)

lemma main_loop_remove:
  assumes "server_running s" and "client_round api s a i = remove_and_break api s' i"
  shows "main_loop api s a i = remove_client api s' i"
  using assms
  by (subst main_loop.simps) (auto simp: remove_and_break_def obind_def split: option.splits sum.splits)

lemma main_loop_silent:
  assumes "a \<noteq> NULL" and "clients s a = Some cl" and "solutions_queue cl = []" and "checking_solution cl \<noteq> None"
    and "\<forall>j. sk_rx (cl_socket cl) j = Rx_fail EAGAIN" and "server_running s"
    and "unat (last_recv_delay cl) + 5 * Suc n = 25"
  shows "main_loop api s a i = remove_client api (set_client s a ((waited ^^ Suc n) cl)) i"
  using assms
proof (induction n arbitrary: s cl)
  case 0
  then have "last_recv_delay cl = 20" by (simp add: word_unat_eq_iff)
  then show ?case
    using 0 silent_round [of a s cl api i] main_loop_remove [of s api a i "set_client s a (waited cl)"]
    by (simp add: fun_upd_def)
next
  case (Suc n)
  have d: "unat (last_recv_delay cl + 5) = unat (last_recv_delay cl) + 5"
    using Suc.prems(7) by (simp add: unat_word_ariths)
  then have "\<not> last_recv_delay cl + 5 \<ge> 25" using Suc.prems(7) by (simp add: word_le_nat_alt)
  then have "client_round api s a i = Some (Inr (True, set_client s a (waited cl)))"
    using silent_round [of a s cl api i] Suc.prems by simp
  then have "main_loop api s a i = main_loop api (set_client s a (waited cl)) a i"
    using Suc.prems(6) by (subst main_loop.simps) simp
  also have "\<dots> = remove_client api (set_client (set_client s a (waited cl)) a ((waited ^^ Suc n) (waited cl))) i"
    using Suc.prems d by (intro Suc.IH) (simp_all add: waited_def)
  finally show ?case by (simp add: funpow_swap1) (simp add: fun_upd_def)
qed

text \<open>\<open>n\<close> turns of the loop of \<^verbatim>\<open>main_loop\<close> in a row, as long as they go on.\<close>

fun rounds :: "'c mysql_api \<Rightarrow> 'c server \<Rightarrow> addr \<Rightarrow> u32 \<Rightarrow> nat \<Rightarrow> (bool \<times> 'c server) res option" where
  "rounds api s a i 0 = Some (Inr (True, s))"
| "rounds api s a i (Suc n) = (case rounds api s a i n of
     Some (Inr (True, s')) \<Rightarrow> client_round api s' a i
   | r \<Rightarrow> r)"

lemma waited_n:
  "cl_id ((waited ^^ n) cl) = cl_id cl" "held_by ((waited ^^ n) cl) = held_by cl"
  "solutions_queue ((waited ^^ n) cl) = solutions_queue cl" "checking_solution ((waited ^^ n) cl) = checking_solution cl"
  "sk_rx (cl_socket ((waited ^^ n) cl)) = sk_rx (cl_socket cl)"
  "rx_pos (cl_socket ((waited ^^ n) cl)) = rx_pos (cl_socket cl) + n"
  "last_recv_delay ((waited ^^ n) cl) = last_recv_delay cl + 5 * of_nat n"
  by (induction n) (simp_all add: waited_def held_by_def algebra_simps)

lemma silent_rounds:
  assumes "a \<noteq> NULL" and "clients s a = Some cl" and "solutions_queue cl = []" and "checking_solution cl \<noteq> None"
    and "\<forall>j. sk_rx (cl_socket cl) j = Rx_fail EAGAIN" and "last_recv_delay cl = 0" and "n < 5"
  shows "rounds api s a i n = Some (Inr (True, set_client s a ((waited ^^ n) cl)))
    \<and> rounds api s a i (Suc n) = (if n = 4 then remove_and_break api (set_client s a ((waited ^^ Suc n) cl)) i
         else Some (Inr (True, set_client s a ((waited ^^ Suc n) cl))))"
  using assms(7)
proof (induction n)
  case 0
  have "set_client s a cl = s" using assms(2) by (simp add: fun_upd_idem)
  then show ?case using silent_round [OF assms(1-4) spec [OF assms(5)], of api i] assms(6) by (simp del: fun_upd_apply)
next
  case (Suc n)
  let ?s = "set_client s a ((waited ^^ Suc n) cl)"
  have r: "rounds api s a i (Suc n) = Some (Inr (True, ?s))" using Suc by (simp del: rounds.simps)
  consider "n = 0" | "n = 1" | "n = 2" | "n = 3" using Suc.prems by linarith
  then have "last_recv_delay ((waited ^^ Suc n) cl) + 5 \<ge> 25 \<longleftrightarrow> n = 3"
    unfolding waited_n(7) assms(6) by cases (simp_all del: funpow.simps)
  then have late: "last_recv_delay ((waited ^^ Suc n) cl) + 5 \<ge> 25 \<longleftrightarrow> Suc n = 4" by simp
  have again: "set_client ?s a (waited ((waited ^^ Suc n) cl)) = set_client s a ((waited ^^ Suc (Suc n)) cl)" by simp
  have "client_round api ?s a i
      = (if last_recv_delay ((waited ^^ Suc n) cl) + 5 \<ge> 25 then remove_and_break api (set_client ?s a (waited ((waited ^^ Suc n) cl))) i
         else Some (Inr (True, set_client ?s a (waited ((waited ^^ Suc n) cl)))))"
    using assms(1,3,4,5) by (intro silent_round) (simp_all del: funpow.simps add: waited_n)
  note round = this [unfolded late again]
  show ?case unfolding rounds.simps(2) [of api s a i "Suc n"] r round [symmetric] by (simp del: fun_upd_apply)
qed

text \<open>
  C33: a client that is checking a solution and stays silent is removed by its fifth receive timeout,
  that is after 25 seconds, and no earlier and no later.  Every turn of its loop waits in one receive call that times out
  after 5 seconds.  The first four turns go on and do nothing but add 5 seconds to the delay: after \<open>k < 5\<close> of
  them the client is still there, with \<open>k\<close> calls made and a delay of \<open>5 k\<close>.  The fifth removes the client from the table and
  ends the loop.  (The delay is not set back when a result arrives, only when a timeout finds the client idle.)
\<close>

theorem silent_client_removed:
  assumes "srv_ok s" and "HASH_FIND (clients_map s) (store32 i) = Some a" and "clients s a = Some cl"
    and "solutions_queue cl = []" and "checking_solution cl = Some p" and "live s p"
    and "\<forall>j. sk_rx (cl_socket cl) j = Rx_fail EAGAIN" and "server_running s"
    and "last_recv_delay cl = 0" and "size (held s) < 2 ^ 32"
  shows "(\<forall>k < 5. \<exists>cl'. rounds api s a i k = Some (Inr (True, set_client s a cl'))
        \<and> last_recv_delay cl' = 5 * of_nat k \<and> rx_pos (cl_socket cl') = rx_pos (cl_socket cl) + k
        \<and> held_by cl' = held_by cl)
    \<and> (\<exists>s'. rounds api s a i 5 = Some (Inr (False, s')) \<and> main_loop api s a i = Some (Inr s')
        \<and> srv_ok s' \<and> clients s' a = None
        \<and> hash_entries (clients_map s') = filter (\<lambda>e. snd e \<noteq> a) (hash_entries (clients_map s)))"
proof -
  have a: "a \<in> set (hash_elts (clients_map s))" "a \<noteq> NULL"
    using srv_ok_find_client [OF assms(1,2)] by metis+
  have busy: "checking_solution cl \<noteq> None" using assms(5) by simp
  note run = silent_rounds [OF a(2) assms(3,4) busy assms(7,9), of _ api i]
  let ?cl = "(waited ^^ Suc 4) cl"
  let ?s = "set_client s a ?cl"
  have "main_loop api s a i = remove_client api ?s i"
    using main_loop_silent [OF a(2) assms(3,4) busy assms(7,8), of 4 api i] assms(9) by simp
  moreover have "rounds api s a i (Suc 4) = remove_and_break api ?s i" using run [of 4] by simp
  moreover have "srv_ok ?s" using srv_ok_set_client [OF assms(1,3) waited_n(1)] .
  moreover have "held ?s = held s" using held_set_client [OF assms(1) a(1) assms(3), of ?cl] waited_n(2) by simp
  moreover have "\<forall>q \<in># held_at ?s a. live ?s q"
    using waited_n(2) [of "Suc 4" cl] assms(4,5,6) by (simp add: held_at_def held_by_def live_def load_sln_def)
  ultimately have "\<exists>s'. rounds api s a i (Suc 4) = Some (Inr (False, s')) \<and> main_loop api s a i = Some (Inr s')
        \<and> srv_ok s' \<and> clients s' a = None
        \<and> hash_entries (clients_map s') = filter (\<lambda>e. snd e \<noteq> a) (hash_entries (clients_map s))"
    using remove_client_ok [of ?s i a api] assms(2,10) by (auto simp: remove_and_break_def obind_def)
  moreover have "\<exists>cl'. rounds api s a i k = Some (Inr (True, set_client s a cl')) \<and> last_recv_delay cl' = 5 * of_nat k
      \<and> rx_pos (cl_socket cl') = rx_pos (cl_socket cl) + k \<and> held_by cl' = held_by cl" if "k < 5" for k
    using run [OF that] assms(9) by (intro exI [of _ "(waited ^^ k) cl"]) (simp add: waited_n)
  ultimately show ?thesis by (simp add: eval_nat_numeral)
qed

definition silent_client :: client_t where
  "silent_client = client_create (demo_socket\<lparr>sk_rx := \<lambda>_. Rx_fail EAGAIN\<rparr>) 1\<lparr>checking_solution := Some (1, 0)\<rparr>"

theorem silent_client_removed_witness:
  "\<exists>s'. rounds demo_api (set_client demo_one 2 silent_client) 2 1 5 = Some (Inr (False, s'))
    \<and> main_loop demo_api (set_client demo_one 2 silent_client) 2 1 = Some (Inr s') \<and> clients s' 2 = None"
proof -
  let ?s = "set_client demo_one 2 silent_client"
  have old: "clients demo_one 2 = Some ((client_create demo_socket 1)\<lparr>recv_pkt := Some []\<rparr>)"
    by (simp add: demo_one_ok(5))
  have ok: "srv_ok ?s"
    using srv_ok_set_client [OF demo_one_ok(1) old, of silent_client]
    by (simp add: silent_client_def client_create_def)
  have "2 \<in> set (hash_elts (clients_map demo_one))" by (simp add: demo_one_ok(2) hash_elts_entries)
  then have "held ?s = held_by silent_client"
    using held_set_client [OF demo_one_ok(1) _ old, of silent_client] demo_one_ok(8)
    by (simp add: held_by_def client_create_def)
  then have "size (held ?s) < 2 ^ 32" by (simp add: held_by_def silent_client_def client_create_def)
  moreover have "server_running demo_one" by (rule demo_one_running)
  moreover have "live ?s (1, 0)" by (simp add: live_def load_sln_def demo_one_ok(4))
  ultimately show ?thesis
    using silent_client_removed [OF ok, of 1 2 silent_client "(1, 0)" demo_api] demo_find
    by (auto simp: silent_client_def client_create_def)
qed

text \<open>When the peer has shut down, \<^verbatim>\<open>recv\<close> returns 0 and leaves \<^verbatim>\<open>errno\<close> as it was.\<close>

definition gone :: "client_t \<Rightarrow> bool" where
  "gone cl \<longleftrightarrow> solutions_queue cl = [] \<and> checking_solution cl = None \<and> sk_in (cl_socket cl) = []
     \<and> (\<forall>i. \<exists>k. sk_rx (cl_socket cl) i = Avail k) \<and> sk_errno (cl_socket cl) \<noteq> ECONNRESET"

lemma gone_round:
  assumes "a \<noteq> NULL" and "clients s a = Some cl" and "gone cl"
  shows "\<exists>cl'. client_round api s a i = Some (Inr (True, set_client s a cl')) \<and> gone cl'"
proof -
  obtain k where "sk_rx (cl_socket cl) (rx_pos (cl_socket cl)) = Avail k" using assms(3) by (auto simp: gone_def)
  then have "recv_all (cl_socket cl) [0, 0] 2
      = (0, [0, 0], (cl_socket cl)\<lparr>sk_in := [], rx_pos := Suc (rx_pos (cl_socket cl))\<rparr>)"
    using assms(3) by (simp add: gone_def recv_all_def transfer_all_def transfer_loop.simps transfer_step_def recv_def)
  moreover define sk where "sk = (cl_socket cl)\<lparr>sk_in := [], rx_pos := Suc (rx_pos (cl_socket cl))\<rparr>"
  moreover define cl' where "cl' = (if sk_errno sk = EAGAIN \<and> last_recv_delay cl > 0
      then cl\<lparr>cl_socket := sk, last_recv_delay := 0\<rparr> else cl\<lparr>cl_socket := sk\<rparr>)"
  moreover have "sk_errno sk \<noteq> ECONNRESET" using assms(3) by (simp add: gone_def sk_def)
  ultimately have "client_round api s a i = Some (Inr (True, set_client s a cl'))"
    using assms by (simp add: client_round_def process_solutions_def receive_round_def obind_def
        recv_timed_out_def gone_def Let_def)
  moreover have "gone cl'" using assms(3) by (simp add: gone_def cl'_def sk_def)
  ultimately show ?thesis by blast
qed

text \<open>
  C35: a client that disconnects in an orderly way while it has nothing to do is never removed.  The
  end of the stream is taken for an error and judged by the \<^verbatim>\<open>errno\<close> of some earlier call; unless that
  was a reset, the loop runs on without waiting, for as long as the server runs.
\<close>

theorem orderly_close_spins:
  assumes "a \<noteq> NULL" and "clients s a = Some cl" and "gone cl" and "server_running s"
  shows "main_loop api s a i = None"
proof -
  have "\<not> (server_running s \<and> a \<noteq> NULL \<and> (\<exists>cl. clients s a = Some cl \<and> gone cl))"
    if "main_loop api s a i = Some r" for api s a i r
    using that
  proof (rule main_loop.raw_induct [rotated], intro notI, elim conjE exE)
    fix loop and api :: "'z mysql_api" and s a i r cl
    assume IH: "\<And>api s a i r. loop api s a i = Some r \<Longrightarrow>
        \<not> (server_running s \<and> a \<noteq> NULL \<and> (\<exists>cl. clients s a = Some cl \<and> gone cl))"
      and run: "(if server_running s
      then (case client_round api s a i of
          None \<Rightarrow> None
        | Some (Inl e) \<Rightarrow> Some (Inl e)
        | Some (Inr (go_on, s')) \<Rightarrow> if go_on then loop api s' a i else Some (Inr s'))
      else Some (Inr s)) = Some r"
      and s: "server_running s" "a \<noteq> NULL" "clients s a = Some cl" "gone cl"
    from gone_round [OF s(2-4), of api i] obtain cl' where
      "client_round api s a i = Some (Inr (True, set_client s a cl'))" "gone cl'" by blast
    with run s(1) have "loop api (set_client s a cl') a i = Some r" by simp
    from IH [OF this] s(1,2) \<open>gone cl'\<close> show False by simp
  qed
  then have "main_loop api s a i \<noteq> Some r" for r using assms by blast
  then show ?thesis by auto
qed

theorem orderly_close_spins_witness:
  "main_loop demo_api demo_one 2 1 = None"
proof -
  have "gone ((client_create demo_socket 1)\<lparr>recv_pkt := Some []\<rparr>)"
    by (simp add: gone_def client_create_def demo_socket_def)
  with demo_one_running show ?thesis
    using orderly_close_spins [of 2 demo_one "(client_create demo_socket 1)\<lparr>recv_pkt := Some []\<rparr>" demo_api 1]
    by (simp add: demo_one_ok(5))
qed

end
