(* ===== verification/Polling.thy ===== *)
theory Polling
  imports Registry
begin

text \<open>
  \<^verbatim>\<open>poll_database\<close>: every five seconds the new solutions are fetched as one array and each of them is
  pushed to a client.  The other threads run while the polling thread sleeps; what they do to the
  shared state is an argument of the loop.
\<close>

section \<open>The loop\<close>

text \<open>\<^verbatim>\<open>for(uint64 i = 0; i < count; i++) push_solution(&new_solutions[i])\<close>, from the index \<open>i\<close> on.\<close>

function push_batch :: "'c mysql_api \<Rightarrow> 'c server \<Rightarrow> addr \<Rightarrow> u64 \<Rightarrow> u64 \<Rightarrow> 'c server res" where
  "push_batch api s new_solutions i n_slns =
     (if i < n_slns
      then rbind (push_solution api s (new_solutions, unat i)) (\<lambda>(_, s'). push_batch api s' new_solutions (i + 1) n_slns)
      else Inr s)"
  by pat_completeness auto
termination
proof (relation "measure (\<lambda>(api, s, b, i, n). unat n - unat i)", simp, clarsimp)
  fix i n_slns :: u64
  assume "i < n_slns"
  then have "unat (i + 1) = Suc (unat i)" "unat i < unat n_slns"
    by (simp_all add: unat_succ_less word_less_nat_alt)
  then show "unat n_slns - unat (i + 1) < unat n_slns - unat i" by simp
qed

declare push_batch.simps [simp del]

text \<open>
  One turn of the loop after the sleep.  The array stays allocated when the call fails after it was
  made, and \<^verbatim>\<open>count\<close> is written whenever the call succeeds.
\<close>

definition store_batch :: "'c server \<Rightarrow> solution_t list option \<Rightarrow> 'c server" where
  "store_batch s arr = (case arr of
     None \<Rightarrow> s
   | Some slns \<Rightarrow> s\<lparr>sln_mem := (sln_mem s)(next_addr s \<mapsto> slns), next_addr := Suc (next_addr s)\<rparr>)"

definition poll_round :: "'c mysql_api \<Rightarrow> 'c server \<Rightarrow> 'c server res" where
  "poll_round api s =
     rbind (solutions_extract_new api (db s) False) (\<lambda>(result, arr, len, d).
       let s1 = store_batch (s\<lparr>db := d\<rparr>) arr in
       if result \<noteq> 0 then Inr s1
       else push_batch api s1 (next_addr s) 0 (case len of None \<Rightarrow> 0 | Some n_slns \<Rightarrow> n_slns))"

partial_function (option) poll_loop ::
  "'c mysql_api \<Rightarrow> (nat \<Rightarrow> 'c server \<Rightarrow> 'c server) \<Rightarrow> nat \<Rightarrow> 'c server \<Rightarrow> 'c server res option" where
  "poll_loop api others n s =
     (if server_running s
      then (case poll_round api (others n s) of
          Inl e \<Rightarrow> Some (Inl e)
        | Inr s' \<Rightarrow> poll_loop api others (Suc n) s')
      else Some (Inr s))"

text \<open>
  The whole thread: nothing is polled when the connection fails; the connection is closed at the end.
  The outer \<open>None\<close> is a thread that does not end, or an \<^verbatim>\<open>assert\<close> that fails.
\<close>

definition poll_database ::
  "'c mysql_api \<Rightarrow> (nat \<Rightarrow> 'c server \<Rightarrow> 'c server) \<Rightarrow> 'c db_module \<Rightarrow> 'c server \<Rightarrow> ('c db_module \<times> 'c server) res option" where
  "poll_database api others m s = (case solutions_init_db api m of
     None \<Rightarrow> None
   | Some (status, m') \<Rightarrow>
       if status = ERR_DB then Some (Inr (m', s))
       else (case connection m' of
           None \<Rightarrow> Some (Inl Null_deref)
         | Some d \<Rightarrow> obind (poll_loop api others 0 (s\<lparr>db := d\<rparr>)) (\<lambda>s'. Some (Inr (solutions_close_db m', s')))))"

section \<open>What a batch does\<close>

lemma NULL_not_listed: "srv_ok s \<Longrightarrow> NULL \<notin> set (hash_elts (clients_map s))"
  by (metis srv_ok_client)

lemma push_batch_ok:
  assumes "srv_ok s" and "sln_mem s b = Some slns" and "b \<noteq> NULL" and "unat n_slns = length slns"
    and "size (held s) + length slns < 2 ^ 32 + unat i"
  shows "\<exists>s' f. push_batch api s b i n_slns = Inr s'
    \<and> handed_over NULL (mset (map (Pair b) [unat i..<unat n_slns])) f s s'"
  using assms
proof (induction api s b i n_slns rule: push_batch.induct)
  case (1 api s b i n_slns)
  show ?case
  proof (cases "i < n_slns")
    case False
    then have "[unat i..<unat n_slns] = []" by (simp add: word_less_nat_alt)
    then have "handed_over NULL (mset (map (Pair b) [unat i..<unat n_slns])) [] s s"
      using handed_over_refl [OF "1.prems"(1)] by (simp only: list.map mset.simps)
    moreover have "push_batch api s b i n_slns = Inr s" using False by (simp add: push_batch.simps [of api s b i])
    ultimately show ?thesis by blast
  next
    case True
    have lt: "unat i < length slns" using True "1.prems"(4) by (simp add: word_less_nat_alt)
    then have live: "live s (b, unat i)" using "1.prems"(2,3) by (simp add: live_def load_sln_def)
    have "size (held s) < 2 ^ 32" using "1.prems"(5) lt by linarith
    from push_solution_hands_over [OF "1.prems"(1) NULL_not_listed [OF "1.prems"(1)] this live] obtain r s1 f where
      s1: "push_solution api s (b, unat i) = Inr (r, s1)" "handed_over NULL {#(b, unat i)#} f s s1" by blast
    have Suc: "unat (i + 1) = Suc (unat i)"
      using True by (rule unat_succ_less)
    have "size (held s1) \<le> Suc (size (held s))" using handed_over_size [OF s1(2)] by simp
    then have "size (held s1) + length slns < 2 ^ 32 + unat (i + 1)" using "1.prems"(5) Suc by linarith
    with "1.IH" [OF True s1(1) refl] "1.prems"(2-4) s1(2) obtain s' g where
      s': "push_batch api s1 b (i + 1) n_slns = Inr s'"
        "handed_over NULL (mset (map (Pair b) [unat (i + 1)..<unat n_slns])) g s1 s'"
      by (auto simp: handed_over_def handed_over_frame(2) [OF s1(2)])
    have "[unat i..<unat n_slns] = unat i # [unat (i + 1)..<unat n_slns]"
      using True Suc by (simp add: word_less_nat_alt upt_conv_Cons)
    with handed_over_trans [OF s1(2) s'(2)] s1(1) s'(1) True show ?thesis
      by (auto simp: push_batch.simps [of api s b i n_slns])
  qed
qed
lemma store_batch_ok:
  assumes "srv_ok s"
  shows "srv_ok (store_batch s arr)" "held (store_batch s arr) = held s"
    "db (store_batch s arr) = db s"
proof -
  show "srv_ok (store_batch s arr)"
    using assms by (cases arr) (auto simp: store_batch_def srv_ok_def clients_ok_def compilers_ok_def
        lists_ok_def fresh_ok_def)
  show "held (store_batch s arr) = held s" "db (store_batch s arr) = db s"
    by (cases arr; simp add: store_batch_def held_def held_at_def [abs_def])+
qed

lemma srv_ok_db [simp]: "srv_ok (s\<lparr>db := d\<rparr>) = srv_ok s"
  by (simp add: srv_ok_def clients_ok_def fresh_ok_def)

lemma held_db [simp]: "held (s\<lparr>db := d\<rparr>) = held s"
  by (simp add: held_def held_at_def [abs_def])

text \<open>A fetch that reports success hands out an array exactly when it reports a positive count.\<close>

lemma extract_new_count:
  assumes "solutions_extract_new api d False = Inr (0, arr, len, d')"
  shows "\<exists>slns. len = Some (of_nat (length slns)) \<and> (arr = Some slns \<and> slns \<noteq> [] \<or> arr = None \<and> slns = [])"
proof -
  obtain e d1 where q: "query api d select_query = (e, d1)" by fastforce
  obtain result c where st: "mysql_store_result api (conn d1) = (result, c)" by fastforce
  have "e = 0" "mysql_field_count api c = FIELDS_COUNT"
    using assms q st by (simp_all add: solutions_extract_new_def Let_def split: if_splits)
  with assms q st obtain rows where rows: "result = Some rows"
    by (cases result) (simp_all add: solutions_extract_new_def)
  note run = assms q st \<open>e = 0\<close> \<open>mysql_field_count api c = FIELDS_COUNT\<close> rows
  show ?thesis
  proof (cases "rows = []")
    case True
    then show ?thesis using run by (intro exI [of _ "[]"]) (simp add: solutions_extract_new_def)
  next
    case False
    obtain slns where "extract_rows rows = Inr slns" "arr = Some slns" "len = Some (of_nat (length rows))"
      using run False by (auto simp: solutions_extract_new_def Let_def res_simps case_prod_beta)
    then show ?thesis using extract_rows_length [of rows slns] False by auto
  qed
qed

lemma poll_round_ok:
  assumes ok: "srv_ok s" and ex: "solutions_extract_new api (db s) False = Inr (0, arr, len, d)"
    and small: "size (held s) + length (concat (map (case_option [] id) [arr])) < 2 ^ 32"
  shows "\<exists>s' f. poll_round api s = Inr s'
    \<and> handed_over NULL (mset (map (Pair (next_addr s)) [0..<length (case arr of None \<Rightarrow> [] | Some slns \<Rightarrow> slns)])) f
        (store_batch (s\<lparr>db := d\<rparr>) arr) s'"
proof -
  define slns where "slns = (case arr of None \<Rightarrow> [] | Some slns \<Rightarrow> slns)"
  define s1 where "s1 = store_batch (s\<lparr>db := d\<rparr>) arr"
  have n: "len = Some (of_nat (length slns))"
    using extract_new_count [OF ex] by (auto simp: slns_def)
  have l: "length slns < 2 ^ 32" using small by (auto simp: slns_def split: option.splits)
  then have u: "unat (of_nat (length slns) :: u64) = length slns" by (intro unat_of_nat_small) simp
  have ok1: "srv_ok s1" and h1: "held s1 = held s"
    using store_batch_ok [of "s\<lparr>db := d\<rparr>" arr] ok by (simp_all add: s1_def)
  have run: "poll_round api s = push_batch api s1 (next_addr s) 0 (of_nat (length slns))"
    by (simp add: poll_round_def ex n s1_def)
  show ?thesis
  proof (cases arr)
    case None
    then have "push_batch api s1 (next_addr s) 0 (of_nat (length slns)) = Inr s1"
      by (simp add: slns_def push_batch.simps [of api s1 "next_addr s" 0 0])
    then show ?thesis using None run handed_over_refl [OF ok1] by (auto simp: s1_def intro: exI [of _ "[]"])
  next
    case (Some a)
    have mem: "sln_mem s1 (next_addr s) = Some slns" by (simp add: s1_def store_batch_def Some slns_def)
    have "next_addr s \<noteq> NULL" using ok by (simp add: srv_ok_def fresh_ok_def)
    from push_batch_ok [OF ok1 mem this u, of 0 api] small h1
    show ?thesis unfolding run slns_def [symmetric] s1_def [symmetric] u by (simp add: Some slns_def)
  qed
qed

section \<open>Properties\<close>

text \<open>
  C7: one turn of the polling loop.  However the fetch goes, the tables stay intact.  If it succeeds,
  every fetched solution is afterwards in the queue of one connected client, or its verdict FL was sent
  after the statements of the fetch; what the clients held before they still hold.  If it reports an
  error no solution is pushed, even when the array was filled and some rows were marked.
\<close>

theorem poll_round_dispatches:
  assumes "srv_ok s" and "solutions_extract_new api (db s) False = Inr (ret, arr, len, d)"
    and "size (held s) + length (case arr of None \<Rightarrow> [] | Some slns \<Rightarrow> slns) < 2 ^ 32"
  shows "\<exists>s'. poll_round api s = Inr s' \<and> srv_ok s' \<and> clients_map s' = clients_map s
    \<and> queues_grow (clients s) (clients s')
    \<and> (if ret \<noteq> 0 then held s' = held s \<and> db s' = d
       else \<exists>failed. mset failed \<subseteq># mset (map (Pair (next_addr s)) [0..<length (case arr of None \<Rightarrow> [] | Some slns \<Rightarrow> slns)])
            \<and> held s' + mset failed
              = held s + mset (map (Pair (next_addr s)) [0..<length (case arr of None \<Rightarrow> [] | Some slns \<Rightarrow> slns)])
            \<and> sent (db s') = sent d
              @ map (\<lambda>p. result_query (sln_id (the arr ! snd p)) 0 ''FL'') failed)"
proof (cases "ret = 0")
  case False
  then have "poll_round api s = Inr (store_batch (s\<lparr>db := d\<rparr>) arr)"
    by (simp add: poll_round_def assms(2))
  with False store_batch_ok [of "s\<lparr>db := d\<rparr>" arr] assms(1) show ?thesis
    by (auto simp: store_batch_def split: option.splits)
next
  case True
  define slns where "slns = (case arr of None \<Rightarrow> [] | Some slns \<Rightarrow> slns)"
  define s1 where "s1 = store_batch (s\<lparr>db := d\<rparr>) arr"
  have "size (held s) + length (concat (map (case_option [] id) [arr])) < 2 ^ 32"
    using assms(3) by (cases arr) simp_all
  with poll_round_ok [OF assms(1)] assms(2) True obtain s' f where
    s': "poll_round api s = Inr s'" "handed_over NULL (mset (map (Pair (next_addr s)) [0..<length slns])) f s1 s'"
    unfolding slns_def s1_def by blast
  have s1: "held s1 = held s" "db s1 = d" "clients_map s1 = clients_map s"
    using store_batch_ok [of "s\<lparr>db := d\<rparr>" arr] assms(1)
    by (simp_all add: s1_def store_batch_def split: option.splits)
  have "sln_id_at s1 p = sln_id (the arr ! snd p)" if "p \<in> set f" for p
  proof -
    have "mset f \<subseteq># mset (map (Pair (next_addr s)) [0..<length slns])" using s'(2) by (simp only: handed_over_def)
    then have "p \<in># mset (map (Pair (next_addr s)) [0..<length slns])" using that mset_subset_eqD by fastforce
    then obtain j where "p = (next_addr s, j)" "j < length slns" by auto
    moreover have "next_addr s \<noteq> NULL" using assms(1) by (simp add: srv_ok_def fresh_ok_def)
    ultimately show ?thesis
      by (auto simp: sln_id_at_def load_sln_def s1_def store_batch_def slns_def split: option.splits)
  qed
  then have "sent (db s') = sent d @ map (\<lambda>p. result_query (sln_id (the arr ! snd p)) 0 ''FL'') f"
    using s'(2) s1(2) by (simp add: handed_over_def cong: map_cong)
  moreover have "held s' + mset f = held s + mset (map (Pair (next_addr s)) [0..<length slns])"
    using s'(2) s1(1) by (simp add: handed_over_def ac_simps)
  moreover have "mset f \<subseteq># mset (map (Pair (next_addr s)) [0..<length slns])" "srv_ok s'"
    "queues_grow (clients s1) (clients s')" using s'(2) by (simp_all only: handed_over_def)
  moreover have "clients s1 = clients s" by (simp add: s1_def store_batch_def split: option.splits)
  moreover have "clients_map s' = clients_map s" using handed_over_frame(1) [OF s'(2)] s1(3) by simp
  ultimately show ?thesis using s'(1) True unfolding slns_def by auto
qed

lemma demo_extract:
  "\<exists>sln d'. solutions_extract_new demo_api d False = Inr (0, Some [sln], Some 1, d')"
proof -
  have "\<exists>sln. extract_row (map (\<lambda>n. Some (bytes_of (show_u n))) [7, 1, 2, 0, 5, 3, 0, 0, 4]) = Inr sln"
    by (simp add: extract_row_def cell_int_def cell_bytes_def Let_def show_u.simps [of 5] byte_of_digit)
  then show ?thesis
    by (auto simp: solutions_extract_new_def mark_solutions_def demo_api_def query_def Let_def)
qed

theorem poll_round_dispatches_witness:
  "\<exists>s' failed. poll_round demo_api demo_one = Inr s' \<and> srv_ok s'
    \<and> held s' + mset failed = {#(next_addr demo_one, 0)#}"
proof -
  obtain sln d' where "solutions_extract_new demo_api (db demo_one) False = Inr (0, Some [sln], Some 1, d')"
    using demo_extract by blast
  from poll_round_dispatches [OF demo_one_ok(1) this] demo_one_ok(8) show ?thesis by auto
qed

end
