(* ===== verification/Cleanup.thy ===== *)
theory Cleanup
  imports Registry
begin

text \<open>
  \<^verbatim>\<open>cleanup\<close>, which runs after the thread pool is destroyed: every client and every compiler is taken out
  of its table and released, the clients with the solutions they still hold.  The mutexes it destroys
  are not part of the state.
\<close>

section \<open>The operation\<close>

fun free_clients :: "'c server \<Rightarrow> addr list \<Rightarrow> 'c server res" where
  "free_clients s [] = Inr s"
| "free_clients s (a # as) =
     rbind (HASH_DELETE (clients_map s) a) (\<lambda>h.
     rbind (client_free (s\<lparr>clients_map := h\<rparr>) a) (\<lambda>s'. free_clients s' as))"

fun free_compilers :: "'c server \<Rightarrow> addr list \<Rightarrow> 'c server res" where
  "free_compilers s [] = Inr s"
| "free_compilers s (a # as) =
     rbind (HASH_DELETE (compilers_map s) a) (\<lambda>h.
     rbind (compiler_free (s\<lparr>compilers_map := h\<rparr>) a) (\<lambda>s'. free_compilers s' as))"

definition cleanup :: "'c server \<Rightarrow> 'c server res" where
  "cleanup s = rbind (free_clients s (hash_elts (clients_map s)))
     (\<lambda>s1. free_compilers s1 (hash_elts (compilers_map s1)))"

section \<open>Taking elements out in order\<close>

lemma hash_elts_Nil: "hash_ok h \<Longrightarrow> hash_elts h = [] \<longleftrightarrow> h = None"
  by (auto simp: hash_ok_def hash_elts_def split: option.splits)

lemma elt_entry: "a \<in> set (hash_elts h) \<Longrightarrow> \<exists>k. (k, a) \<in> set (hash_entries h)"
  by (auto simp: hash_elts_entries)

lemma delete_first:
  assumes "hash_ok h" and "hash_elts h = a # as"
  obtains h' where "HASH_DELETE h a = Inr h'" "hash_ok h'" "hash_elts h' = as"
    "set (hash_entries h') \<subseteq> set (hash_entries h)"
proof -
  obtain k where k: "(k, a) \<in> set (hash_entries h)" using assms(2) elt_entry [of a h] by auto
  obtain h' where h': "HASH_DELETE h a = Inr h'" "hash_ok h'" "hash_entries h' = filter (\<lambda>e. snd e \<noteq> a) (hash_entries h)"
    using ut.delete_ok [OF assms(1) k] by blast
  have "hash_elts h' = filter (\<lambda>b. b \<noteq> a) (hash_elts h)"
    by (simp add: hash_elts_entries h'(3) filter_map comp_def)
  also have "\<dots> = as"
    using distinct_hash_elts [OF assms(1)] assms(2) by (auto simp: filter_id_conv)
  finally show thesis using that h' by auto
qed

section \<open>The solutions of a client\<close>

definition slns_of :: "client_t \<Rightarrow> sln_ptr list" where
  "slns_of cl = solutions_queue cl @ (case checking_solution cl of None \<Rightarrow> [] | Some p \<Rightarrow> [p])"

lemma held_by_slns_of: "held_by cl = mset (slns_of cl)"
  by (simp add: held_by_def slns_of_def split: option.splits)

lemma distinct_count_le: "distinct ps \<longleftrightarrow> (\<forall>p. count (mset ps) p \<le> 1)"
proof -
  have "count (mset ps) p \<le> 1 \<longleftrightarrow> count (mset ps) p = (if p \<in> set ps then 1 else 0)" for p
    using count_greater_zero_iff [of "mset ps" p] by (cases "p \<in> set ps") (auto simp: le_Suc_eq)
  then show ?thesis by (simp add: distinct_count_atmost_1)
qed

text \<open>\<open>freeable s ps\<close>: each of \<open>ps\<close> is the first solution of an array, and none comes twice.\<close>

definition freeable :: "'c server \<Rightarrow> sln_ptr list \<Rightarrow> bool" where
  "freeable s ps \<longleftrightarrow> distinct ps \<and> (\<forall>p \<in> set ps. snd p = 0 \<and> live s p)"

definition forget :: "sln_ptr list \<Rightarrow> 'c server \<Rightarrow> 'c server" where
  "forget ps s = s\<lparr>sln_mem := sln_mem s |` (- fst ` set ps)\<rparr>"

lemma forget_Nil [simp]: "forget [] s = s"
  by (simp add: forget_def restrict_map_def)

lemma live_forget: "live (forget ps s) p \<longleftrightarrow> live s p \<and> fst p \<notin> fst ` set ps"
  by (auto simp: live_def load_sln_def forget_def res_simps deref_def restrict_map_def)

lemma forget_append: "forget qs (forget ps s) = forget (ps @ qs) s"
  by (simp add: forget_def restrict_map_def fun_eq_iff image_Un)

lemma freeable_append:
  "freeable s (ps @ qs) \<longleftrightarrow> freeable s ps \<and> freeable (forget ps s) qs"
proof -
  have "(\<forall>q \<in> set qs. snd q = 0 \<and> live s q \<and> fst q \<notin> fst ` set ps) \<longleftrightarrow>
      (\<forall>q \<in> set qs. snd q = 0 \<and> live s q) \<and> set ps \<inter> set qs = {}" if "\<forall>p \<in> set ps. snd p = 0"
    using that by (fastforce simp: image_iff)
  then show ?thesis by (auto simp: freeable_def live_forget)
qed

lemma freeable_cong: "sln_mem s = sln_mem s' \<Longrightarrow> freeable s ps = freeable s' ps"
  using live_cong [of s s'] by (simp add: freeable_def)

lemma solution_free_iff:
  "solution_free s (Some p) = Inr s' \<longleftrightarrow> freeable s [p] \<and> s' = forget [p] s"
proof -
  have "(sln_mem s)(fst p := None) = sln_mem s |` (- {fst p})" by (auto simp: restrict_map_def)
  then show ?thesis by (auto simp: solution_free_def res_simps freeable_def live_def forget_def split: if_splits)
qed

lemma free_solutions_iff:
  "free_solutions s ps = Inr s' \<longleftrightarrow> freeable s ps \<and> s' = forget ps s"
proof (induction ps arbitrary: s)
  case Nil
  then show ?case by (auto simp: freeable_def)
next
  case (Cons p ps)
  have "free_solutions s (p # ps) = Inr s' \<longleftrightarrow> freeable s [p] \<and> freeable (forget [p] s) ps \<and> s' = forget ps (forget [p] s)"
    by (auto simp: res_simps solution_free_iff Cons.IH)
  then show ?case using freeable_append [of s "[p]" ps] by (simp add: forget_append)
qed

lemma client_free_iff:
  assumes "a \<noteq> NULL" and "clients s a = Some cl"
  shows "client_free s a = Inr s' \<longleftrightarrow> freeable s (slns_of cl)
    \<and> s' = (forget (slns_of cl) s)\<lparr>clients := (clients s)(a := None), closed := closed s @ [cl_socket cl]\<rparr>"
proof (cases "checking_solution cl")
  case None
  then show ?thesis using assms
    by (auto simp: client_free_def res_simps free_solutions_iff solution_free_def slns_of_def forget_def)
next
  case (Some p)
  have "client_free s a = Inr s' \<longleftrightarrow> freeable s (solutions_queue cl)
      \<and> freeable (forget (solutions_queue cl) s) [p]
      \<and> s' = (forget [p] (forget (solutions_queue cl) s))
           \<lparr>clients := (clients s)(a := None), closed := closed s @ [cl_socket cl]\<rparr>"
    using assms Some by (auto simp: client_free_def res_simps free_solutions_iff solution_free_iff)
      (auto simp: forget_def)
  then show ?thesis using Some freeable_append [of s "solutions_queue cl" "[p]"]
    by (simp add: slns_of_def forget_append)
qed

section \<open>The clients\<close>

lemma free_clients_iff:
  assumes "hash_ok (clients_map s)" and "hash_elts (clients_map s) = as"
    and "\<forall>a \<in> set as. a \<noteq> NULL \<and> clients s a \<noteq> None"
  defines "ps \<equiv> concat (map (\<lambda>a. slns_of (the (clients s a))) as)"
  shows "free_clients s as = Inr s' \<longleftrightarrow> freeable s ps
    \<and> s' = (forget ps s)\<lparr>clients_map := None, clients := clients s |` (- set as),
         closed := closed s @ map (\<lambda>a. cl_socket (the (clients s a))) as\<rparr>"
  unfolding ps_def using assms(1-3)
proof (induction as arbitrary: s)
  case Nil
  then have "clients_map s = None" using hash_elts_Nil by blast
  then have "s\<lparr>clients_map := None\<rparr> = s" by (cases s) simp
  then show ?case by (auto simp: freeable_def restrict_map_def)
next
  case (Cons a as)
  obtain h where h: "HASH_DELETE (clients_map s) a = Inr h" "hash_ok h" "hash_elts h = as"
    using delete_first [OF Cons.prems(1,2)] by blast
  obtain cl where cl: "a \<noteq> NULL" "clients s a = Some cl" using Cons.prems(3) by auto
  define s1 where "s1 = (forget (slns_of cl) (s\<lparr>clients_map := h\<rparr>))\<lparr>clients := (clients s)(a := None), closed := closed s @ [cl_socket cl]\<rparr>"
  have a: "a \<notin> set as" using distinct_hash_elts [OF Cons.prems(1)] Cons.prems(2) by simp
  have c: "clients s1 b = clients s b" if "b \<in> set as" for b using that a by (auto simp: s1_def)
  have ps: "concat (map (\<lambda>a. slns_of (the (clients s1 a))) as) = concat (map (\<lambda>a. slns_of (the (clients s a))) as)"
    "map (\<lambda>a. cl_socket (the (clients s1 a))) as = map (\<lambda>a. cl_socket (the (clients s a))) as"
    using c by (simp_all cong: map_cong)
  have f1: "clients_map s1 = h" "\<And>qs. freeable s1 qs = freeable (forget (slns_of cl) s) qs"
    by (simp add: s1_def forget_def, rule freeable_cong) (simp add: s1_def forget_def)
  have "free_clients s (a # as) = Inr s' \<longleftrightarrow> freeable s (slns_of cl) \<and> free_clients s1 as = Inr s'"
    using h(1) cl freeable_cong [of "s\<lparr>clients_map := h\<rparr>" s]
    by (auto simp: res_simps client_free_iff s1_def forget_def)
  also have "\<dots> \<longleftrightarrow> freeable s (slns_of cl) \<and> freeable (forget (slns_of cl) s) (concat (map (\<lambda>a. slns_of (the (clients s a))) as))
      \<and> s' = (forget (concat (map (\<lambda>a. slns_of (the (clients s a))) as)) s1)\<lparr>clients_map := None,
           clients := clients s1 |` (- set as), closed := closed s1 @ map (\<lambda>a. cl_socket (the (clients s a))) as\<rparr>"
    using Cons.IH [of s1, unfolded ps] h(2,3) c Cons.prems(3) f1 by simp
  also have "(forget (concat (map (\<lambda>a. slns_of (the (clients s a))) as)) s1)\<lparr>clients_map := None,
           clients := clients s1 |` (- set as), closed := closed s1 @ map (\<lambda>a. cl_socket (the (clients s a))) as\<rparr>
      = (forget (concat (map (\<lambda>a. slns_of (the (clients s a))) (a # as))) s)\<lparr>clients_map := None,
           clients := clients s |` (- set (a # as)), closed := closed s @ map (\<lambda>a. cl_socket (the (clients s a))) (a # as)\<rparr>"
    using cl by (intro server.equality) (auto simp: s1_def forget_def restrict_map_def fun_eq_iff)
  finally show ?case using freeable_append [of s "slns_of cl"] cl by simp
qed

section \<open>The compilers\<close>

lemma ids_ok_subset: "ids_ok ids h \<Longrightarrow> hash_ok h' \<Longrightarrow> set (hash_entries h') \<subseteq> set (hash_entries h) \<Longrightarrow> ids_ok ids h'"
  by (auto simp: ids_ok_def)

lemma free_client_ids_ok:
  assumes "ids_ok (client_ids s) h" and "hash_elts h = cs"
  shows "free_client_ids s h cs = Inr (s\<lparr>client_ids := client_ids s |` (- set cs)\<rparr>, None)"
  using assms
proof (induction cs arbitrary: s h)
  case Nil
  then show ?case using hash_elts_Nil [of h] by (simp add: ids_ok_def restrict_map_def)
next
  case (Cons c cs)
  have "hash_ok h" using Cons.prems(1) by (simp add: ids_ok_def)
  then obtain h1 where h1: "HASH_DELETE h c = Inr h1" "hash_ok h1" "hash_elts h1 = cs"
      "set (hash_entries h1) \<subseteq> set (hash_entries h)"
    using delete_first Cons.prems(2) by blast
  obtain k where k: "(k, c) \<in> set (hash_entries h)" using Cons.prems(2) elt_entry [of c h] by auto
  have c: "c \<noteq> NULL" "client_ids s c \<noteq> None" using Cons.prems(1) k by (auto simp: ids_ok_def)
  have "c \<notin> set cs" using Cons.prems(2) distinct_hash_elts [OF \<open>hash_ok h\<close>] by simp
  define s1 where "s1 = s\<lparr>client_ids := (client_ids s)(c := None)\<rparr>"
  have "ids_ok (client_ids s1) h1"
    using ids_ok_other [OF ids_ok_subset [OF Cons.prems(1) h1(2,4)]] h1(3) \<open>c \<notin> set cs\<close> by (auto simp: s1_def)
  from Cons.IH [OF this h1(3)] have "free_client_ids s1 h1 cs = Inr (s1\<lparr>client_ids := client_ids s1 |` (- set cs)\<rparr>, None)" .
  moreover have "client_ids s1 |` (- set cs) = client_ids s |` (- set (c # cs))"
    by (auto simp: s1_def restrict_map_def)
  ultimately have "free_client_ids s1 h1 cs = Inr (s\<lparr>client_ids := client_ids s |` (- set (c # cs))\<rparr>, None)"
    by (simp add: s1_def)
  moreover have "free_cell (client_ids s) c = Inr ((client_ids s)(c := None))" using c by (auto simp: free_cell_def)
  ultimately show ?case using h1(1) by (simp add: s1_def)
qed

lemma compiler_free_ok:
  assumes "a \<noteq> NULL" and "compilers s a = Some cm" and "ids_ok (client_ids s) (clients_list cm)"
  shows "compiler_free s a = Inr (s\<lparr>client_ids := client_ids s |` (- set (hash_elts (clients_list cm))),
    compilers := (compilers s)(a := None)\<rparr>)"
  using assms free_client_ids_ok [OF assms(3) refl] by (simp add: compiler_free_def)

lemma free_compilers_ok:
  assumes "hash_ok (compilers_map s)" and "hash_elts (compilers_map s) = as"
    and "\<forall>a \<in> set as. a \<noteq> NULL \<and> compilers s a \<noteq> None" and "lists_ok s"
  shows "free_compilers s as = Inr (s\<lparr>compilers_map := None, compilers := compilers s |` (- set as),
    client_ids := client_ids s |` (- (\<Union>a \<in> set as. set (hash_elts (clients_list (the (compilers s a))))))\<rparr>)"
  using assms
proof (induction as arbitrary: s)
  case Nil
  then have "compilers_map s = None" using hash_elts_Nil by blast
  then show ?case by (simp add: restrict_map_def)
next
  case (Cons a as)
  obtain h where h: "HASH_DELETE (compilers_map s) a = Inr h" "hash_ok h" "hash_elts h = as"
    using delete_first [OF Cons.prems(1,2)] by blast
  obtain cm where cm: "a \<noteq> NULL" "compilers s a = Some cm" using Cons.prems(3) by auto
  let ?cs = "\<lambda>t b. set (hash_elts (clients_list (the (compilers t b))))"
  define s1 where "s1 = s\<lparr>compilers_map := h, client_ids := client_ids s |` (- ?cs s a), compilers := (compilers s)(a := None)\<rparr>"
  have a: "a \<notin> set as" using distinct_hash_elts [OF Cons.prems(1)] Cons.prems(2) by simp
  have c: "compilers s1 b = compilers s b" if "b \<in> set as" for b using that a by (auto simp: s1_def)
  have run: "free_compilers s (a # as) = free_compilers s1 as"
    using h(1) compiler_free_ok [of a "s\<lparr>compilers_map := h\<rparr>" cm] lists_ok_ids [OF Cons.prems(4) cm(2)] cm
    by (simp add: s1_def)
  have "lists_ok s1"
    unfolding lists_ok_def
  proof (intro conjI allI impI)
    fix b cm' assume b: "compilers s1 b = Some cm'"
    then have b': "compilers s b = Some cm'" "b \<noteq> a" by (auto simp: s1_def split: if_splits)
    then have "set (hash_elts (clients_list cm)) \<inter> set (hash_elts (clients_list cm')) = {}"
      using lists_ok_disjoint [OF Cons.prems(4) cm(2)] by blast
    then have "\<forall>c \<in> set (hash_elts (clients_list cm')). client_ids s1 c = client_ids s c"
      using cm(2) by (auto simp: s1_def restrict_map_def)
    with lists_ok_ids [OF Cons.prems(4) b'(1)] show "ids_ok (client_ids s1) (clients_list cm')"
      by (rule ids_ok_other)
  next
    fix b b' cm' cm'' assume "compilers s1 b = Some cm'" "compilers s1 b' = Some cm''" "b \<noteq> b'"
    then show "set (hash_elts (clients_list cm')) \<inter> set (hash_elts (clients_list cm'')) = {}"
      using lists_ok_disjoint [OF Cons.prems(4), of b cm' b' cm''] by (simp add: s1_def split: if_splits)
  qed
  moreover have "compilers_map s1 = h" by (simp add: s1_def)
  ultimately have "free_compilers s1 as = Inr (s1\<lparr>compilers_map := None, compilers := compilers s1 |` (- set as),
      client_ids := client_ids s1 |` (- (\<Union>b \<in> set as. ?cs s1 b))\<rparr>)"
    using Cons.IH [of s1] h(2,3) c Cons.prems(3) by simp
  also have "(\<Union>b \<in> set as. ?cs s1 b) = (\<Union>b \<in> set as. ?cs s b)" using c by simp
  also have "s1\<lparr>compilers_map := None, compilers := compilers s1 |` (- set as),
      client_ids := client_ids s1 |` (- (\<Union>b \<in> set as. ?cs s b))\<rparr>
    = s\<lparr>compilers_map := None, compilers := compilers s |` (- set (a # as)),
      client_ids := client_ids s |` (- (\<Union>b \<in> set (a # as). ?cs s b))\<rparr>"
    by (auto simp: s1_def restrict_map_def fun_eq_iff)
  finally show ?case using run by simp
qed

section \<open>The whole operation\<close>

lemma cleanup_spec:
  assumes "srv_ok s"
  shows "if (\<forall>p. count (held s) p \<le> 1) \<and> (\<forall>p \<in># held s. snd p = 0 \<and> live s p)
    then \<exists>s'. cleanup s = Inr s' \<and> clients_map s' = None \<and> compilers_map s' = None
      \<and> clients s' = clients s |` (- set (hash_elts (clients_map s)))
      \<and> compilers s' = compilers s |` (- set (hash_elts (compilers_map s)))
      \<and> (\<forall>a \<in> set (hash_elts (compilers_map s)). \<forall>c \<in> set (hash_elts (clients_list (the (compilers s a)))).
           client_ids s' c = None)
      \<and> (\<forall>p \<in># held s. sln_mem s' (fst p) = None)
      \<and> closed s' = closed s @ map (\<lambda>a. cl_socket (the (clients s a))) (hash_elts (clients_map s))
    else \<exists>e. cleanup s = Inl e"
proof -
  define as where "as = hash_elts (clients_map s)"
  define ps where "ps = concat (map (\<lambda>a. slns_of (the (clients s a))) as)"
  have cl: "hash_ok (clients_map s)" "\<forall>a \<in> set as. a \<noteq> NULL \<and> clients s a \<noteq> None"
    using assms srv_ok_client [OF assms] by (auto simp: srv_ok_def clients_ok_def as_def) fastforce+
  have cm: "hash_ok (compilers_map s)" "\<forall>a \<in> set (hash_elts (compilers_map s)). a \<noteq> NULL \<and> compilers s a \<noteq> None" "lists_ok s"
    using assms by (auto simp: srv_ok_def compilers_ok_def hash_elts_entries)
  have "map (held_at s) as = map (\<lambda>a. mset (slns_of (the (clients s a)))) as"
    using cl(2) by (auto simp: held_at_def held_by_slns_of)
  then have h: "held s = mset ps" unfolding held_def ps_def as_def [symmetric]
    by (metis (no_types, lifting) comp_def map_eq_conv map_map mset_concat)
  then have free: "freeable s ps \<longleftrightarrow> (\<forall>p. count (held s) p \<le> 1) \<and> (\<forall>p \<in># held s. snd p = 0 \<and> live s p)"
    by (simp add: freeable_def distinct_count_le)
  define s1 where "s1 = (forget ps s)\<lparr>clients_map := None, clients := clients s |` (- set as),
         closed := closed s @ map (\<lambda>a. cl_socket (the (clients s a))) as\<rparr>"
  have iff: "free_clients s as = Inr t \<longleftrightarrow> freeable s ps \<and> t = s1" for t
    using free_clients_iff [OF cl(1) as_def [symmetric] cl(2)] unfolding ps_def [symmetric] s1_def by blast
  show ?thesis
  proof (cases "freeable s ps")
    case False
    then obtain e where "free_clients s as = Inl e" using iff by (cases "free_clients s as") auto
    then have "cleanup s = Inl e" by (simp add: cleanup_def as_def)
    with False free show ?thesis by auto
  next
    case True
    have s1: "compilers_map s1 = compilers_map s" "compilers s1 = compilers s" "client_ids s1 = client_ids s"
      "clients_map s1 = None" "clients s1 = clients s |` (- set as)" "sln_mem s1 = sln_mem s |` (- fst ` set ps)"
      by (simp_all add: s1_def forget_def)
    have "lists_ok s1" using cm(3) s1(2,3) by (simp add: lists_ok_def)
    then have "cleanup s = Inr (s1\<lparr>compilers_map := None, compilers := compilers s |` (- set (hash_elts (compilers_map s))),
      client_ids := client_ids s |` (- (\<Union>a \<in> set (hash_elts (compilers_map s)). set (hash_elts (clients_list (the (compilers s a))))))\<rparr>)"
      using iff [of s1] True free_compilers_ok [of s1, unfolded s1(1,2,3), OF cm(1) refl cm(2)]
      by (simp add: cleanup_def as_def [symmetric] s1(1))
    moreover have "closed s1 = closed s @ map (\<lambda>a. cl_socket (the (clients s a))) as" by (simp add: s1_def)
    ultimately show ?thesis using True free h s1 by (auto simp: as_def restrict_map_def)
  qed
qed

lemma cleanup_ends:
  assumes "srv_ok s" and "\<forall>p. count (held s) p \<le> 1" and "\<forall>p \<in># held s. live s p" and "\<forall>p \<in># held s. snd p = 0"
  shows "\<exists>s'. cleanup s = Inr s' \<and> clients_map s' = None \<and> compilers_map s' = None"
proof -
  have "(\<forall>p. count (held s) p \<le> 1) \<and> (\<forall>p \<in># held s. snd p = 0 \<and> live s p)" using assms(2-4) by blast
  from cleanup_spec [OF assms(1), unfolded if_P [OF this]] show ?thesis by blast
qed

section \<open>Properties\<close>

text \<open>
  C8: shutting down.  \<^verbatim>\<open>cleanup\<close> runs to its end exactly when every solution still held by a client is the
  first of its fetch and none is held twice; then both tables are gone, every structure that was in
  them is released and every client's socket is closed once, in the order of the table.  In all other
  cases, in particular when some client still holds the second solution of a fetch, it releases a
  pointer \<^verbatim>\<open>malloc\<close> never returned or touches released memory.
\<close>

theorem cleanup_releases:
  assumes "srv_ok s"
  shows "if (\<forall>p. count (held s) p \<le> 1) \<and> (\<forall>p \<in># held s. snd p = 0 \<and> live s p)
    then \<exists>s'. cleanup s = Inr s' \<and> clients_map s' = None \<and> compilers_map s' = None
      \<and> clients s' = clients s |` (- set (hash_elts (clients_map s)))
      \<and> compilers s' = compilers s |` (- set (hash_elts (compilers_map s)))
      \<and> (\<forall>a \<in> set (hash_elts (compilers_map s)). \<forall>c \<in> set (hash_elts (clients_list (the (compilers s a)))).
           client_ids s' c = None)
      \<and> (\<forall>p \<in># held s. sln_mem s' (fst p) = None)
      \<and> closed s' = closed s @ map (\<lambda>a. cl_socket (the (clients s a))) (hash_elts (clients_map s))
    else \<exists>e. cleanup s = Inl e"
  using assms by (rule cleanup_spec)

theorem cleanup_releases_witness:
  "(\<exists>s'. cleanup (append_sln demo_one 2 (1, 0)) = Inr s' \<and> clients_map s' = None \<and> compilers_map s' = None)
    \<and> (\<exists>e. cleanup (append_sln demo_one 2 (1, 1)) = Inl e)"
proof -
  have ok: "srv_ok (append_sln demo_one 2 p)" for p using demo_one_ok(1) by (rule srv_ok_append_sln)
  have h: "held (append_sln demo_one 2 p) = {#p#}" for p
    using held_append_sln [OF demo_one_ok(1), of 2] demo_one_ok(2,8) by (simp add: hash_elts_entries)
  have "live (append_sln demo_one 2 p) (1, 0)" for p by (simp add: live_def load_sln_def demo_one_ok(4))
  moreover have "\<forall>p. count {#(1 :: nat, 0 :: nat)#} p \<le> 1" by simp
  ultimately have "\<exists>s'. cleanup (append_sln demo_one 2 (1, 0)) = Inr s' \<and> clients_map s' = None \<and> compilers_map s' = None"
    using cleanup_releases [OF ok [of "(1, 0)"]] unfolding h by auto
  moreover have "\<exists>e. cleanup (append_sln demo_one 2 (1, 1)) = Inl e"
    using cleanup_releases [OF ok [of "(1, 1)"]] by (auto simp: h)
  ultimately show ?thesis by blast
qed

end
