(* ===== verification/System.thy ===== *)
theory System
  imports Sessions Polling Cleanup
begin

text \<open>
  The threads of the server together.  A step of the system is one turn of one thread's loop: a
  connection and its handshake, one round of a client's session, one turn of the polling loop, the stop
  command; the steps of different threads come in any order.  The invariant says under which conditions
  no turn ever touches released memory, and that the server can be shut down at any time.
\<close>

section \<open>States and steps\<close>

text \<open>
  A session is a thread inside the main loop of \<^verbatim>\<open>client_loop\<close>: the address of its client and the id it
  was given.
\<close>

type_synonym sessions = "addr \<rightharpoonup> u32"

text \<open>A solution whose packet fits the 32-bit length of \<^verbatim>\<open>send_all\<close>.\<close>

definition sendable :: "solution_t \<Rightarrow> bool" where
  "sendable v \<longleftrightarrow> unat (sln_source_len v) \<le> length (sln_source v) \<and> unat (sln_source_len v) + 15 < 2 ^ 32"

text \<open>
  A turn of one thread: a connection and its handshake, one round of the session of the client at an address, one turn of
  the polling loop, the stop command.
\<close>

datatype turn = T_connect "nat \<Rightarrow> u16 \<times> u16" socket | T_session addr | T_poll | T_stop

text \<open>
  What a turn does to the server and to the sessions: a connection that is accepted becomes a session; a session ends with its
  loop, or when it finds the server stopped; a turn of an address without a session is none.  The outer \<open>None\<close> is a turn
  that does not end, \<open>Inl\<close> an error of the memory.
\<close>

fun turn_of :: "'c mysql_api \<Rightarrow> turn \<Rightarrow> 'c server \<times> sessions \<Rightarrow> ('c server \<times> sessions) res option" where
  "turn_of api (T_connect junk ep) (s, m) =
     Some (map_sum id (\<lambda>(client, s'). (s', case client of None \<Rightarrow> m | Some a \<Rightarrow> m(a \<mapsto> last_client_id s))) (handshake junk s ep))"
| "turn_of api (T_session a) (s, m) = (case m a of
     None \<Rightarrow> Some (Inr (s, m))
   | Some i \<Rightarrow>
       if server_running s
       then map_option (map_sum id (\<lambda>(go_on, s'). (s', if go_on then m else m(a := None)))) (client_round api s a i)
       else Some (Inr (s, m(a := None))))"
| "turn_of api T_poll (s, m) = Some (map_sum id (\<lambda>s'. (s', m)) (poll_round api s))"
| "turn_of api T_stop (s, m) = Some (Inr (s\<lparr>server_running := False\<rparr>, m))"

text \<open>The number of compilers a connection announces, read as the handshake reads it.\<close>

definition announced :: "socket \<Rightarrow> nat" where
  "announced ep =
     (case send_all ep welcome_pkt 3 of (_, sk0) \<Rightarrow>
      case recv_all sk0 [0, 0] 2 of (_, len_buf, sk1) \<Rightarrow>
      let res_len = ntohs (load16 (len_buf ! 0) (len_buf ! 1)) in
      case recv_all sk1 (replicate (unat res_len) 0) (ucast res_len) of (_, res_pkt, _) \<Rightarrow>
        if 1 < length res_pkt then unat (res_pkt ! 1) else 0)"

text \<open>
  The conditions under which the server works.  They bear on what a turn starts from and on what its client or the database sends,
  not on how it goes: a fetch brings at most one solution, of a size that can be sent, a new client's id is not in
  use, at most 25 compilers are announced at once, and the tables and counters do not overflow.
\<close>

fun admissible :: "'c mysql_api \<Rightarrow> turn \<Rightarrow> 'c server \<Rightarrow> bool" where
  "admissible api (T_connect junk ep) s \<longleftrightarrow> store32 (last_client_id s) \<notin> fst ` set (hash_entries (clients_map s))
     \<and> hash_room (clients_map s) \<and> cspace 25 25 s \<and> announced ep \<le> 25"
| "admissible api T_poll s \<longleftrightarrow> size (held s) + 1 < 2 ^ 32
     \<and> (case solutions_extract_new api (db s) False of
          Inr (_, Some slns, _, _) \<Rightarrow> length slns \<le> 1 \<and> list_all sendable slns
        | _ \<Rightarrow> True)"
| "admissible api _ s \<longleftrightarrow> True"

inductive sys_step :: "'c mysql_api \<Rightarrow> 'c server \<times> sessions \<Rightarrow> 'c server \<times> sessions \<Rightarrow> bool" for api where
  turn: "admissible api t (fst st) \<Longrightarrow> turn_of api t st = Some (Inr st') \<Longrightarrow> sys_step api st st'"

inductive sys_reachable :: "'c mysql_api \<Rightarrow> 'c db \<Rightarrow> 'c server \<times> sessions \<Rightarrow> bool" for api d where
  init: "sys_reachable api d (server_init d, Map.empty)"
| step: "sys_reachable api d st \<Longrightarrow> sys_step api st st' \<Longrightarrow> sys_reachable api d st'"

section \<open>The invariant\<close>

definition sessions_ok :: "'c server \<Rightarrow> sessions \<Rightarrow> bool" where
  "sessions_ok s m \<longleftrightarrow> distinct (map fst (hash_entries (clients_map s)))
     \<and> (\<forall>a i. m a = Some i \<longrightarrow> (store32 i, a) \<in> set (hash_entries (clients_map s)))"

definition held_ok :: "'c server \<Rightarrow> bool" where
  "held_ok s \<longleftrightarrow> size (held s) < 2 ^ 32 \<and> (\<forall>p. count (held s) p \<le> 1)
     \<and> (\<forall>p \<in># held s. snd p = 0 \<and> (\<exists>v. load_sln s p = Inr v \<and> sendable v))"

definition sys_ok :: "'c server \<Rightarrow> sessions \<Rightarrow> bool" where
  "sys_ok s m \<longleftrightarrow> srv_ok s \<and> sessions_ok s m \<and> held_ok s"

lemma held_ok_count: "held_ok s \<Longrightarrow> count (held s) p \<le> 1"
  by (simp only: held_ok_def)

lemma held_ok_sub:
  assumes "held_ok s" and "held s' \<subseteq># held s" and "sln_mem s' = sln_mem s"
  shows "held_ok s'"
  unfolding held_ok_def
proof (intro conjI allI ballI)
  show "size (held s') < 2 ^ 32"
    using assms(1) size_mset_mono [OF assms(2)] by (simp add: held_ok_def)
  show "count (held s') p \<le> 1" for p
    using held_ok_count [OF assms(1), of p] mset_subset_eq_count [OF assms(2), of p] by linarith
  fix p assume "p \<in># held s'"
  then have "p \<in># held s" using assms(2) by (rule mset_subset_eqD [rotated])
  then show "snd p = 0" "\<exists>v. load_sln s' p = Inr v \<and> sendable v"
    using assms(1) load_sln_cong [OF assms(3)] by (auto simp: held_ok_def)
qed

lemma held_ok_live: "held_ok s \<Longrightarrow> p \<in># held s \<Longrightarrow> live s p"
  by (auto simp: held_ok_def live_def)

lemma sys_ok_sub:
  assumes "sys_ok s m" and "srv_ok s'" and "held s' \<subseteq># held s" and "sln_mem s' = sln_mem s"
    and "clients_map s' = clients_map s"
  shows "sys_ok s' m"
  using assms held_ok_sub by (auto simp: sys_ok_def sessions_ok_def)

text \<open>Any update of a client that keeps its id and takes no new solutions.\<close>

lemma sys_ok_set_client:
  assumes "sys_ok s m" and "a \<in> set (hash_elts (clients_map s))" and "clients s a = Some cl"
    and "cl_id cl' = cl_id cl" and "held_by cl' \<subseteq># held_by cl"
  shows "sys_ok (set_client s a cl') m" "held (set_client s a cl') + held_by cl = held s + held_by cl'"
proof -
  have ok: "srv_ok s" using assms(1) by (simp add: sys_ok_def)
  show h: "held (set_client s a cl') + held_by cl = held s + held_by cl'"
    using held_set_client [OF ok assms(2,3)] .
  then have "held (set_client s a cl') + held_by cl \<subseteq># held s + held_by cl"
    using assms(5) by (simp add: subset_mset.add_left_mono)
  then have "held (set_client s a cl') \<subseteq># held s" by (simp add: subset_mset.add_le_cancel_right)
  then show "sys_ok (set_client s a cl') m"
    using sys_ok_sub [OF assms(1) srv_ok_set_client [OF ok assms(3,4)]] by simp
qed

lemma session_client:
  assumes "sys_ok s m" and "m a = Some i"
  obtains cl where "a \<in> set (hash_elts (clients_map s))" "a \<noteq> NULL" "clients s a = Some cl"
    "HASH_FIND (clients_map s) (store32 i) = Some a"
proof -
  have ok: "srv_ok s" "hash_ok (clients_map s)" "(store32 i, a) \<in> set (hash_entries (clients_map s))"
    "distinct (map fst (hash_entries (clients_map s)))"
    using assms by (simp_all add: sys_ok_def sessions_ok_def srv_ok_def clients_ok_def)
  then have a: "a \<in> set (hash_elts (clients_map s))" by (force simp: hash_elts_entries)
  have "HASH_FIND (clients_map s) (store32 i) = Some a"
    using ut.find_map_of [OF ok(2,4)] ok(3,4) by simp
  then show thesis using that srv_ok_client [OF ok(1) a] a by metis
qed

section \<open>The turns of a session\<close>

lemma sys_ok_remove:
  assumes "sys_ok s m" and "m a = Some i"
  shows "\<exists>s'. remove_client api s i = Some (Inr s') \<and> sys_ok s' (m(a := None))"
proof -
  obtain cl where a: "a \<in> set (hash_elts (clients_map s))" "HASH_FIND (clients_map s) (store32 i) = Some a"
    using session_client [OF assms] by metis
  have ok: "srv_ok s" "held_ok s" "sessions_ok s m" using assms(1) by (simp_all add: sys_ok_def)
  have "held_at s a \<subseteq># held s" using a(1) by (simp add: held_def member_sum_list_mset)
  then have "\<forall>p \<in># held_at s a. live s p" using held_ok_live [OF ok(2)] by (meson mset_subset_eqD)
  moreover have "size (held s) < 2 ^ 32" using ok(2) by (simp add: held_ok_def)
  ultimately obtain s' f where s': "remove_client api s i = Some (Inr s')" "srv_ok s'" "held s = held s' + mset f"
      "sln_mem s' = sln_mem s" "hash_entries (clients_map s') = filter (\<lambda>e. snd e \<noteq> a) (hash_entries (clients_map s))"
    using remove_client_ok [OF ok(1) a(2), of api] by blast
  have "held_ok s'" using held_ok_sub [OF ok(2) _ s'(4)] s'(3) by simp
  moreover have "sessions_ok s' (m(a := None))"
    using ok(3) by (auto simp: sessions_ok_def s'(5) distinct_map_filter)
  ultimately show ?thesis using s'(1,2) by (auto simp: sys_ok_def)
qed

lemma remove_and_break_ok:
  assumes "sys_ok s m" and "m a = Some i"
  shows "\<exists>s'. remove_and_break api s i = Some (Inr (False, s')) \<and> sys_ok s' (m(a := None))"
  using sys_ok_remove [OF assms, of api] by (auto simp: remove_and_break_def obind_def)

lemma process_solutions_safe:
  assumes "sys_ok s m" and "m a = Some i" and "process_solutions s a = Some r"
  shows "\<exists>status s'. r = Inr (status, s') \<and> sys_ok s' m"
proof -
  obtain cl where a: "a \<in> set (hash_elts (clients_map s))" "a \<noteq> NULL" "clients s a = Some cl"
    using session_client [OF assms(1,2)] by metis
  have ok: "srv_ok s" "held_ok s" using assms(1) by (simp_all add: sys_ok_def)
  have sub: "held_by cl \<subseteq># held s"
    using member_sum_list_mset [OF a(1), of "held_at s"] a(3) by (simp add: held_def held_at_def)
  show ?thesis
  proof (cases "solutions_queue cl")
    case Nil
    then have "r = Inr (0, s)" using assms(3) a by (simp add: process_solutions_def obind_def)
    then show ?thesis using assms(1) by blast
  next
    case (Cons p ps)
    have "p \<in># held s" using sub Cons by (intro mset_subset_eqD [OF sub]) (simp add: held_by_def)
    then obtain v where v: "load_sln s p = Inr v" "sendable v" using ok(2) by (auto simp: held_ok_def)
    obtain pkt where ck: "check_packet v = Inr pkt" using v(2) by (simp add: sendable_def check_packet_def)
    then have pkt: "rbind (load_sln s p) check_packet = Inr pkt" "length pkt < 2 ^ 32"
      using check_packet_length [OF ck] v by (simp_all add: sendable_def)
    have small: "size (held s) < 2 ^ 32" using ok(2) by (simp add: held_ok_def)
    have "lq_count (solutions_queue cl) \<noteq> 0"
    proof -
      have "length (solutions_queue cl) \<le> size (held s)"
        using size_mset_mono [OF sub] by (simp add: held_by_def split: option.splits)
      then show ?thesis using small Cons by (simp add: lq_count_zero)
    qed
    then have "process_solutions s a = (case send_retry (cl\<lparr>solutions_queue := ps, checking_solution := Some p, send_pkt := Some pkt\<rparr>) pkt of
           None \<Rightarrow> None
         | Some (Inl status, client') \<Rightarrow> Some (Inr (status, set_client s a client'))
         | Some (Inr n_sent, client') \<Rightarrow>
             Some (Inr (if n_sent < int (length pkt) then CLI_CONNERROR else 0, set_client s a client')))"
      using a(2,3) Cons pkt(1) by (simp add: process_solutions_def obind_def lq_pop_def)
    then obtain status s' where r: "r = Inr (status, s')"
      using assms(3) by (auto split: option.splits sum.splits)
    from process_solutions_ok [OF ok(1) a(1,3) Cons small pkt] assms(3) r obtain cl' rr where
      cl': "retried pkt (cl\<lparr>solutions_queue := ps, checking_solution := Some p, send_pkt := Some pkt\<rparr>) rr cl'"
        "s' = set_client s a cl'" by blast
    have "cl_id cl' = cl_id cl" "held_by cl' \<subseteq># held_by cl"
      using retried_frame [OF cl'(1)] Cons by (simp_all add: held_by_def)
    with sys_ok_set_client(1) [OF assms(1) a(1,3)] show ?thesis by (simp add: r cl'(2))
  qed
qed

lemma read_error:
  "read8 pkt i = Inl e \<Longrightarrow> e = Out_of_bounds" "read16 pkt i = Inl e \<Longrightarrow> e = Out_of_bounds"
  "read32 pkt i = Inl e \<Longrightarrow> e = Out_of_bounds"
  by (auto simp: read8_def read16_def read32_def split: if_splits)

lemma srv_ok_forget: "srv_ok s \<Longrightarrow> srv_ok (forget ps s)"
  by (auto simp: srv_ok_def clients_ok_def compilers_ok_def lists_ok_def fresh_ok_def forget_def restrict_map_def)

text \<open>A result releases the solution it belongs to: it is the only one of its array, and nobody else holds it.\<close>

lemma sys_ok_result:
  assumes ok: "sys_ok s m" and a: "a \<in> set (hash_elts (clients_map s))" "clients s a = Some cl"
  shows "\<exists>s'. solution_free (set_client (s\<lparr>db := d\<rparr>) a (cl\<lparr>checking_solution := None\<rparr>)) (checking_solution cl) = Inr s'
    \<and> sys_ok s' m"
proof -
  let ?cl = "cl\<lparr>checking_solution := None\<rparr>" and ?s = "s\<lparr>db := d\<rparr>"
  have ok': "sys_ok ?s m" using ok sys_ok_sub [of s m ?s] by (simp add: sys_ok_def)
  have set: "sys_ok (set_client ?s a ?cl) m" "held (set_client ?s a ?cl) + held_by cl = held ?s + held_by ?cl"
    using sys_ok_set_client [OF ok', of a cl ?cl] a by (simp_all add: held_by_def)
  show ?thesis
  proof (cases "checking_solution cl")
    case None
    then show ?thesis using set(1) by (simp add: solution_free_def)
  next
    case (Some p)
    let ?t = "set_client ?s a ?cl"
    have h: "held ?s = add_mset p (held ?t)" using set(2) Some by (simp add: held_by_def)
    have hok: "held_ok ?s" "held_ok ?t" using ok' set(1) by (simp_all add: sys_ok_def)
    have p: "snd p = 0" "live ?t p" "p \<notin># held ?t"
    proof -
      show "snd p = 0" using hok(1) h by (simp add: held_ok_def)
      have "live ?s p" using held_ok_live [OF hok(1)] h by simp
      then show "live ?t p" using live_cong [of ?s ?t] by simp
      have "count (held ?s) p \<le> 1" using hok(1) by (rule held_ok_count)
      then show "p \<notin># held ?t" unfolding h by (simp add: not_in_iff)
    qed
    have free: "solution_free ?t (Some p) = Inr (forget [p] ?t)"
      using p(1,2) by (simp add: solution_free_iff freeable_def)
    have "held_ok (forget [p] ?t)"
    proof -
      have held: "held (forget [p] ?t) = held ?t" by (simp add: forget_def held_def held_at_def [abs_def])
      have "load_sln (forget [p] ?t) q = load_sln ?t q" if "q \<in># held ?t" for q
      proof -
        have "snd q = 0" "q \<noteq> p" using that hok(2) p(3) by (auto simp: held_ok_def)
        then have "fst q \<noteq> fst p" using p(1) by (metis prod.expand)
        then show ?thesis by (simp add: load_sln_def forget_def deref_def)
      qed
      then show ?thesis using hok(2) unfolding held_ok_def held by auto
    qed
    moreover have "srv_ok (forget [p] ?t)"
      using set(1) by (simp add: sys_ok_def srv_ok_forget)
    moreover have "sessions_ok (forget [p] ?t) m" using set(1) by (simp add: sys_ok_def sessions_ok_def forget_def)
    ultimately show ?thesis using free Some by (simp add: sys_ok_def)
  qed
qed

lemma handle_packet_safe:
  assumes "sys_ok s m" and "m a = Some i"
  shows "case handle_packet api s a pkt of Inl e \<Rightarrow> e = Out_of_bounds | Inr s' \<Rightarrow> sys_ok s' m"
proof -
  obtain cl where a: "a \<in> set (hash_elts (clients_map s))" "a \<noteq> NULL" "clients s a = Some cl"
    using session_client [OF assms] by metis
  note res = sys_ok_result [OF assms(1) a(1,3)]
  show ?thesis
  proof (cases "handle_packet api s a pkt")
    case (Inr s')
    then show ?thesis using assms(1) res a
      by (auto simp: handle_packet_def res_simps split: if_splits) (metis Inr_inject)
  next
    case (Inl e)
    then show ?thesis using res a read_error
      by (auto simp: handle_packet_def res_simps split: if_splits) (metis Inr_not_Inl)
  qed
qed

lemma recv_timed_out_keeps:
  "cl_id (snd (recv_timed_out cl)) = cl_id cl" "held_by (snd (recv_timed_out cl)) = held_by cl"
  by (simp_all add: recv_timed_out_def held_by_def)

lemma receive_round_safe:
  assumes "sys_ok s m" and "m a = Some i" and "receive_round api s a i = Some r"
  shows "case r of Inl e \<Rightarrow> e = Out_of_bounds | Inr (go_on, s') \<Rightarrow> sys_ok s' (if go_on then m else m(a := None))"
proof -
  obtain cl where a: "a \<in> set (hash_elts (clients_map s))" "a \<noteq> NULL" "clients s a = Some cl"
    using session_client [OF assms(1,2)] by metis
  obtain n len_buf sk where rx: "recv_all (cl_socket cl) [0, 0] 2 = (n, len_buf, sk)" by (metis prod_cases3)
  define cl1 where "cl1 = cl\<lparr>cl_socket := sk\<rparr>"
  have keep: "sys_ok (set_client s a cl') m" if "cl_id cl' = cl_id cl" "held_by cl' = held_by cl" for cl'
    using sys_ok_set_client(1) [OF assms(1) a(1,3)] that by simp
  have cl1: "cl_id cl1 = cl_id cl" "held_by cl1 = held_by cl" by (simp_all add: cl1_def held_by_def)
  have removed: "case r of Inl e \<Rightarrow> e = Out_of_bounds | Inr (go_on, s') \<Rightarrow> sys_ok s' (if go_on then m else m(a := None))"
    if "Some r = remove_and_break api (set_client s a cl') i" "cl_id cl' = cl_id cl" "held_by cl' = held_by cl" for cl'
    using remove_and_break_ok [OF keep [OF that(2,3)] assms(2), of api] that(1) by auto
  show ?thesis
  proof (cases "n \<le> 0")
    case True
    obtain dead cl2 where to: "recv_timed_out cl1 = (dead, cl2)" by fastforce
    have cl2: "cl_id cl2 = cl_id cl" "held_by cl2 = held_by cl"
      using recv_timed_out_keeps [of cl1] cl1 to by simp_all
    have "Some r = (if sk_errno sk = EAGAIN then
            (if dead then remove_and_break api (set_client s a cl2) i else Some (Inr (True, set_client s a cl2)))
          else if sk_errno sk = ECONNRESET then remove_and_break api (set_client s a cl1) i
          else Some (Inr (True, set_client s a cl1)))"
      using assms(3) True a to by (simp add: receive_round_def obind_def rx cl1_def Let_def split: if_splits)
    then show ?thesis
      using removed [OF _ cl2] removed [OF _ cl1] keep [OF cl2] keep [OF cl1] by (auto split: if_splits)
  next
    case False
    define res_len where "res_len = ntohs (load16 (len_buf ! 0) (len_buf ! 1))"
    obtain n2 pkt sk2 where rx2: "recv_all sk (realloc (recv_pkt cl) (unat res_len)) (ucast res_len) = (n2, pkt, sk2)"
      by (metis prod_cases3)
    define cl2 where "cl2 = cl\<lparr>cl_socket := sk2, recv_pkt := Some pkt\<rparr>"
    have cl2: "cl_id cl2 = cl_id cl" "held_by cl2 = held_by cl" by (simp_all add: cl2_def held_by_def)
    have r: "Some r = (if n2 \<noteq> int (unat res_len) then Some (Inr (True, set_client s a cl2))
        else Some (rbind (handle_packet api (set_client s a cl2) a pkt) (\<lambda>s. Inr (True, s))))"
      using assms(3) False a rx2 by (simp add: receive_round_def obind_def rx res_len_def cl2_def Let_def split: if_splits)
    show ?thesis
      using r handle_packet_safe [OF keep [OF cl2] assms(2), of api pkt] keep [OF cl2]
      by (cases "handle_packet api (set_client s a cl2) a pkt") (auto split: if_splits)
  qed
qed

lemma client_round_safe:
  assumes "sys_ok s m" and "m a = Some i" and "client_round api s a i = Some r"
  shows "case r of Inl e \<Rightarrow> e = Out_of_bounds | Inr (go_on, s') \<Rightarrow> sys_ok s' (if go_on then m else m(a := None))"
proof -
  obtain r1 where r1: "process_solutions s a = Some r1"
    using assms(3) by (cases "process_solutions s a") (simp_all add: client_round_def obind_def)
  obtain status s1 where s1: "r1 = Inr (status, s1)" "sys_ok s1 m"
    using process_solutions_safe [OF assms(1,2) r1] by blast
  have "Some r = (if status = CLI_SENDTIMEOUT \<or> status = CLI_CONNERROR then remove_and_break api s1 i
      else receive_round api s1 a i)"
    using assms(3) by (simp add: client_round_def obind_def r1 s1(1))
  then show ?thesis
    using remove_and_break_ok [OF s1(2) assms(2), of api] receive_round_safe [OF s1(2) assms(2), of api r]
    by (auto split: if_splits)
qed

section \<open>The other turns\<close>

lemma add_compilers_clients: "add_compilers s i ids = Inr s' \<Longrightarrow> clients s' = clients s"
  by (induction s i ids rule: add_compilers.induct)
    (auto simp: res_simps find_or_add_compiler_def add_client_id_def split: option.splits prod.splits)

lemma read_compilers_error: "read_compilers pkt off n = Inl e \<Longrightarrow> e = Out_of_bounds"
  by (induction pkt off n rule: read_compilers.induct) (auto simp: res_simps dest: read_error)

lemma read_compilers_length: "read_compilers pkt off n = Inr cs \<Longrightarrow> length cs = n"
  by (induction pkt off n arbitrary: cs rule: read_compilers.induct) (auto simp: res_simps)

text \<open>The handshake either closes the connection, or reads past the end of a short packet, or registers the announced compilers.\<close>

lemma handshake_ends:
  "(\<exists>sk. handshake junk s ep = Inr (None, s\<lparr>closed := closed s @ [sk]\<rparr>)) \<or> handshake junk s ep = Inl Out_of_bounds
    \<or> (\<exists>sk pkt ids. length ids = announced ep
        \<and> handshake junk s ep = rbind (register s sk pkt ids) (\<lambda>s'. Inr (Some (next_addr s), s')))"
proof -
  obtain n0 sk0 where 0: "send_all ep welcome_pkt 3 = (n0, sk0)" by fastforce
  obtain n1 len_buf sk1 where 1: "recv_all sk0 [0, 0] 2 = (n1, len_buf, sk1)" by (metis prod_cases3)
  let ?len = "ntohs (load16 (len_buf ! 0) (len_buf ! 1))"
  obtain n2 pkt sk2 where 2: "recv_all sk1 (replicate (unat ?len) 0) (ucast ?len) = (n2, pkt, sk2)" by (metis prod_cases3)
  show ?thesis
  proof (cases "n1 = 2 \<and> n2 = int (unat ?len) \<and> (\<exists>op. read8 pkt 0 = Inr op \<and> op = OP_COMPILERS_LIST)")
    case False
    then show ?thesis using 0 1 2 read_error(1)
      by (cases "read8 pkt 0") (auto simp: handshake_def reject_def Let_def)
  next
    case True
    then have h: "handshake junk s ep = rbind (read8 pkt 1) (\<lambda>n. rbind (read_compilers pkt 2 (unat n)) (\<lambda>cs.
        rbind (register s sk2 pkt (map (\<lambda>(i, c). (c, junk i)) (enumerate 0 cs))) (\<lambda>s'. Inr (Some (next_addr s), s'))))"
      using 0 1 2 by (auto simp: handshake_def Let_def)
    show ?thesis
    proof (cases "read8 pkt 1")
      case (Inl e)
      then show ?thesis using h read_error(1) by auto
    next
      case (Inr n)
      then have n: "announced ep = unat n" using 0 1 2 by (auto simp: announced_def read8_def Let_def split: if_splits)
      show ?thesis
      proof (cases "read_compilers pkt 2 (unat n)")
        case (Inl e)
        then show ?thesis using h \<open>read8 pkt 1 = Inr n\<close> read_compilers_error by auto
      next
        case cs: (Inr cs)
        then show ?thesis using h Inr n read_compilers_length [OF cs]
          by (intro disjI2 exI [of _ sk2] exI [of _ pkt] exI [of _ "map (\<lambda>(i, c). (c, junk i)) (enumerate 0 cs)"]) simp
      qed
    qed
  qed
qed

lemma cspace_less: "cspace k j s \<Longrightarrow> n \<le> k \<Longrightarrow> n \<le> j \<Longrightarrow> cspace n n s"
  unfolding cspace_def using hash_space_less by (meson le_trans)

lemma connect_safe:
  assumes ok: "sys_ok s m" and adm: "admissible api (T_connect junk ep) s"
  shows "case turn_of api (T_connect junk ep) (s, m) of
      Some (Inl e) \<Rightarrow> e = Out_of_bounds | Some (Inr (s', m')) \<Rightarrow> sys_ok s' m' | None \<Rightarrow> False"
  using handshake_ends [of junk s ep]
proof (elim disjE exE conjE)
  fix sk assume "handshake junk s ep = Inr (None, s\<lparr>closed := closed s @ [sk]\<rparr>)"
  then show ?thesis using ok sys_ok_sub [OF ok, of "s\<lparr>closed := closed s @ [sk]\<rparr>"]
    by (auto simp: sys_ok_def srv_ok_def clients_ok_def compilers_ok_def lists_ok_def fresh_ok_def held_def held_at_def [abs_def])
next
  assume "handshake junk s ep = Inl Out_of_bounds"
  then show ?thesis by simp
next
  fix sk pkt ids
  assume len: "length ids = announced ep"
    and run: "handshake junk s ep = rbind (register s sk pkt ids) (\<lambda>s'. Inr (Some (next_addr s), s'))"
  have room: "hash_room (clients_map s)" "cspace (length ids) (length ids) s"
    and fresh: "store32 (last_client_id s) \<notin> fst ` set (hash_entries (clients_map s))"
    using adm len cspace_less by auto
  obtain s' where r: "register s sk pkt ids = Inr s'" "srv_ok s'" "reg_frame (add_client s sk pkt) s'"
    using register_ok [of s ids sk pkt] ok room by (auto simp: sys_ok_def)
  note fr = reg_frame_eq [OF r(3)]
  have srv: "srv_ok s" using ok by (simp add: sys_ok_def)
  have ent: "hash_entries (clients_map s') = hash_entries (clients_map s) @ [(store32 (last_client_id s), next_addr s)]"
    using fr(2) add_client_ok(2) [OF srv room(1)] by simp
  have "sessions_ok s' (m(next_addr s \<mapsto> last_client_id s))"
    using ok fresh by (auto simp: sys_ok_def sessions_ok_def ent)
  moreover have "held_ok s'"
    using ok held_ok_sub [of s s'] held_register [OF srv room(1) r(3)] fr(4)
    by (simp add: sys_ok_def add_client_def Let_def)
  ultimately show ?thesis using r(1,2) run by (simp add: sys_ok_def)
qed

lemma handed_over_sub:
  assumes "handed_over a ps f s s'"
  shows "held s' \<subseteq># ps + held s" "srv_ok s'"
proof -
  have "ps + held s = held s' + mset f" "srv_ok s'" using assms by (simp_all only: handed_over_def)
  then show "held s' \<subseteq># ps + held s" "srv_ok s'" by simp_all
qed

lemma poll_safe:
  assumes ok: "sys_ok s m" and ex: "solutions_extract_new api (db s) False = Inr (ret, arr, len, d)"
    and one: "length (case arr of None \<Rightarrow> [] | Some slns \<Rightarrow> slns) \<le> 1"
    and good: "list_all sendable (case arr of None \<Rightarrow> [] | Some slns \<Rightarrow> slns)"
    and small: "size (held s) + 1 < 2 ^ 32" and run: "poll_round api s = Inr s'"
  shows "sys_ok s' m"
proof -
  define slns where "slns = (case arr of None \<Rightarrow> [] | Some slns \<Rightarrow> slns)"
  define s1 where "s1 = store_batch (s\<lparr>db := d\<rparr>) arr"
  define new where "new = mset (map (Pair (next_addr s)) [0..<length slns])"
  have srv: "srv_ok s" "held_ok s" "sessions_ok s m" using ok by (simp_all add: sys_ok_def)
  have s1: "srv_ok s1" "held s1 = held s" "clients_map s1 = clients_map s"
    using store_batch_ok [of "s\<lparr>db := d\<rparr>" arr] srv(1) by (simp_all add: s1_def store_batch_def split: option.splits)
  have nn: "next_addr s \<noteq> NULL" "sln_mem s (next_addr s) = None" using srv(1) by (auto simp: srv_ok_def fresh_ok_def)
  have old: "fst p \<noteq> next_addr s" if "p \<in># held s" for p
    using held_ok_live [OF srv(2) that] nn by (auto simp: live_def load_sln_def res_simps)
  have load: "load_sln s1 p = load_sln s p" if "p \<in># held s" for p
    using old [OF that] by (simp add: s1_def store_batch_def load_sln_def deref_def split: option.splits)
  have fresh: "snd p = 0 \<and> (\<exists>v. load_sln s1 p = Inr v \<and> sendable v)" if "p \<in># new" for p
  proof -
    from that one obtain v where v: "arr = Some [v]" "p = (next_addr s, 0)"
      by (cases slns) (auto simp: new_def slns_def split: option.splits)
    then have "sendable v" using good by simp
    then show ?thesis using v nn(1) by (simp add: s1_def store_batch_def load_sln_def)
  qed
  have sub: "held s' \<subseteq># new + held s" "srv_ok s'" "sln_mem s' = sln_mem s1" "clients_map s' = clients_map s1"
  proof -
    have "s' = s1 \<or> (\<exists>f. handed_over NULL new f s1 s')"
    proof (cases "ret = 0")
      case False
      then show ?thesis using run ex by (simp add: poll_round_def s1_def)
    next
      case True
      have "size (held s) + length (concat (map (case_option [] id) [arr])) < 2 ^ 32"
        using one small by (cases arr) simp_all
      with poll_round_ok [OF srv(1)] ex True run show ?thesis unfolding new_def slns_def s1_def by fastforce
    qed
    then show "held s' \<subseteq># new + held s" "srv_ok s'" "sln_mem s' = sln_mem s1" "clients_map s' = clients_map s1"
      using s1 handed_over_sub [of NULL new _ s1 s'] handed_over_frame(1,2) [of NULL new _ s1 s'] by auto
  qed
  have "held_ok s'"
    unfolding held_ok_def
  proof (intro conjI allI ballI)
    have "size (held s') \<le> size new + size (held s)" using size_mset_mono [OF sub(1)] by simp
    then show "size (held s') < 2 ^ 32" using one small by (simp add: new_def slns_def)
    show "count (held s') p \<le> 1" for p
    proof -
      have "distinct (map (Pair (next_addr s)) [0..<length slns])" by (simp add: distinct_map inj_on_def)
      then have "count new p \<le> 1" unfolding new_def distinct_count_le by (rule spec)
      moreover have "count new p = 0 \<or> count (held s) p = 0"
      proof (rule ccontr)
        assume "\<not> (count new p = 0 \<or> count (held s) p = 0)"
        then have "p \<in># new" "p \<in># held s" by (simp_all add: count_eq_zero_iff)
        then show False using old [of p] by (auto simp: new_def)
      qed
      ultimately show ?thesis
        using mset_subset_eq_count [OF sub(1), of p] held_ok_count [OF srv(2), of p] by auto
    qed
    fix p assume "p \<in># held s'"
    then have "p \<in># new + held s" using sub(1) by (rule mset_subset_eqD [rotated])
    then have "p \<in># new \<or> p \<in># held s" by simp
    then have "snd p = 0 \<and> (\<exists>v. load_sln s1 p = Inr v \<and> sendable v)"
    proof
      assume p: "p \<in># held s"
      then have "snd p = 0 \<and> (\<exists>v. load_sln s p = Inr v \<and> sendable v)" using srv(2) unfolding held_ok_def by blast
      then show ?thesis unfolding load [OF p] .
    qed (rule fresh)
    then show "snd p = 0" "\<exists>v. load_sln s' p = Inr v \<and> sendable v" using load_sln_cong [OF sub(3)] by auto
  qed
  moreover have "sessions_ok s' m" using srv(3) s1(3) sub(4) by (simp add: sessions_ok_def)
  ultimately show ?thesis using sub(2) by (simp add: sys_ok_def)
qed

lemma poll_turn_safe:
  assumes ok: "sys_ok s m" and adm: "admissible api T_poll s"
  shows "case turn_of api T_poll (s, m) of Some (Inl e) \<Rightarrow> solutions_extract_new api (db s) False = Inl e
    | Some (Inr (s', m')) \<Rightarrow> sys_ok s' m' | None \<Rightarrow> False"
proof (cases "solutions_extract_new api (db s) False")
  case (Inl e)
  then show ?thesis by (simp add: poll_round_def)
next
  case (Inr r)
  then obtain ret arr len d where ex: "solutions_extract_new api (db s) False = Inr (ret, arr, len, d)" by (cases r) auto
  have one: "length (case arr of None \<Rightarrow> [] | Some slns \<Rightarrow> slns) \<le> 1"
    and good: "list_all sendable (case arr of None \<Rightarrow> [] | Some slns \<Rightarrow> slns)" and small: "size (held s) + 1 < 2 ^ 32"
    using adm ex by (cases arr; simp)+
  have "\<exists>s'. poll_round api s = Inr s'"
  proof (cases "ret = 0")
    case False
    then show ?thesis by (simp add: poll_round_def ex)
  next
    case True
    have "size (held s) + length (concat (map (case_option [] id) [arr])) < 2 ^ 32" using one small by (cases arr) simp_all
    then show ?thesis using poll_round_ok [of s api arr len d] ok ex True by (auto simp: sys_ok_def)
  qed
  then show ?thesis using poll_safe [OF ok ex one good small] by auto
qed

text \<open>
  Every turn keeps the invariant, or fails in one of two ways: a packet is too short for what is read from it, or the
  fetch itself meets an SQL \<^verbatim>\<open>NULL\<close> or too short a row.
\<close>

lemma turn_safe:
  assumes ok: "sys_ok s m" and adm: "admissible api t s"
  shows "case turn_of api t (s, m) of None \<Rightarrow> \<exists>a. t = T_session a
    | Some (Inl e) \<Rightarrow> if t = T_poll then solutions_extract_new api (db s) False = Inl e else t \<noteq> T_stop \<and> e = Out_of_bounds
    | Some (Inr (s', m')) \<Rightarrow> sys_ok s' m'"
proof (cases t)
  case (T_connect junk ep)
  then show ?thesis using connect_safe [OF ok, of api junk ep] adm
    by (cases "turn_of api (T_connect junk ep) (s, m)") (auto split: option.splits sum.splits)
next
  case (T_session a)
  show ?thesis
  proof (cases "m a")
    case None
    then show ?thesis using ok T_session by simp
  next
    case (Some i)
    show ?thesis
    proof (cases "server_running s")
      case True
      show ?thesis using T_session Some True client_round_safe [OF ok Some, of api]
        by (cases "client_round api s a i") (auto split: sum.splits prod.splits)
    next
      case False
      then show ?thesis using ok T_session Some by (auto simp: sys_ok_def sessions_ok_def)
    qed
  qed
next
  case T_poll
  then show ?thesis using poll_turn_safe [OF ok, of api] adm
    by (cases "turn_of api T_poll (s, m)") (auto split: option.splits sum.splits)
next
  case T_stop
  let ?s = "s\<lparr>server_running := False\<rparr>"
  have "srv_ok ?s" "held ?s = held s" using ok
    by (auto simp: sys_ok_def srv_ok_def clients_ok_def compilers_ok_def lists_ok_def fresh_ok_def held_def held_at_def [abs_def])
  then show ?thesis using T_stop sys_ok_sub [OF ok, of ?s] by simp
qed

lemma sys_ok_init: "sys_ok (server_init d) Map.empty"
  by (simp add: sys_ok_def sessions_ok_def held_ok_def server_init_def srv_ok_def clients_ok_def compilers_ok_def
      lists_ok_def fresh_ok_def hash_ok_def hash_entries_def held_def hash_elts_def)

lemma sys_reachable_ok: "sys_reachable api d st \<Longrightarrow> sys_ok (fst st) (snd st)"
proof (induction rule: sys_reachable.induct)
  case init
  then show ?case using sys_ok_init by simp
next
  case (step st st')
  then obtain t where t: "admissible api t (fst st)" "turn_of api t (fst st, snd st) = Some (Inr st')" by (auto elim: sys_step.cases)
  show ?case using turn_safe [OF step.IH t(1)] t(2) by (auto split: prod.splits)
qed

lemma cleanup_from:
  assumes "sys_ok s m"
  shows "\<exists>s'. cleanup s = Inr s' \<and> clients_map s' = None \<and> compilers_map s' = None"
proof -
  have "srv_ok s" and held: "held_ok s" using assms by (simp_all add: sys_ok_def)
  moreover have "\<forall>p. count (held s) p \<le> 1" using held_ok_count [OF held] by blast
  moreover have "\<forall>p \<in># held s. live s p" using held_ok_live [OF held] by blast
  moreover have "\<forall>p \<in># held s. snd p = 0" using held by (simp add: held_ok_def)
  ultimately show ?thesis using cleanup_ends by blast
qed

section \<open>Properties\<close>

text \<open>
  C1: the server as a whole.  If every fetch brings at most one solution and new clients get unused
  ids, then however the turns of the threads are interleaved, whatever the clients send and however
  the network behaves: the tables stay intact, every solution is held by at most one client and is
  still in memory, each session's client is the one its id leads to, and shutting down at this point runs to its end and
  leaves no table behind.  And no next turn of any thread, whether it succeeds or fails, touches
  released memory or releases anything wrongly: a connection or a session can only fail by reading past the end of
  a packet too short for its kind; a turn of the polling loop always ends, and only fails where the fetch itself fails, before
  any solution is handed on, by reading an SQL \<^verbatim>\<open>NULL\<close> as a number or a row with too few columns; the stop command
  never fails.
\<close>

theorem system_safe:
  assumes "sys_reachable api d (s, m)"
  shows "srv_ok s \<and> (\<forall>p. count (held s) p \<le> 1) \<and> (\<forall>p \<in># held s. live s p)
    \<and> (\<forall>a i. m a = Some i \<longrightarrow> HASH_FIND (clients_map s) (store32 i) = Some a \<and> clients s a \<noteq> None
         \<and> (\<forall>e. client_round api s a i = Some (Inl e) \<longrightarrow> e = Out_of_bounds))
    \<and> (\<forall>junk ep e. admissible api (T_connect junk ep) s \<and> handshake junk s ep = Inl e \<longrightarrow> e = Out_of_bounds)
    \<and> (\<forall>e. admissible api T_poll s \<and> poll_round api s = Inl e \<longrightarrow>
         solutions_extract_new api (db s) False = Inl e \<and> e \<in> {Null_deref, Out_of_bounds})
    \<and> (\<forall>t. admissible api t s \<and> turn_of api t (s, m) = None \<longrightarrow> (\<exists>a. t = T_session a))
    \<and> turn_of api T_stop (s, m) = Some (Inr (s\<lparr>server_running := False\<rparr>, m))
    \<and> (\<exists>s'. cleanup s = Inr s' \<and> clients_map s' = None \<and> compilers_map s' = None)"
proof -
  have ok: "sys_ok s m" using sys_reachable_ok [OF assms] by simp
  then have srv: "srv_ok s" and held: "held_ok s" by (simp_all add: sys_ok_def)
  have "\<forall>p. count (held s) p \<le> 1" using held_ok_count [OF held] by blast
  moreover have "\<forall>p \<in># held s. live s p" using held_ok_live [OF held] by blast
  moreover have "HASH_FIND (clients_map s) (store32 i) = Some a \<and> clients s a \<noteq> None
      \<and> (\<forall>e. client_round api s a i = Some (Inl e) \<longrightarrow> e = Out_of_bounds)" if "m a = Some i" for a i
    using session_client [OF ok that] client_round_safe [OF ok that] by fastforce
  moreover have "e = Out_of_bounds" if "admissible api (T_connect junk ep) s" "handshake junk s ep = Inl e" for junk ep e
    using connect_safe [OF ok that(1)] that(2) by simp
  moreover have "solutions_extract_new api (db s) False = Inl e \<and> e \<in> {Null_deref, Out_of_bounds}"
    if "admissible api T_poll s" "poll_round api s = Inl e" for e
    using poll_turn_safe [OF ok that(1)] that(2) extract_new_error [of api "db s" False e] by simp
  moreover have "\<exists>a. t = T_session a" if "admissible api t s" "turn_of api t (s, m) = None" for t
    using turn_safe [OF ok that(1)] that(2) by simp
  ultimately show ?thesis using srv cleanup_from [OF ok] by (simp only: turn_of.simps) blast
qed

lemma announced_delivers:
  assumes "delivers ep body rest"
  shows "announced ep = (if 1 < length body then unat (body ! 1) else 0)"
  using handshake_reads [OF assms] by (elim exE conjE) (simp add: announced_def be16_reads)

text \<open>One client has connected and announced compiler 1.\<close>

definition demo_ep :: socket where
  "demo_ep = demo_socket\<lparr>sk_in := [0, 4, 0x89, 1, 0, 1], sk_rx := \<lambda>_. Avail 3\<rparr>"

lemma demo_connect:
  "\<exists>s'. admissible demo_api (T_connect (\<lambda>_. (0, 0)) demo_ep) (server_init d)
    \<and> turn_of demo_api (T_connect (\<lambda>_. (0, 0)) demo_ep) (server_init d, Map.empty) = Some (Inr (s', [1 \<mapsto> 1]))"
proof -
  let ?s = "server_init d"
  have dl: "delivers demo_ep [0x89, 1, 0, 1] []" by (simp add: delivers_def be16_def demo_ep_def)
  moreover have "read_compilers [0x89, 1, 0, 1] 2 1 = Inr [1]"
    using read_compilers_be16 [of "[0x89, 1]" 2 "[1]" "[]"] by (simp add: be16_def)
  ultimately obtain sk where h: "handshake (\<lambda>_. (0, 0)) ?s demo_ep
      = rbind (register ?s sk [0x89, 1, 0, 1] [(1, 0, 0)]) (\<lambda>s'. Inr (Some (next_addr ?s), s'))"
    using handshake_delivers [of demo_ep "[0x89, 1, 0, 1]" "[]" "\<lambda>_. (0, 0)" ?s] by (auto simp: read8_def)
  have room: "hash_room (clients_map ?s)" "cspace 25 25 ?s" "cspace (length [(1, 0, 0)]) (length [(1, 0, 0)]) ?s"
    by (simp_all add: server_init_def hash_room_def cspace_def)
  have "srv_ok ?s" using sys_ok_init [of d] by (simp add: sys_ok_def)
  from register_ok [OF this room(1,3), of sk "[0x89, 1, 0, 1]"] obtain s' where
    reg: "register ?s sk [0x89, 1, 0, 1] [(1, 0, 0)] = Inr s'" by blast
  then have run: "handshake (\<lambda>_. (0, 0)) ?s demo_ep = Inr (Some 1, s')" using h by (simp add: server_init_def)
  have "announced demo_ep = 1" using announced_delivers [OF dl] by simp
  then have "admissible demo_api (T_connect (\<lambda>_. (0, 0)) demo_ep) ?s" using room by (simp add: server_init_def hash_entries_def)
  then show ?thesis using run by (simp add: server_init_def)
qed

theorem system_safe_witness:
  "\<exists>s. sys_reachable demo_api \<lparr>conn = (), sent = []\<rparr> (s, [1 \<mapsto> 1])
    \<and> HASH_FIND (clients_map s) (store32 1) = Some 1 \<and> (\<exists>s'. cleanup s = Inr s' \<and> clients_map s' = None)"
proof -
  let ?d = "\<lparr>conn = (), sent = []\<rparr>"
  obtain s where "admissible demo_api (T_connect (\<lambda>_. (0, 0)) demo_ep) (fst (server_init ?d, Map.empty :: sessions))"
      "turn_of demo_api (T_connect (\<lambda>_. (0, 0)) demo_ep) (server_init ?d, Map.empty) = Some (Inr (s, [1 \<mapsto> 1]))"
    using demo_connect [of ?d] by auto
  from sys_reachable.step [OF sys_reachable.init sys_step.turn [OF this]]
  have s: "sys_reachable demo_api ?d (s, [1 \<mapsto> 1])" .
  from system_safe [OF s] s show ?thesis by auto
qed

text \<open>
  C40: a shared id ends in released memory.  When two connected clients have the same id, the table leads
  to only one of them.  If the other one's session ends, \<^verbatim>\<open>remove_client\<close> releases the client the table
  leads to: the next turn of that client's own session dereferences released memory, while the client
  that left stays in the table with its socket open.
\<close>

theorem shared_id_use_after_free:
  assumes "srv_ok s" and "(store32 i, a) \<in> set (hash_entries (clients_map s))"
    and "HASH_FIND (clients_map s) (store32 i) = Some b" and "a \<noteq> b"
    and "\<forall>p \<in># held_at s b. live s p" and "size (held s) < 2 ^ 32"
  shows "\<exists>s'. remove_client api s i = Some (Inr s')
    \<and> client_round api s' b i = Some (Inl Use_after_free)
    \<and> (store32 i, a) \<in> set (hash_entries (clients_map s')) \<and> clients s' a \<noteq> None"
proof -
  obtain s' where s': "remove_client api s i = Some (Inr s')" "srv_ok s'" "clients s' b = None"
      "hash_entries (clients_map s') = filter (\<lambda>e. snd e \<noteq> b) (hash_entries (clients_map s))"
    using remove_client_ok [OF assms(1,3,5,6), of api] by blast
  have "b \<noteq> NULL" using srv_ok_find_client [OF assms(1,3)] by blast
  then have "client_round api s' b i = Some (Inl Use_after_free)"
    using s'(3) by (simp add: client_round_def process_solutions_def obind_def deref_def)
  moreover have a: "(store32 i, a) \<in> set (hash_entries (clients_map s'))" using assms(2,4) by (simp add: s'(4))
  moreover have "clients s' a \<noteq> None" using s'(2) a by (auto simp: srv_ok_def clients_ok_def)
  ultimately show ?thesis using s'(1) by blast
qed

theorem shared_id_use_after_free_witness:
  "\<exists>b s'. remove_client demo_api (add_client (demo_one\<lparr>last_client_id := 1\<rparr>) demo_socket []) 1 = Some (Inr s')
    \<and> client_round demo_api s' b 1 = Some (Inl Use_after_free)"
proof -
  let ?s = "demo_one\<lparr>last_client_id := 1\<rparr>"
  let ?t = "add_client ?s demo_socket []"
  have ok: "srv_ok ?s" using demo_one_ok(1) by (simp add: srv_ok_def clients_ok_def fresh_ok_def)
  have room: "hash_room (clients_map ?s)" using demo_one_ok(9) by simp
  have t: "srv_ok ?t" "hash_entries (clients_map ?t) = [(store32 1, 2), (store32 1, next_addr demo_one)]"
    using add_client_ok [OF ok room, of demo_socket "[]"] demo_one_ok(2) by simp_all
  have ne: "next_addr demo_one \<noteq> 2" using fresh_not_listed(1) [OF demo_one_ok(1)] demo_one_ok(2) by auto
  have "held ?t = held ?s" using held_register [OF ok room, of demo_socket "[]" ?t] by (simp add: reg_frame_def)
  also have "held ?s = {#}" using demo_one_ok(8) by (simp add: held_def held_at_def [abs_def])
  finally have h: "held ?t = {#}" .
  obtain b where b: "HASH_FIND (clients_map ?t) (store32 1) = Some b"
    using ut.find_iff [of "clients_map ?t" "store32 1"] t by (auto simp: srv_ok_def clients_ok_def)
  then have mem: "(store32 1, b) \<in> set (hash_entries (clients_map ?t))"
    using ut.find_Some t(1) by (simp add: srv_ok_def clients_ok_def)
  then have "b \<in> set (hash_elts (clients_map ?t))" by (force simp: hash_elts_entries)
  then have "held_at ?t b = {#}" using size_held_at [of b ?t] h by simp
  moreover obtain a where "(store32 1, a) \<in> set (hash_entries (clients_map ?t))" "a \<noteq> b"
  proof (cases "b = 2")
    case True
    then show thesis using that [of "next_addr demo_one"] ne by (simp add: t(2))
  next
    case False
    then show thesis using that [of 2] by (simp add: t(2))
  qed
  ultimately show ?thesis using shared_id_use_after_free [OF t(1) _ b, of a demo_api] h by auto
qed

end
