(* ===== verification/Thread_Pool.thy ===== *)
theory Thread_Pool
  imports Queue "HOL-Library.Multiset"
begin

text \<open>
  The thread pool of \<^verbatim>\<open>thread_pool.c\<close> as a transition system: the workers, each at a statement of
  \<^verbatim>\<open>thread_exec\<close>, and the thread that calls \<^verbatim>\<open>thread_pool_execute\<close> and \<^verbatim>\<open>destroy_thread_pool\<close> (the server
  calls both from its main thread only).  Every access to shared state is a step of its own; the scheduler,
  the choice of the thread \<^verbatim>\<open>pthread_cond_signal\<close> wakes and spurious wake-ups are left open.  A task that
  is called may return at any later time.
\<close>

section \<open>State\<close>

text \<open>Where a worker is; the comments of \<^verbatim>\<open>worker_step\<close> name the lines.\<close>

datatype wpc = W_check | W_lock | W_test | W_towait | W_wait | W_relock | W_if | W_unlock addr
  | W_call addr | W_in addr | W_lockfree addr | W_free addr | W_unlockfree | W_done | W_crash

datatype cpc = C_idle | E_lock addr | E_push addr | E_signal | E_unlock
  | D_lock | D_broadcast | D_unlock | D_join nat | D_end

datatype tid = Worker nat | Control

record 'f task =
  task_func :: 'f
  task_arg :: addr

text \<open>
  The fields of \<^verbatim>\<open>thread_pool\<close>, the memory of tasks, where each thread is, and a record of what happened:
  the tasks in the order they were pushed, popped and called.
\<close>

record 'f thread_pool =
  threads_num :: nat
  cancelled :: bool
  tasks_queue :: "addr lqueue"
  mutex :: "tid option"
  mutex_free :: "tid option"
  task_mem :: "addr \<rightharpoonup> 'f task"
  next_task :: addr
  workers :: "nat \<Rightarrow> wpc"
  ctl :: cpc
  pushed :: "addr list"
  popped :: "addr list"
  called :: "addr list"

definition init_thread_pool :: "nat \<Rightarrow> 'f thread_pool" where
  "init_thread_pool n = \<lparr>threads_num = n, cancelled = False, tasks_queue = [], mutex = None,
     mutex_free = None, task_mem = Map.empty, next_task = 1, workers = (\<lambda>_. W_check), ctl = C_idle,
     pushed = [], popped = [], called = []\<rparr>"

section \<open>Steps\<close>

abbreviation goto :: "nat \<Rightarrow> wpc \<Rightarrow> 'f thread_pool \<Rightarrow> 'f thread_pool" where
  "goto i c p \<equiv> p\<lparr>workers := (workers p)(i := c)\<rparr>"

text \<open>
  \<^verbatim>\<open>thread_exec\<close>, one statement.  \<open>None\<close>: the thread cannot go on now.  \<open>W_crash\<close>: it uses a task pointer
  that is \<^verbatim>\<open>NULL\<close> or was released.
\<close>

definition worker_step :: "'f thread_pool \<Rightarrow> nat \<Rightarrow> 'f thread_pool option" where
  "worker_step p i = (case workers p i of
     W_check \<Rightarrow> Some (goto i (if cancelled p then W_done else W_lock) p)
   | W_lock \<Rightarrow> if mutex p = None then Some (goto i W_test p\<lparr>mutex := Some (Worker i)\<rparr>) else None
   | W_test \<Rightarrow> Some (goto i (if \<not> cancelled p \<and> lq_count (tasks_queue p) = 0 then W_towait else W_if) p)
   | W_towait \<Rightarrow> Some (goto i W_wait p\<lparr>mutex := None\<rparr>)
   | W_wait \<Rightarrow> None
   | W_relock \<Rightarrow> if mutex p = None then Some (goto i W_test p\<lparr>mutex := Some (Worker i)\<rparr>) else None
   | W_if \<Rightarrow> if cancelled p then Some (goto i W_done p\<lparr>mutex := None\<rparr>)
       else (case lq_pop (tasks_queue p) of
           (None, _) \<Rightarrow> Some (goto i W_crash p)
         | (Some t, q) \<Rightarrow> Some (goto i (W_unlock t) p\<lparr>tasks_queue := q, popped := popped p @ [t]\<rparr>))
   | W_unlock t \<Rightarrow> Some (goto i (W_call t) p\<lparr>mutex := None\<rparr>)
   | W_call t \<Rightarrow> (case task_mem p t of
         None \<Rightarrow> Some (goto i W_crash p)
       | Some _ \<Rightarrow> Some (goto i (W_in t) p\<lparr>called := called p @ [t]\<rparr>))
   | W_in t \<Rightarrow> Some (goto i (W_lockfree t) p)
   | W_lockfree t \<Rightarrow> if mutex_free p = None then Some (goto i (W_free t) p\<lparr>mutex_free := Some (Worker i)\<rparr>) else None
   | W_free t \<Rightarrow> (case task_mem p t of
         None \<Rightarrow> Some (goto i W_crash p)
       | Some _ \<Rightarrow> Some (goto i W_unlockfree p\<lparr>task_mem := (task_mem p)(t := None)\<rparr>))
   | W_unlockfree \<Rightarrow> Some (goto i W_check p\<lparr>mutex_free := None\<rparr>)
   | W_done \<Rightarrow> None
   | W_crash \<Rightarrow> None)"

text \<open>\<^verbatim>\<open>thread_pool_execute\<close>: the call allocates the task, the rest is below.\<close>

definition thread_pool_execute :: "'f thread_pool \<Rightarrow> 'f \<Rightarrow> addr \<Rightarrow> 'f thread_pool" where
  "thread_pool_execute p func arg = p\<lparr>task_mem := (task_mem p)(next_task p \<mapsto> \<lparr>task_func = func, task_arg = arg\<rparr>),
     next_task := Suc (next_task p), ctl := E_lock (next_task p)\<rparr>"

definition is_waiting :: "'f thread_pool \<Rightarrow> nat \<Rightarrow> bool" where
  "is_waiting p i \<longleftrightarrow> i < threads_num p \<and> workers p i = W_wait"

text \<open>\<^verbatim>\<open>pthread_cond_broadcast\<close> and the end of \<^verbatim>\<open>destroy_thread_pool\<close>, after the joins.\<close>

definition broadcast :: "'f thread_pool \<Rightarrow> 'f thread_pool" where
  "broadcast p = p\<lparr>workers := (\<lambda>i. if is_waiting p i then W_relock else workers p i)\<rparr>"

definition release_pool :: "'f thread_pool \<Rightarrow> 'f thread_pool" where
  "release_pool p = p\<lparr>task_mem := task_mem p |` (- set (tasks_queue p)), tasks_queue := [], ctl := D_end\<rparr>"

text \<open>The controlling thread, and the wake-ups that come from nowhere.\<close>

inductive control_step :: "'f thread_pool \<Rightarrow> 'f thread_pool \<Rightarrow> bool" where
  spurious: "is_waiting p i \<Longrightarrow> control_step p (goto i W_relock p)"
| execute: "ctl p = C_idle \<Longrightarrow> control_step p (thread_pool_execute p func arg)"
| lock: "ctl p = E_lock t \<Longrightarrow> mutex p = None \<Longrightarrow> control_step p (p\<lparr>mutex := Some Control, ctl := E_push t\<rparr>)"
| push: "ctl p = E_push t \<Longrightarrow> length (tasks_queue p) + 1 < 2 ^ 32 \<Longrightarrow>
    control_step p (p\<lparr>tasks_queue := lq_push t (tasks_queue p), pushed := pushed p @ [t], ctl := E_signal\<rparr>)"
| signal_one: "ctl p = E_signal \<Longrightarrow> is_waiting p i \<Longrightarrow> control_step p (goto i W_relock p\<lparr>ctl := E_unlock\<rparr>)"
| signal_none: "ctl p = E_signal \<Longrightarrow> \<forall>i. \<not> is_waiting p i \<Longrightarrow> control_step p (p\<lparr>ctl := E_unlock\<rparr>)"
| unlock: "ctl p = E_unlock \<Longrightarrow> control_step p (p\<lparr>mutex := None, ctl := C_idle\<rparr>)"
| destroy: "ctl p = C_idle \<Longrightarrow> control_step p (p\<lparr>cancelled := True, ctl := D_lock\<rparr>)"
| destroy_lock: "ctl p = D_lock \<Longrightarrow> mutex p = None \<Longrightarrow> control_step p (p\<lparr>mutex := Some Control, ctl := D_broadcast\<rparr>)"
| destroy_broadcast: "ctl p = D_broadcast \<Longrightarrow> control_step p (broadcast p\<lparr>ctl := D_unlock\<rparr>)"
| destroy_unlock: "ctl p = D_unlock \<Longrightarrow> control_step p (p\<lparr>mutex := None, ctl := D_join 0\<rparr>)"
| destroy_join: "ctl p = D_join k \<Longrightarrow> k < threads_num p \<Longrightarrow> workers p k = W_done \<Longrightarrow>
    control_step p (p\<lparr>ctl := D_join (Suc k)\<rparr>)"
| destroy_free: "ctl p = D_join k \<Longrightarrow> k = threads_num p \<Longrightarrow> control_step p (release_pool p)"

inductive pool_step :: "'f thread_pool \<Rightarrow> 'f thread_pool \<Rightarrow> bool" where
  worker: "i < threads_num p \<Longrightarrow> worker_step p i = Some p' \<Longrightarrow> pool_step p p'"
| control: "control_step p p' \<Longrightarrow> pool_step p p'"

inductive reachable :: "nat \<Rightarrow> 'f thread_pool \<Rightarrow> bool" for n :: nat where
  init: "reachable n (init_thread_pool n)"
| step: "reachable n p \<Longrightarrow> pool_step p p' \<Longrightarrow> reachable n p'"

section \<open>The invariant\<close>

definition holds_mutex :: "wpc \<Rightarrow> bool" where
  "holds_mutex c = (case c of W_test \<Rightarrow> True | W_towait \<Rightarrow> True | W_if \<Rightarrow> True | W_unlock _ \<Rightarrow> True | _ \<Rightarrow> False)"

definition ctl_holds :: "cpc \<Rightarrow> bool" where
  "ctl_holds c = (case c of E_push _ \<Rightarrow> True | E_signal \<Rightarrow> True | E_unlock \<Rightarrow> True | D_broadcast \<Rightarrow> True
     | D_unlock \<Rightarrow> True | _ \<Rightarrow> False)"

definition holds_free :: "wpc \<Rightarrow> bool" where
  "holds_free c = (case c of W_free _ \<Rightarrow> True | W_unlockfree \<Rightarrow> True | _ \<Rightarrow> False)"

definition destroying :: "cpc \<Rightarrow> bool" where
  "destroying c = (case c of D_lock \<Rightarrow> True | D_broadcast \<Rightarrow> True | D_unlock \<Rightarrow> True | D_join _ \<Rightarrow> True
     | D_end \<Rightarrow> True | _ \<Rightarrow> False)"

definition woken :: "cpc \<Rightarrow> bool" where
  "woken c = (case c of D_unlock \<Rightarrow> True | D_join _ \<Rightarrow> True | D_end \<Rightarrow> True | _ \<Rightarrow> False)"

definition own_worker :: "wpc \<Rightarrow> addr multiset" where
  "own_worker c = (case c of W_unlock t \<Rightarrow> {#t#} | W_call t \<Rightarrow> {#t#} | W_in t \<Rightarrow> {#t#} | W_lockfree t \<Rightarrow> {#t#}
     | W_free t \<Rightarrow> {#t#} | _ \<Rightarrow> {#})"

definition own_ctl :: "cpc \<Rightarrow> addr multiset" where
  "own_ctl c = (case c of E_lock t \<Rightarrow> {#t#} | E_push t \<Rightarrow> {#t#} | _ \<Rightarrow> {#})"

definition owned :: "'f thread_pool \<Rightarrow> addr multiset" where
  "owned p = mset (tasks_queue p) + (\<Sum>i<threads_num p. own_worker (workers p i)) + own_ctl (ctl p)"

lemmas pc_simps = holds_mutex_def ctl_holds_def holds_free_def destroying_def woken_def own_worker_def own_ctl_def

text \<open>Mutual exclusion: a thread is inside a critical section exactly while it owns the mutex.\<close>

definition mutex_ok :: "'f thread_pool \<Rightarrow> bool" where
  "mutex_ok p \<longleftrightarrow> (\<forall>i < threads_num p. holds_mutex (workers p i) \<longleftrightarrow> mutex p = Some (Worker i))
     \<and> (ctl_holds (ctl p) \<longleftrightarrow> mutex p = Some Control)
     \<and> (\<forall>i < threads_num p. holds_free (workers p i) \<longleftrightarrow> mutex_free p = Some (Worker i))
     \<and> mutex p \<in> insert None (insert (Some Control) ((\<lambda>i. Some (Worker i)) ` {..<threads_num p}))
     \<and> mutex_free p \<in> insert None ((\<lambda>i. Some (Worker i)) ` {..<threads_num p})"

lemmas worker_splits = if_splits option.splits prod.splits

lemma worker_step_frame:
  assumes "worker_step p i = Some p'"
  shows "threads_num p' = threads_num p" "cancelled p' = cancelled p" "ctl p' = ctl p" "pushed p' = pushed p"
    "next_task p' = next_task p" "j \<noteq> i \<Longrightarrow> workers p' j = workers p j"
  using assms by (cases "workers p i"; auto simp: worker_step_def split: worker_splits)+

lemma mutex_ok_init: "mutex_ok (init_thread_pool n)"
  by (simp add: mutex_ok_def init_thread_pool_def pc_simps)

text \<open>How a mutex passes when a thread goes from one statement to another.\<close>

definition passes :: "tid \<Rightarrow> bool \<Rightarrow> bool \<Rightarrow> tid option \<Rightarrow> tid option \<Rightarrow> bool" where
  "passes x before after m m' \<longleftrightarrow> (if before = after then m' = m
     else if after then m = None \<and> m' = Some x else m' = None)"

lemma worker_step_passes:
  assumes "worker_step p i = Some p'"
  shows "passes (Worker i) (holds_mutex (workers p i)) (holds_mutex (workers p' i) \<or> workers p' i = W_crash \<and> holds_mutex (workers p i)) (mutex p) (mutex p')"
    "passes (Worker i) (holds_free (workers p i)) (holds_free (workers p' i) \<or> workers p' i = W_crash \<and> holds_free (workers p i)) (mutex_free p) (mutex_free p')"
  using assms by (cases "workers p i"; auto simp: worker_step_def passes_def holds_mutex_def holds_free_def split: worker_splits)+

lemma mutex_ok_worker:
  assumes ok: "mutex_ok p" and i: "i < threads_num p" and st: "worker_step p i = Some p'" and "workers p' i \<noteq> W_crash"
  shows "mutex_ok p'"
proof -
  note fr = worker_step_frame [OF st]
  note pa = worker_step_passes [OF st]
  have "holds_mutex (workers p' j) \<longleftrightarrow> mutex p' = Some (Worker j)" if "j < threads_num p" for j
    using ok i that pa(1) fr(6) [of j] assms(4) by (cases "j = i") (auto simp: mutex_ok_def passes_def split: if_splits)
  moreover have "holds_free (workers p' j) \<longleftrightarrow> mutex_free p' = Some (Worker j)" if "j < threads_num p" for j
    using ok i that pa(2) fr(6) [of j] assms(4) by (cases "j = i") (auto simp: mutex_ok_def passes_def split: if_splits)
  moreover have "ctl_holds (ctl p') \<longleftrightarrow> mutex p' = Some Control"
    using ok i pa(1) fr(3) assms(4) by (auto simp: mutex_ok_def passes_def split: if_splits)
  moreover have "mutex p' \<in> insert None (insert (Some Control) ((\<lambda>i. Some (Worker i)) ` {..<threads_num p}))"
    "mutex_free p' \<in> insert None ((\<lambda>i. Some (Worker i)) ` {..<threads_num p})"
    using ok i pa assms(4) by (auto simp: mutex_ok_def passes_def split: if_splits)
  ultimately show ?thesis by (simp add: mutex_ok_def fr(1))
qed

lemma mutex_ok_control:
  assumes ok: "mutex_ok p" and same: "threads_num p' = threads_num p" "mutex_free p' = mutex_free p"
      "\<And>i. holds_mutex (workers p' i) = holds_mutex (workers p i)"
      "\<And>i. holds_free (workers p' i) = holds_free (workers p i)"
    and pa: "passes Control (ctl_holds (ctl p)) (ctl_holds (ctl p')) (mutex p) (mutex p')"
  shows "mutex_ok p'"
proof -
  have "holds_mutex (workers p i) \<longleftrightarrow> mutex p' = Some (Worker i)" if "i < threads_num p" for i
    using ok that pa by (auto simp: mutex_ok_def passes_def split: if_splits)
  moreover have "ctl_holds (ctl p') \<longleftrightarrow> mutex p' = Some Control"
    "mutex p' \<in> insert None (insert (Some Control) ((\<lambda>i. Some (Worker i)) ` {..<threads_num p}))"
    using ok pa by (auto simp: mutex_ok_def passes_def split: if_splits)
  ultimately show ?thesis using ok by (simp add: mutex_ok_def same)
qed

text \<open>What the steps other than the workers' own do to the workers.\<close>

lemma control_step_workers:
  assumes "control_step p p'"
  shows "workers p' i = workers p i \<or> workers p i = W_wait \<and> workers p' i = W_relock"
    "threads_num p' = threads_num p" "mutex_free p' = mutex_free p" "popped p' = popped p" "called p' = called p"
  using assms by (cases, auto simp: is_waiting_def thread_pool_execute_def broadcast_def release_pool_def)+

lemma control_step_passes:
  "control_step p p' \<Longrightarrow> passes Control (ctl_holds (ctl p)) (ctl_holds (ctl p')) (mutex p) (mutex p')"
  by (cases rule: control_step.cases)
    (auto simp: thread_pool_execute_def broadcast_def release_pool_def passes_def ctl_holds_def)

lemma mutex_ok_step:
  assumes "pool_step p p'" and "mutex_ok p" and "\<forall>i < threads_num p. workers p' i \<noteq> W_crash"
  shows "mutex_ok p'"
  using assms(1)
proof cases
  case (worker i)
  then show ?thesis using assms mutex_ok_worker by blast
next
  case control
  note c = control_step_workers [OF control]
  have "holds_mutex (workers p' i) = holds_mutex (workers p i)" "holds_free (workers p' i) = holds_free (workers p i)" for i
    using c(1) [of i] by (auto simp: holds_mutex_def holds_free_def)
  then show ?thesis
    using mutex_ok_control [OF assms(2) c(2,3)] control_step_passes [OF control] by blast
qed

text \<open>The queue: a worker that decided to wait saw it empty, one that is about to pop sees it non-empty.\<close>

definition queue_ok :: "'f thread_pool \<Rightarrow> bool" where
  "queue_ok p \<longleftrightarrow> length (tasks_queue p) < 2 ^ 32
     \<and> (\<forall>i < threads_num p. workers p i = W_towait \<longrightarrow> tasks_queue p = [])
     \<and> (\<forall>i < threads_num p. workers p i = W_if \<longrightarrow> \<not> cancelled p \<longrightarrow> tasks_queue p \<noteq> [])"

text \<open>Every task structure has exactly one owner: the queue, a worker or the controlling thread.\<close>

definition tasks_ok :: "'f thread_pool \<Rightarrow> bool" where
  "tasks_ok p \<longleftrightarrow> finite (dom (task_mem p)) \<and> owned p = mset_set (dom (task_mem p))
     \<and> (\<forall>t \<in> dom (task_mem p). t < next_task p)"

definition no_crash :: "'f thread_pool \<Rightarrow> bool" where
  "no_crash p \<longleftrightarrow> (\<forall>i < threads_num p. workers p i \<noteq> W_crash)"

lemma only_one_holds:
  "mutex_ok p \<Longrightarrow> i < threads_num p \<Longrightarrow> j < threads_num p \<Longrightarrow> holds_mutex (workers p i) \<Longrightarrow>
    holds_mutex (workers p j) \<Longrightarrow> i = j"
  by (auto simp: mutex_ok_def)

lemma ctl_excludes:
  "mutex_ok p \<Longrightarrow> i < threads_num p \<Longrightarrow> ctl_holds (ctl p) \<Longrightarrow> \<not> holds_mutex (workers p i)"
  by (auto simp: mutex_ok_def)

lemma queue_ok_worker:
  assumes m: "mutex_ok p" and q: "queue_ok p" and i: "i < threads_num p" and st: "worker_step p i = Some p'"
  shows "queue_ok p'"
proof -
  note fr = worker_step_frame [OF st]
  have keep: "tasks_queue p' = tasks_queue p \<or> holds_mutex (workers p i)
      \<and> (\<exists>t. tasks_queue p = t # tasks_queue p' \<and> workers p' i = W_unlock t)"
    using st by (cases "workers p i"; auto simp: worker_step_def holds_mutex_def lq_pop_def split: worker_splits list.splits)
  have mine: "workers p' i = W_towait \<longrightarrow> tasks_queue p' = []" "workers p' i = W_if \<longrightarrow> \<not> cancelled p \<longrightarrow> tasks_queue p' \<noteq> []"
    using st q lq_count_zero [of "tasks_queue p"]
    by (cases "workers p i"; auto simp: worker_step_def queue_ok_def split: worker_splits)+
  have other: "tasks_queue p' = tasks_queue p" if "j < threads_num p" "j \<noteq> i" "holds_mutex (workers p j)" for j
    using keep only_one_holds [OF m i] that by blast
  have "(workers p' j = W_towait \<longrightarrow> tasks_queue p' = []) \<and> (workers p' j = W_if \<longrightarrow> \<not> cancelled p \<longrightarrow> tasks_queue p' \<noteq> [])"
    if j: "j < threads_num p" for j
  proof (cases "j = i")
    case False
    then show ?thesis using other [OF j] fr(6) [OF False] q j by (auto simp: queue_ok_def holds_mutex_def)
  qed (use mine in simp)
  moreover have "length (tasks_queue p') \<le> length (tasks_queue p)" using keep by auto
  ultimately show ?thesis using q by (simp add: queue_ok_def fr(1,2))
qed

text \<open>Shutting down: after the broadcast nobody waits, and a joined worker has ended.\<close>

definition shutdown_ok :: "'f thread_pool \<Rightarrow> bool" where
  "shutdown_ok p \<longleftrightarrow> (cancelled p \<longleftrightarrow> destroying (ctl p))
     \<and> (woken (ctl p) \<longrightarrow> (\<forall>i < threads_num p. workers p i \<noteq> W_wait \<and> workers p i \<noteq> W_towait))
     \<and> (\<forall>k. ctl p = D_join k \<longrightarrow> k \<le> threads_num p \<and> (\<forall>i < k. workers p i = W_done))
     \<and> (ctl p = D_end \<longrightarrow> (\<forall>i < threads_num p. workers p i = W_done) \<and> tasks_queue p = [])"

lemma queue_ok_control:
  assumes "mutex_ok p" and "queue_ok p" and "control_step p p'" and "shutdown_ok p"
  shows "queue_ok p'"
  using assms(3)
proof cases
  case (push t)
  then have "workers p i \<noteq> W_towait" if "i < threads_num p" for i
    using ctl_excludes [OF assms(1) that] by (auto simp: ctl_holds_def holds_mutex_def)
  then show ?thesis using push assms(2) by (auto simp: queue_ok_def lq_push_def)
qed (use assms(2,4) in \<open>auto simp: queue_ok_def is_waiting_def thread_pool_execute_def broadcast_def
      release_pool_def shutdown_ok_def destroying_def\<close>)

lemma shutdown_ok_worker:
  assumes sh: "shutdown_ok p" and i: "i < threads_num p" and st: "worker_step p i = Some p'"
  shows "shutdown_ok p'"
proof -
  note fr = worker_step_frame [OF st]
  have nd: "workers p i \<noteq> W_done" using st by (auto simp: worker_step_def)
  have "workers p' j = W_done" if "workers p j = W_done" for j
    using nd fr(6) that by (cases "j = i") auto
  moreover have "workers p' i \<noteq> W_wait \<and> workers p' i \<noteq> W_towait"
    if "cancelled p" "workers p i \<noteq> W_towait"
    using st that by (cases "workers p i"; auto simp: worker_step_def split: worker_splits)
  moreover have "cancelled p" if "woken (ctl p)"
    using sh that by (auto simp: shutdown_ok_def woken_def destroying_def split: cpc.splits)
  ultimately show ?thesis
    using sh i fr nd unfolding shutdown_ok_def by (auto simp: fr) (metis fr(6))+
qed

lemma shutdown_ok_control:
  assumes "mutex_ok p" and "shutdown_ok p" and "control_step p p'"
  shows "shutdown_ok p'"
  using assms(3)
proof cases
  case destroy_broadcast
  then have "workers p i \<noteq> W_towait" if "i < threads_num p" for i
    using ctl_excludes [OF assms(1) that] by (auto simp: ctl_holds_def holds_mutex_def)
  then show ?thesis
    using destroy_broadcast assms(2)
    by (auto simp: shutdown_ok_def broadcast_def is_waiting_def destroying_def woken_def)
next
  case (destroy_join k)
  then show ?thesis using assms(2)
    by (auto simp: shutdown_ok_def destroying_def woken_def less_Suc_eq)
qed (use assms(2) in \<open>auto simp: shutdown_ok_def is_waiting_def thread_pool_execute_def
      release_pool_def destroying_def woken_def split: cpc.splits\<close>)

section \<open>Ownership of tasks\<close>

lemma sum_own_upd:
  assumes "i < (n :: nat)"
  shows "(\<Sum>j<n. own_worker ((w(i := c)) j)) + own_worker (w i) = (\<Sum>j<n. own_worker (w j)) + own_worker c"
proof -
  have "(\<Sum>j<n. own_worker (v j)) = own_worker (v i) + (\<Sum>j \<in> {..<n} - {i}. own_worker (v j))" for v :: "nat \<Rightarrow> wpc"
    using assms by (intro sum.remove) auto
  note this [of "w(i := c)"] this [of w]
  moreover have "(\<Sum>j \<in> {..<n} - {i}. own_worker ((w(i := c)) j)) = (\<Sum>j \<in> {..<n} - {i}. own_worker (w j))"
    by (intro sum.cong) auto
  ultimately show ?thesis by (simp add: ac_simps)
qed

lemma own_worker_subset: "i < threads_num p \<Longrightarrow> own_worker (workers p i) \<subseteq># owned p"
proof -
  assume "i < threads_num p"
  then have "(\<Sum>j<threads_num p. own_worker (workers p j))
      = own_worker (workers p i) + (\<Sum>j \<in> {..<threads_num p} - {i}. own_worker (workers p j))"
    by (intro sum.remove) auto
  then show ?thesis by (simp add: owned_def)
qed

lemma own_worker_live:
  "tasks_ok p \<Longrightarrow> i < threads_num p \<Longrightarrow> t \<in># own_worker (workers p i) \<Longrightarrow> \<exists>k. task_mem p t = Some k"
  using own_worker_subset [of i p] by (auto simp: tasks_ok_def dest!: mset_subset_eqD)

lemma worker_no_crash:
  assumes "queue_ok p" and "tasks_ok p" and "i < threads_num p" and "worker_step p i = Some p'"
  shows "workers p' i \<noteq> W_crash"
  using assms own_worker_live [OF assms(2,3)]
  by (cases "workers p i"; auto simp: worker_step_def queue_ok_def own_worker_def lq_pop_def split: worker_splits list.splits)

lemma tasks_ok_worker:
  assumes t: "tasks_ok p" and q: "queue_ok p" and i: "i < threads_num p" and st: "worker_step p i = Some p'"
  shows "tasks_ok p'"
proof -
  note fr = worker_step_frame [OF st]
  have w: "workers p' = (workers p)(i := workers p' i)" using fr(6) by (auto simp: fun_eq_iff)
  have nc: "workers p' i \<noteq> W_crash" using worker_no_crash [OF q t i st] .
  have sum: "(\<Sum>j<threads_num p. own_worker (workers p' j)) + own_worker (workers p i)
      = (\<Sum>j<threads_num p. own_worker (workers p j)) + own_worker (workers p' i)"
    by (subst w) (rule sum_own_upd [OF i])
  have cases: "(task_mem p' = task_mem p
        \<and> mset (tasks_queue p) + own_worker (workers p i) = mset (tasks_queue p') + own_worker (workers p' i))
    \<or> (\<exists>x. workers p i = W_free x \<and> task_mem p' = (task_mem p)(x := None) \<and> task_mem p x \<noteq> None
        \<and> tasks_queue p' = tasks_queue p \<and> own_worker (workers p' i) = {#})"
    using st nc
    by (cases "workers p i"; auto simp: worker_step_def own_worker_def lq_pop_def split: worker_splits list.splits)
  have eq: "owned p' + own_worker (workers p i) + mset (tasks_queue p)
      = owned p + own_worker (workers p' i) + mset (tasks_queue p')"
    using sum by (simp add: owned_def fr ac_simps)
  from cases show ?thesis
  proof
    assume c: "task_mem p' = task_mem p
        \<and> mset (tasks_queue p) + own_worker (workers p i) = mset (tasks_queue p') + own_worker (workers p' i)"
    then have "own_worker (workers p' i) + mset (tasks_queue p') = own_worker (workers p i) + mset (tasks_queue p)"
      by (simp only: add.commute)
    with eq have "owned p' + (own_worker (workers p i) + mset (tasks_queue p))
        = owned p + (own_worker (workers p i) + mset (tasks_queue p))" by (simp only: add.assoc)
    then have "owned p' = owned p" by (rule add_right_imp_eq)
    then show ?thesis using t c fr by (simp add: tasks_ok_def)
  next
    assume "\<exists>x. workers p i = W_free x \<and> task_mem p' = (task_mem p)(x := None) \<and> task_mem p x \<noteq> None
        \<and> tasks_queue p' = tasks_queue p \<and> own_worker (workers p' i) = {#}"
    then obtain x where x: "workers p i = W_free x" "task_mem p' = (task_mem p)(x := None)" "task_mem p x \<noteq> None"
      "tasks_queue p' = tasks_queue p" "own_worker (workers p' i) = {#}" by blast
    then have "owned p' + {#x#} = owned p" using eq by (simp add: own_worker_def)
    moreover have "mset_set (dom (task_mem p)) = add_mset x (mset_set (dom (task_mem p) - {x}))"
      using t x(3) by (intro mset_set.remove) (auto simp: tasks_ok_def)
    ultimately have "owned p' = mset_set (dom (task_mem p'))" using t x(2) by (simp add: tasks_ok_def)
    then show ?thesis using t x(2) fr by (auto simp: tasks_ok_def)
  qed
qed

lemma tasks_ok_release:
  assumes "tasks_ok p" and "shutdown_ok p" and "ctl p = D_join (threads_num p)"
  shows "task_mem (release_pool p) = Map.empty" "tasks_ok (release_pool p)"
proof -
  have "owned p = mset (tasks_queue p)"
    using assms(2,3) by (simp add: owned_def shutdown_ok_def own_worker_def own_ctl_def)
  then have "mset (tasks_queue p) = mset_set (dom (task_mem p))" "finite (dom (task_mem p))"
    using assms(1) by (simp_all add: tasks_ok_def)
  then have "set (tasks_queue p) = dom (task_mem p)" by (metis finite_set_mset_mset_set set_mset_mset)
  then show empty: "task_mem (release_pool p) = Map.empty"
    by (auto simp: release_pool_def restrict_map_def fun_eq_iff domIff)
  show "tasks_ok (release_pool p)"
    using assms(2,3) by (simp add: tasks_ok_def empty)
      (simp add: owned_def release_pool_def shutdown_ok_def own_worker_def own_ctl_def)
qed

lemma tasks_ok_control:
  assumes t: "tasks_ok p" and "shutdown_ok p" and st: "control_step p p'"
  shows "tasks_ok p'"
proof -
  note c = control_step_workers [OF st]
  have sum: "(\<Sum>i<threads_num p'. own_worker (workers p' i)) = (\<Sum>i<threads_num p. own_worker (workers p i))"
  proof (rule sum.cong)
    show "own_worker (workers p' i) = own_worker (workers p i)" for i
      using c(1) [of i] by (auto simp: own_worker_def)
  qed (simp add: c(2))
  show ?thesis
    using st
  proof cases
    case (execute func arg)
    have "next_task p \<notin> dom (task_mem p)" using t by (auto simp: tasks_ok_def)
    moreover have "\<forall>x \<in> dom (task_mem p'). x < next_task p'"
      using t execute by (simp add: tasks_ok_def thread_pool_execute_def less_Suc_eq)
    ultimately show ?thesis using t execute sum by (simp add: tasks_ok_def owned_def thread_pool_execute_def own_ctl_def)
  next
    case (destroy_free k)
    then show ?thesis using tasks_ok_release(2) [OF t assms(2)] by simp
  qed (use t sum in \<open>auto simp: tasks_ok_def owned_def own_ctl_def lq_push_def broadcast_def is_waiting_def\<close>)
qed

section \<open>No lost wake-up\<close>

definition awake :: "wpc \<Rightarrow> bool" where
  "awake c = (case c of W_check \<Rightarrow> True | W_lock \<Rightarrow> True | W_test \<Rightarrow> True | W_relock \<Rightarrow> True | W_if \<Rightarrow> True | _ \<Rightarrow> False)"

definition awake_set :: "'f thread_pool \<Rightarrow> nat set" where
  "awake_set p = {i. i < threads_num p \<and> awake (workers p i)}"

text \<open>While workers wait, there is an awake worker for every queued task, or the signal is still to come.\<close>

definition wake_ok :: "'f thread_pool \<Rightarrow> bool" where
  "wake_ok p \<longleftrightarrow> \<not> cancelled p \<longrightarrow> (\<exists>i. is_waiting p i) \<longrightarrow>
     length (tasks_queue p) \<le> card (awake_set p) + (if ctl p = E_signal then 1 else 0)"

lemma finite_awake [simp]: "finite (awake_set p)"
  by (rule finite_subset [of _ "{..<threads_num p}"]) (auto simp: awake_set_def)

lemma wake_ok_worker:
  assumes w: "wake_ok p" and q: "queue_ok p" and i: "i < threads_num p" and st: "worker_step p i = Some p'"
    and nc: "workers p' i \<noteq> W_crash"
  shows "wake_ok p'"
proof (cases "cancelled p \<or> tasks_queue p' = []")
  case True
  then show ?thesis using worker_step_frame [OF st] by (auto simp: wake_ok_def)
next
  case False
  note fr = worker_step_frame [OF st]
  have wait: "is_waiting p' j \<Longrightarrow> is_waiting p j" for j
  proof (cases "j = i")
    case True
    have "workers p' i \<noteq> W_wait" using st q i False by (cases "workers p i"; auto simp: worker_step_def queue_ok_def split: worker_splits)
    then show "is_waiting p' j \<Longrightarrow> is_waiting p j" using True by (simp add: is_waiting_def)
  qed (use fr in \<open>simp add: is_waiting_def\<close>)
  have "tasks_queue p' = tasks_queue p \<and> (awake (workers p i) \<longrightarrow> awake (workers p' i))
      \<or> (\<exists>t. tasks_queue p = t # tasks_queue p')"
    using st nc False lq_count_zero [of "tasks_queue p"] q
    by (cases "workers p i"; auto simp: worker_step_def awake_def queue_ok_def lq_pop_def split: worker_splits list.splits)
  moreover have "awake_set p \<subseteq> awake_set p'" if "awake (workers p i) \<longrightarrow> awake (workers p' i)"
  proof
    fix x assume "x \<in> awake_set p"
    then show "x \<in> awake_set p'" using that fr(1,6) by (cases "x = i") (simp_all add: awake_set_def)
  qed
  then have "card (awake_set p) \<le> card (awake_set p')" if "awake (workers p i) \<longrightarrow> awake (workers p' i)"
    using that by (simp add: card_mono)
  moreover have "card (awake_set p) \<le> Suc (card (awake_set p'))"
  proof -
    have "awake_set p \<subseteq> insert i (awake_set p')" using fr by (auto simp: awake_set_def)
    then have "card (awake_set p) \<le> card (insert i (awake_set p'))" by (intro card_mono) simp_all
    also have "\<dots> \<le> Suc (card (awake_set p'))" by (rule card_insert_le_m1) simp_all
    finally show ?thesis .
  qed
  ultimately show ?thesis
    using w False wait fr(2,3) unfolding wake_ok_def by (auto split: if_splits)
qed

lemma awake_set_goto:
  assumes "is_waiting p i"
  shows "awake_set (goto i W_relock p) = insert i (awake_set p)" "i \<notin> awake_set p"
  using assms by (auto simp: awake_set_def is_waiting_def awake_def)

lemma wake_ok_control:
  assumes w: "wake_ok p" and sh: "shutdown_ok p" and st: "control_step p p'"
  shows "wake_ok p'"
  using st
proof cases
  case (spurious i)
  have "is_waiting p' j \<Longrightarrow> is_waiting p j" for j using spurious by (auto simp: is_waiting_def split: if_splits)
  moreover have "card (awake_set p') = Suc (card (awake_set p))"
    using awake_set_goto [OF spurious(2)] spurious(1) by simp
  ultimately show ?thesis using w spurious unfolding wake_ok_def by (auto split: if_splits)
next
  case (push t)
  have "awake_set p' = awake_set p" "is_waiting p' j = is_waiting p j" for j
    using push by (simp_all add: awake_set_def is_waiting_def)
  then show ?thesis using w push unfolding wake_ok_def by (auto simp: lq_push_def)
next
  case (signal_one i)
  have "awake_set p' = awake_set (goto i W_relock p)" using signal_one by (simp add: awake_set_def)
  then have "card (awake_set p') = Suc (card (awake_set p))" using awake_set_goto [OF signal_one(3)] by simp
  then show ?thesis using w signal_one unfolding wake_ok_def by auto
next
  case signal_none
  then show ?thesis by (auto simp: wake_ok_def is_waiting_def)
next
  case destroy_broadcast
  then show ?thesis using sh by (simp add: wake_ok_def shutdown_ok_def destroying_def broadcast_def)
next
  case (destroy_free k)
  then show ?thesis using sh by (simp add: wake_ok_def shutdown_ok_def destroying_def release_pool_def)
qed (use w in \<open>simp_all add: wake_ok_def awake_set_def is_waiting_def thread_pool_execute_def\<close>)

section \<open>First in, first out, each task once\<close>

definition unstarted :: "wpc \<Rightarrow> addr multiset" where
  "unstarted c = (case c of W_unlock t \<Rightarrow> {#t#} | W_call t \<Rightarrow> {#t#} | _ \<Rightarrow> {#})"

definition fifo_ok :: "'f thread_pool \<Rightarrow> bool" where
  "fifo_ok p \<longleftrightarrow> (ctl p \<noteq> D_end \<longrightarrow> pushed p = popped p @ tasks_queue p)
     \<and> mset (popped p) = mset (called p) + (\<Sum>i<threads_num p. unstarted (workers p i))
     \<and> distinct (pushed p) \<and> set (popped p) \<subseteq> set (pushed p)
     \<and> (\<forall>t \<in> set (pushed p) \<union> set_mset (own_ctl (ctl p)). t < next_task p)
     \<and> set (pushed p) \<inter> set_mset (own_ctl (ctl p)) = {}"

lemma sum_unstarted_upd:
  assumes "i < (n :: nat)"
  shows "(\<Sum>j<n. unstarted ((w(i := c)) j)) + unstarted (w i) = (\<Sum>j<n. unstarted (w j)) + unstarted c"
proof -
  have "(\<Sum>j<n. unstarted (v j)) = unstarted (v i) + (\<Sum>j \<in> {..<n} - {i}. unstarted (v j))" for v :: "nat \<Rightarrow> wpc"
    using assms by (intro sum.remove) auto
  note this [of "w(i := c)"] this [of w]
  moreover have "(\<Sum>j \<in> {..<n} - {i}. unstarted ((w(i := c)) j)) = (\<Sum>j \<in> {..<n} - {i}. unstarted (w j))"
    by (intro sum.cong) auto
  ultimately show ?thesis by (simp add: ac_simps)
qed

lemma fifo_ok_worker:
  assumes f: "fifo_ok p" and i: "i < threads_num p" and st: "worker_step p i = Some p'"
    and nc: "workers p' i \<noteq> W_crash" and live: "ctl p \<noteq> D_end"
  shows "fifo_ok p'"
proof -
  note fr = worker_step_frame [OF st]
  have w: "workers p' = (workers p)(i := workers p' i)" using fr(6) by (auto simp: fun_eq_iff)
  have sum: "(\<Sum>j<threads_num p. unstarted (workers p' j)) + unstarted (workers p i)
      = (\<Sum>j<threads_num p. unstarted (workers p j)) + unstarted (workers p' i)"
    by (subst w) (rule sum_unstarted_upd [OF i])
  have c: "popped p' @ tasks_queue p' = popped p @ tasks_queue p"
    "mset (popped p') + mset (called p) + unstarted (workers p i)
      = mset (popped p) + mset (called p') + unstarted (workers p' i)"
    using st nc by (cases "workers p i"; auto simp: worker_step_def unstarted_def lq_pop_def split: worker_splits list.splits)+
  have "mset (popped p) = mset (called p) + (\<Sum>j<threads_num p. unstarted (workers p j))"
    using f by (simp add: fifo_ok_def)
  with c(2) sum have "mset (popped p') + (mset (called p) + unstarted (workers p i))
      = mset (called p') + (\<Sum>j<threads_num p. unstarted (workers p' j)) + (mset (called p) + unstarted (workers p i))"
    by (simp add: ac_simps)
  then have "mset (popped p') = mset (called p') + (\<Sum>j<threads_num p. unstarted (workers p' j))"
    by (rule add_right_imp_eq)
  moreover have "pushed p' = popped p' @ tasks_queue p'" using f c(1) live fr(4) by (simp add: fifo_ok_def)
  ultimately show ?thesis using f unfolding fifo_ok_def by (simp add: fr)
qed

lemma fifo_ok_control:
  assumes f: "fifo_ok p" and st: "control_step p p'"
  shows "fifo_ok p'"
proof -
  note c = control_step_workers [OF st]
  have sum: "(\<Sum>i<threads_num p'. unstarted (workers p' i)) = (\<Sum>i<threads_num p. unstarted (workers p i))"
  proof (rule sum.cong)
    show "unstarted (workers p' i) = unstarted (workers p i)" for i
      using c(1) [of i] by (auto simp: unstarted_def)
  qed (simp add: c(2))
  have cnt: "mset (popped p') = mset (called p') + (\<Sum>i<threads_num p'. unstarted (workers p' i))"
    using f unfolding fifo_ok_def sum c(4,5) by blast
  have "(ctl p' \<noteq> D_end \<longrightarrow> pushed p' = popped p' @ tasks_queue p') \<and> distinct (pushed p')
      \<and> set (popped p') \<subseteq> set (pushed p')
      \<and> (\<forall>t \<in> set (pushed p') \<union> set_mset (own_ctl (ctl p')). t < next_task p')
      \<and> set (pushed p') \<inter> set_mset (own_ctl (ctl p')) = {}"
    using st f unfolding fifo_ok_def
    by cases (auto simp: own_ctl_def thread_pool_execute_def lq_push_def broadcast_def release_pool_def less_Suc_eq)
  with cnt show ?thesis by (simp add: fifo_ok_def)
qed

section \<open>All of it in every reachable state\<close>

definition pool_ok :: "'f thread_pool \<Rightarrow> bool" where
  "pool_ok p \<longleftrightarrow> mutex_ok p \<and> queue_ok p \<and> shutdown_ok p \<and> tasks_ok p \<and> wake_ok p \<and> fifo_ok p \<and> no_crash p"

lemma pool_ok_init: "pool_ok (init_thread_pool n)"
  by (simp add: pool_ok_def mutex_ok_def queue_ok_def shutdown_ok_def tasks_ok_def wake_ok_def fifo_ok_def
      no_crash_def owned_def init_thread_pool_def is_waiting_def pc_simps unstarted_def)

lemma pool_ok_step:
  assumes ok: "pool_ok p" and st: "pool_step p p'"
  shows "pool_ok p'"
  using st
proof cases
  case (worker i)
  note w = worker
  have inv: "mutex_ok p" "queue_ok p" "shutdown_ok p" "tasks_ok p" "wake_ok p" "fifo_ok p" "no_crash p"
    using ok by (simp_all add: pool_ok_def)
  note nc = worker_no_crash [OF inv(2,4) w]
  have "no_crash p'"
    unfolding no_crash_def worker_step_frame(1) [OF w(2)]
    using inv(7) nc worker_step_frame(6) [OF w(2)] unfolding no_crash_def by metis
  moreover have "ctl p \<noteq> D_end"
    using w inv(3) by (auto simp: shutdown_ok_def worker_step_def)
  ultimately show ?thesis
    using mutex_ok_worker [OF inv(1) w nc] queue_ok_worker [OF inv(1,2) w] shutdown_ok_worker [OF inv(3) w]
      tasks_ok_worker [OF inv(4,2) w] wake_ok_worker [OF inv(5,2) w nc] fifo_ok_worker [OF inv(6) w nc]
    by (simp add: pool_ok_def)
next
  case control
  have inv: "mutex_ok p" "queue_ok p" "shutdown_ok p" "tasks_ok p" "wake_ok p" "fifo_ok p" "no_crash p"
    using ok by (simp_all add: pool_ok_def)
  have "no_crash p'" using inv(7) control_step_workers(1,2) [OF control] unfolding no_crash_def by (metis wpc.distinct)
  then show ?thesis
    using mutex_ok_step [OF st inv(1)] queue_ok_control [OF inv(1,2) control inv(3)]
      shutdown_ok_control [OF inv(1,3) control] tasks_ok_control [OF inv(4,3) control]
      wake_ok_control [OF inv(5,3) control] fifo_ok_control [OF inv(6) control] control_step_workers(2) [OF control]
    by (simp add: pool_ok_def no_crash_def)
qed

lemma reachable_pool_ok: "reachable n p \<Longrightarrow> pool_ok p \<and> threads_num p = n"
proof (induction rule: reachable.induct)
  case init
  show ?case using pool_ok_init by (simp add: init_thread_pool_def)
next
  case (step p p')
  then have "pool_ok p'" using pool_ok_step by blast
  moreover have "threads_num p' = threads_num p"
    using step(2) by cases (auto dest: worker_step_frame(1) control_step_workers(2))
  ultimately show ?case using step by simp
qed

section \<open>Shutting down ends\<close>

text \<open>What is left to do for a worker once the pool is cancelled and nobody waits.\<close>

fun rank :: "wpc \<Rightarrow> nat" where
  "rank W_done = 0"
| "rank W_check = 1"
| "rank W_if = 1"
| "rank W_test = 2"
| "rank W_unlockfree = 2"
| "rank W_lock = 3"
| "rank W_relock = 3"
| "rank (W_free t) = 3"
| "rank (W_lockfree t) = 4"
| "rank (W_in t) = 5"
| "rank (W_call t) = 6"
| "rank (W_unlock t) = 7"
| "rank W_towait = 0"
| "rank W_wait = 0"
| "rank W_crash = 0"

definition remaining :: "'f thread_pool \<Rightarrow> nat" where
  "remaining p = (\<Sum>i<threads_num p. rank (workers p i))
     + (case ctl p of D_join k \<Rightarrow> Suc (threads_num p - k) | _ \<Rightarrow> 0)"

lemma sum_rank_less:
  assumes "i < (n :: nat)" and "rank (w' i) < rank (w i)" and "\<And>j. j \<noteq> i \<Longrightarrow> w' j = w j"
  shows "(\<Sum>j<n. rank (w' j)) < (\<Sum>j<n. rank (w j))"
proof (rule sum_strict_mono_ex1)
  show "\<forall>j \<in> {..<n}. rank (w' j) \<le> rank (w j)"
    using assms(2,3) by (metis less_imp_le order_refl)
qed (use assms(1,2) in auto)

lemma worker_step_rank:
  assumes "worker_step p i = Some p'" and "cancelled p" and "workers p i \<noteq> W_towait" and "workers p' i \<noteq> W_crash"
  shows "rank (workers p' i) < rank (workers p i)"
  using assms by (cases "workers p i"; auto simp: worker_step_def split: worker_splits)

lemma joining_step:
  assumes ok: "pool_ok p" and k: "ctl p = D_join k" and st: "pool_step p p'"
  shows "remaining p' < remaining p \<and> (ctl p' = D_end \<or> (\<exists>k'. ctl p' = D_join k'))"
  using st
proof cases
  case (worker i)
  have c: "cancelled p" "workers p i \<noteq> W_towait"
    using ok k worker(1) by (auto simp: pool_ok_def shutdown_ok_def destroying_def woken_def)
  have nc: "workers p' i \<noteq> W_crash" using worker_no_crash [OF _ _ worker] ok by (simp add: pool_ok_def)
  note fr = worker_step_frame [OF worker(2)]
  have "(\<Sum>j<threads_num p. rank (workers p' j)) < (\<Sum>j<threads_num p. rank (workers p j))"
    using sum_rank_less [of i _ "workers p'" "workers p"] worker(1) worker_step_rank [OF worker(2) c nc] fr(6) by blast
  then show ?thesis using k by (simp add: remaining_def fr)
next
  case control
  have "\<not> is_waiting p i" for i
    using ok k by (auto simp: pool_ok_def shutdown_ok_def woken_def is_waiting_def)
  with control k show ?thesis
    by cases (auto simp: remaining_def release_pool_def)
qed

lemma holder_steps:
  "holds_mutex (workers p j) \<or> holds_free (workers p j) \<Longrightarrow> worker_step p j \<noteq> None"
  by (cases "workers p j"; simp add: worker_step_def holds_mutex_def holds_free_def split: option.split prod.split)

lemma blocked_worker:
  "worker_step p j = None \<Longrightarrow> workers p j \<in> {W_wait, W_done, W_crash} \<or> mutex p \<noteq> None \<or> mutex_free p \<noteq> None"
  by (cases "workers p j"; simp add: worker_step_def split: if_splits option.splits prod.splits)

lemma joining_progress:
  assumes ok: "pool_ok p" and k: "ctl p = D_join k"
  shows "\<exists>p'. pool_step p p'"
proof (cases "k = threads_num p")
  case True
  then show ?thesis using k control_step.destroy_free pool_step.control by blast
next
  case False
  have m: "mutex_ok p" and sh: "shutdown_ok p" and nc: "no_crash p" using ok by (simp_all add: pool_ok_def)
  with False k have kn: "k < threads_num p" by (auto simp: shutdown_ok_def)
  have go: "\<exists>p'. pool_step p p'" if "j < threads_num p" "worker_step p j \<noteq> None" for j
    using that pool_step.worker by blast
  have holder: "\<exists>p'. pool_step p p'" if h: "mutex p \<noteq> None"
  proof -
    obtain j where "j < threads_num p" "holds_mutex (workers p j)"
      using m h k by (auto simp: mutex_ok_def ctl_holds_def)
    then show ?thesis using go holder_steps by blast
  qed
  have holder_free: "\<exists>p'. pool_step p p'" if h: "mutex_free p \<noteq> None"
  proof -
    obtain j where "j < threads_num p" "holds_free (workers p j)"
      using m h by (auto simp: mutex_ok_def)
    then show ?thesis using go holder_steps by blast
  qed
  show ?thesis
  proof (cases "worker_step p k = None")
    case True
    moreover have "workers p k \<noteq> W_wait" "workers p k \<noteq> W_crash"
      using kn sh nc k by (auto simp: shutdown_ok_def woken_def no_crash_def)
    ultimately have "workers p k = W_done \<or> mutex p \<noteq> None \<or> mutex_free p \<noteq> None"
      using blocked_worker by blast
    then show ?thesis
      using holder holder_free control_step.destroy_join [OF k kn] pool_step.control by blast
  qed (use go kn in blast)
qed

section \<open>Concrete runs\<close>

text \<open>A schedule is a list of workers; a worker that cannot go on is skipped.\<close>

definition wstep :: "nat \<Rightarrow> 'f thread_pool \<Rightarrow> 'f thread_pool" where
  "wstep i p = (case worker_step p i of None \<Rightarrow> p | Some p' \<Rightarrow> p')"

lemma reachable_fold:
  "reachable n p \<Longrightarrow> list_all (\<lambda>i. i < n) is \<Longrightarrow> reachable n (fold wstep is p)"
proof (induction "is" arbitrary: p)
  case Nil
  then show ?case by simp
next
  case (Cons i "is")
  have "reachable n (wstep i p)"
  proof (cases "worker_step p i")
    case (Some p')
    then have "pool_step p p'" using Cons.prems reachable_pool_ok [of n p] by (intro pool_step.worker) auto
    then show ?thesis using Some Cons.prems(1) reachable.step by (auto simp: wstep_def)
  qed (use Cons.prems in \<open>simp add: wstep_def\<close>)
  then show ?case using Cons by simp
qed

lemma reachable_control: "reachable n p \<Longrightarrow> control_step p p' \<Longrightarrow> reachable n p'"
  using reachable.step pool_step.control by blast

text \<open>Two workers that went to sleep, a task that was pushed, and the first worker signalled.\<close>

definition pool_signalled :: "nat thread_pool" where
  "pool_signalled = (let p = fold wstep [0, 0, 0, 0, 1, 1, 1, 1] (init_thread_pool 2);
     p = thread_pool_execute p 7 0; p = p\<lparr>mutex := Some Control, ctl := E_push 1\<rparr>;
     p = p\<lparr>tasks_queue := lq_push 1 (tasks_queue p), pushed := pushed p @ [1], ctl := E_signal\<rparr>
     in goto 0 W_relock p\<lparr>ctl := E_unlock\<rparr>)"

lemma pool_asleep: "fold wstep [0, 0, 0, 0, 1, 1, 1, 1] (init_thread_pool 2)
    = (init_thread_pool 2 :: nat thread_pool)\<lparr>workers := (\<lambda>_. W_check)(0 := W_wait, 1 := W_wait)\<rparr>"
  by (simp add: wstep_def worker_step_def init_thread_pool_def)

lemma pool_signalled_simps:
  "workers pool_signalled = (\<lambda>_. W_check)(0 := W_relock, 1 := W_wait)" "tasks_queue pool_signalled = [1]"
  "threads_num pool_signalled = 2" "ctl pool_signalled = E_unlock" "cancelled pool_signalled = False"
  "pushed pool_signalled = [1]" "popped pool_signalled = []"
  unfolding pool_signalled_def Let_def pool_asleep
  by (simp_all add: thread_pool_execute_def init_thread_pool_def lq_push_def fun_eq_iff)

lemma reachable_signalled: "reachable 2 pool_signalled"
proof -
  let ?p0 = "fold wstep [0, 0, 0, 0, 1, 1, 1, 1] (init_thread_pool 2) :: nat thread_pool"
  let ?p1 = "thread_pool_execute ?p0 7 0"
  let ?p2 = "?p1\<lparr>mutex := Some Control, ctl := E_push 1\<rparr>"
  let ?p3 = "?p2\<lparr>tasks_queue := lq_push 1 (tasks_queue ?p2), pushed := pushed ?p2 @ [1], ctl := E_signal\<rparr>"
  have "reachable 2 ?p0" by (rule reachable_fold [OF reachable.init]) simp
  moreover have "control_step ?p0 ?p1"
    by (rule control_step.execute) (unfold pool_asleep, simp add: init_thread_pool_def)
  moreover have "control_step ?p1 ?p2"
    by (rule control_step.lock) (unfold pool_asleep, simp_all add: thread_pool_execute_def init_thread_pool_def)
  moreover have "control_step ?p2 ?p3"
    by (rule control_step.push) (unfold pool_asleep, simp_all add: thread_pool_execute_def init_thread_pool_def)
  moreover have "control_step ?p3 (goto 0 W_relock ?p3\<lparr>ctl := E_unlock\<rparr>)"
    by (rule control_step.signal_one)
      (unfold pool_asleep, simp_all add: thread_pool_execute_def init_thread_pool_def is_waiting_def)
  ultimately show ?thesis unfolding pool_signalled_def Let_def using reachable_control by blast
qed

text \<open>A pool that is being destroyed while its worker never slept.\<close>

definition pool_joining :: "nat thread_pool" where
  "pool_joining = (init_thread_pool 1)\<lparr>cancelled := True, ctl := D_join 0\<rparr>"

lemma reachable_joining: "reachable 1 pool_joining"
proof -
  let ?p0 = "init_thread_pool 1 :: nat thread_pool"
  let ?p1 = "?p0\<lparr>cancelled := True, ctl := D_lock\<rparr>"
  let ?p2 = "?p1\<lparr>mutex := Some Control, ctl := D_broadcast\<rparr>"
  let ?p3 = "broadcast ?p2\<lparr>ctl := D_unlock\<rparr>"
  have "reachable 1 ?p0" by (rule reachable.init)
  moreover have "control_step ?p0 ?p1" by (rule control_step.destroy) (simp add: init_thread_pool_def)
  moreover have "control_step ?p1 ?p2" by (rule control_step.destroy_lock) (simp_all add: init_thread_pool_def)
  moreover have "control_step ?p2 ?p3" by (rule control_step.destroy_broadcast) simp
  moreover have "control_step ?p3 (?p3\<lparr>mutex := None, ctl := D_join 0\<rparr>)" by (rule control_step.destroy_unlock) simp
  moreover have "?p3\<lparr>mutex := None, ctl := D_join 0\<rparr> = pool_joining"
    by (simp add: pool_joining_def broadcast_def init_thread_pool_def is_waiting_def)
  ultimately show ?thesis using reachable_control by metis
qed

section \<open>Properties\<close>

text \<open>
  Mutual exclusion.  In every reachable state at most one thread is between locking and unlocking the
  pool's mutex, and the controlling thread is not while a worker is.
\<close>

theorem pool_mutual_exclusion:
  assumes "reachable n p" and "i < n" and "holds_mutex (workers p i)"
  shows "(\<forall>j < n. holds_mutex (workers p j) \<longrightarrow> j = i) \<and> \<not> ctl_holds (ctl p)"
  using reachable_pool_ok [OF assms(1)] assms(2,3) only_one_holds ctl_excludes unfolding pool_ok_def by blast

theorem pool_mutual_exclusion_witness:
  "holds_mutex (workers (fold wstep [0, 0] (init_thread_pool 2) :: nat thread_pool) 0)
    \<and> \<not> holds_mutex (workers (fold wstep [0, 0] (init_thread_pool 2) :: nat thread_pool) 1)"
proof -
  let ?p = "fold wstep [0, 0] (init_thread_pool 2) :: nat thread_pool"
  have "reachable 2 ?p" by (rule reachable_fold [OF reachable.init]) simp
  moreover have "holds_mutex (workers ?p 0)"
    by (simp add: wstep_def worker_step_def init_thread_pool_def holds_mutex_def)
  moreover from calculation have "holds_mutex (workers ?p j) \<longrightarrow> j = 0" if "j < 2" for j
    using pool_mutual_exclusion [of 2 ?p 0] that by simp
  from this [of 1] have "\<not> holds_mutex (workers ?p 1)" by (metis one_less_numeral_iff semiring_norm(76) zero_neq_one)
  ultimately show ?thesis by blast
qed

text \<open>
  C18: tasks run in the order they were submitted, each at most once.  Before the pool is released, the
  tasks pushed are those popped so far, in that order, followed by those queued; no task is called twice,
  and only submitted tasks are called.
\<close>

theorem pool_fifo_once:
  assumes "reachable n p" and "ctl p \<noteq> D_end"
  shows "pushed p = popped p @ tasks_queue p \<and> distinct (called p) \<and> set (called p) \<subseteq> set (popped p)"
proof -
  have f: "fifo_ok p" using reachable_pool_ok [OF assms(1)] by (simp add: pool_ok_def)
  then obtain zs where "mset (called p @ zs) = mset (popped p)"
    by (metis fifo_ok_def ex_mset mset_append)
  moreover have "distinct (popped p)" using f assms(2) by (auto simp: fifo_ok_def)
  ultimately have "distinct (called p @ zs)" "set (called p @ zs) = set (popped p)"
    using mset_eq_imp_distinct_iff mset_eq_setD by blast+
  then show ?thesis using f assms(2) by (auto simp: fifo_ok_def)
qed

theorem pool_fifo_once_witness:
  "pushed pool_signalled = popped pool_signalled @ tasks_queue pool_signalled \<and> distinct (called pool_signalled)"
  using pool_fifo_once [OF reachable_signalled] by (simp add: pool_signalled_simps)

text \<open>
  C19: no wake-up is lost.  While the pool is not being destroyed, if some worker waits on the condition and
  no signal is pending, there are at least as many workers on their way to the queue as there are tasks in
  it; a queued task is never left with all idle workers asleep.
\<close>

theorem pool_no_lost_wakeup:
  assumes "reachable n p" and "\<not> cancelled p" and "is_waiting p i" and "ctl p \<noteq> E_signal"
  shows "length (tasks_queue p) \<le> card {j. j < n \<and> awake (workers p j)}"
  using reachable_pool_ok [OF assms(1)] assms(2-4) by (auto simp: pool_ok_def wake_ok_def awake_set_def)

theorem pool_no_lost_wakeup_witness:
  "length (tasks_queue pool_signalled) \<le> card {j. j < 2 \<and> awake (workers pool_signalled j)}"
  using pool_no_lost_wakeup [OF reachable_signalled, of 1] by (simp add: pool_signalled_simps is_waiting_def)

text \<open>
  C21: task memory.  In every reachable state each allocated task has exactly one owner, no worker uses a
  task pointer that is NULL or released, and when \<^verbatim>\<open>destroy_thread_pool\<close> has returned every worker has ended
  and every task, run or not, has been released once.
\<close>

theorem pool_task_memory:
  assumes "reachable n p"
  shows "owned p = mset_set (dom (task_mem p)) \<and> (\<forall>i < n. workers p i \<noteq> W_crash)
    \<and> (ctl p = D_end \<longrightarrow> task_mem p = Map.empty \<and> (\<forall>i < n. workers p i = W_done))"
proof -
  have ok: "tasks_ok p" "shutdown_ok p" "no_crash p" "threads_num p = n"
    using reachable_pool_ok [OF assms] by (auto simp: pool_ok_def)
  have "task_mem p = Map.empty" if "ctl p = D_end"
  proof -
    have "owned p = {#}" using that ok(2) by (simp add: owned_def shutdown_ok_def own_worker_def own_ctl_def)
    then show ?thesis using ok(1) by (auto simp: tasks_ok_def mset_set_empty_iff)
  qed
  then show ?thesis using ok by (simp add: tasks_ok_def no_crash_def shutdown_ok_def)
qed

theorem pool_task_memory_witness:
  "owned pool_signalled = mset_set (dom (task_mem pool_signalled))"
  using pool_task_memory [OF reachable_signalled] by blast

text \<open>
  C20: \<^verbatim>\<open>destroy_thread_pool\<close> returns, provided the tasks that are running return.  While it joins the
  workers some thread can always take a step, every step leaves strictly less to do, and no step leads
  anywhere but further into joining or to the end.
\<close>

theorem destroy_terminates:
  assumes "reachable n p" and "ctl p = D_join k"
  shows "(\<exists>p'. pool_step p p')
    \<and> (\<forall>p'. pool_step p p' \<longrightarrow> remaining p' < remaining p \<and> (ctl p' = D_end \<or> (\<exists>k'. ctl p' = D_join k')))"
  using reachable_pool_ok [OF assms(1)] joining_progress joining_step assms(2) by blast

theorem destroy_terminates_witness:
  "\<exists>p'. pool_step pool_joining p' \<and> remaining p' < remaining pool_joining"
  using destroy_terminates [OF reachable_joining, of 0] by (auto simp: pool_joining_def)

end
