(* ===== verification/Startup.thy ===== *)
theory Startup
  imports Solutions_Db
begin

text \<open>
  Starting and stopping: reading the configuration file (\<^verbatim>\<open>main.c\<close>), the local control socket and the
  accept loop of \<^verbatim>\<open>run_server\<close> (\<^verbatim>\<open>server.c\<close>).  The file system, the datagrams and the results of
  \<^verbatim>\<open>socket\<close>, \<^verbatim>\<open>bind\<close> and \<^verbatim>\<open>accept\<close> are arguments.
\<close>

section \<open>The configuration file\<close>

text \<open>
  \<^verbatim>\<open>strtok(..., "\n")\<close> on a buffer, from an offset: the offset of the token, the buffer with the
  delimiter after it overwritten by a zero, and the offset the next call starts at.  Looking at a byte
  behind the buffer is undefined.
\<close>

abbreviation (input) LF :: u8 where "LF \<equiv> 10"

function skip_delim :: "u8 list \<Rightarrow> nat \<Rightarrow> nat res" where
  "skip_delim buf i = (if i < length buf then (if buf ! i = LF then skip_delim buf (Suc i) else Inr i)
     else Inl Out_of_bounds)"
  by pat_completeness auto
termination by (relation "measure (\<lambda>(buf, i). length buf - i)") auto

function scan_token :: "u8 list \<Rightarrow> nat \<Rightarrow> nat res" where
  "scan_token buf i = (if i < length buf then (if buf ! i = LF \<or> buf ! i = 0 then Inr i else scan_token buf (Suc i))
     else Inl Out_of_bounds)"
  by pat_completeness auto
termination by (relation "measure (\<lambda>(buf, i). length buf - i)") auto

declare skip_delim.simps [simp del] scan_token.simps [simp del]

definition strtok :: "u8 list \<Rightarrow> nat \<Rightarrow> (nat option \<times> u8 list \<times> nat) res" where
  "strtok buf pos = rbind (skip_delim buf pos) (\<lambda>i.
     if buf ! i = 0 then Inr (None, buf, i)
     else rbind (scan_token buf i) (\<lambda>j. Inr (Some i, buf[j := 0], if buf ! j = 0 then j else Suc j)))"

text \<open>The four pointers of \<^verbatim>\<open>db_config\<close> as offsets into the buffer that was read.\<close>

record conf_ptrs =
  conf_buf :: "u8 list"
  conf_host :: "nat option"
  conf_user :: "nat option"
  conf_password :: "nat option"
  conf_db_name :: "nat option"

definition parse_config :: "u8 list \<Rightarrow> conf_ptrs res" where
  "parse_config cfg_buf =
     rbind (strtok cfg_buf 0) (\<lambda>(host, buf, pos).
     rbind (strtok buf pos) (\<lambda>(user, buf, pos).
     rbind (strtok buf pos) (\<lambda>(password, buf, pos).
     rbind (strtok buf pos) (\<lambda>(db_name, buf, pos).
       Inr \<lparr>conf_buf = buf, conf_host = host, conf_user = user, conf_password = password, conf_db_name = db_name\<rparr>))))"

text \<open>\<open>Inl\<close> is the status the process exits with when there is no file.\<close>

definition read_db_config :: "(string \<Rightarrow> u8 list option) \<Rightarrow> string \<Rightarrow> (int + conf_ptrs) res" where
  "read_db_config fopen homedir =
     (case fopen (snprintf 100 (homedir @ ''/.judge-server/db.conf'')) of
        None \<Rightarrow> Inr (Inl 1)
      | Some cfg_buf \<Rightarrow> rbind (parse_config cfg_buf) (\<lambda>conf. Inr (Inr conf)))"

text \<open>The end of \<^verbatim>\<open>main\<close>: \<^verbatim>\<open>free(conf->host)\<close> is meant to release the buffer.\<close>

definition release_config :: "conf_ptrs \<Rightarrow> unit res" where
  "release_config conf = (case conf_host conf of
     None \<Rightarrow> Inr ()
   | Some p \<Rightarrow> if p = 0 then Inr () else Inl Invalid_free)"

definition cstring_at :: "u8 list \<Rightarrow> nat option \<Rightarrow> u8 list option" where
  "cstring_at buf p = map_option (\<lambda>i. takeWhile (\<lambda>b. b \<noteq> 0) (drop i buf)) p"

section \<open>Tokens\<close>

lemma skip_delim_run:
  "length pre = pos \<Longrightarrow> skip_delim (pre @ replicate k LF @ rest) pos = skip_delim (pre @ replicate k LF @ rest) (pos + k)"
proof (induction k arbitrary: pre pos)
  case (Suc k)
  have "skip_delim (pre @ replicate (Suc k) LF @ rest) pos = skip_delim ((pre @ [LF]) @ replicate k LF @ rest) (Suc pos)"
    using Suc.prems by (subst skip_delim.simps) (simp add: nth_append)
  also have "\<dots> = skip_delim ((pre @ [LF]) @ replicate k LF @ rest) (Suc pos + k)"
    using Suc.prems by (intro Suc.IH) simp
  finally show ?case by simp
qed simp

lemma skip_delim_at:
  assumes "length pre = pos" and "b \<noteq> LF"
  shows "skip_delim (pre @ replicate k LF @ b # rest) pos = Inr (pos + k)"
proof -
  have "(pre @ replicate k LF @ b # rest) ! (pos + k) = b" using assms(1) by (simp add: nth_append)
  then have "skip_delim (pre @ replicate k LF @ b # rest) (pos + k) = Inr (pos + k)"
    using assms by (simp add: skip_delim.simps [of _ "pos + k"])
  then show ?thesis using skip_delim_run [OF assms(1)] by simp
qed

lemma skip_delim_end:
  assumes "length pre = pos"
  shows "skip_delim (pre @ replicate k LF) pos = Inl Out_of_bounds"
  using skip_delim_run [OF assms, of k "[]"] assms by (simp add: skip_delim.simps [of _ "pos + k"])

lemma scan_token_run:
  "length pre = pos \<Longrightarrow> LF \<notin> set l \<Longrightarrow> 0 \<notin> set l \<Longrightarrow>
    scan_token (pre @ l @ rest) pos = scan_token (pre @ l @ rest) (pos + length l)"
proof (induction l arbitrary: pre pos)
  case (Cons b l)
  have "scan_token (pre @ (b # l) @ rest) pos = scan_token ((pre @ [b]) @ l @ rest) (Suc pos)"
    using Cons.prems by (subst scan_token.simps) (simp add: nth_append)
  also have "\<dots> = scan_token ((pre @ [b]) @ l @ rest) (Suc pos + length l)"
    using Cons.prems by (intro Cons.IH) simp_all
  finally show ?case by simp
qed simp

text \<open>One call on a buffer that goes on with \<open>k\<close> empty lines and a line that is not empty.\<close>

lemma strtok_line:
  assumes "length pre = pos" and "l \<noteq> []" and "LF \<notin> set l" and "0 \<notin> set l"
  shows "strtok (pre @ replicate k LF @ l @ LF # post) pos
    = Inr (Some (pos + k), (pre @ replicate k LF @ l @ [0]) @ post, length (pre @ replicate k LF @ l @ [0]))"
proof -
  let ?buf = "pre @ replicate k LF @ l @ LF # post" and ?p = "pre @ replicate k LF"
  obtain b l' where l: "l = b # l'" "b \<noteq> LF" "b \<noteq> 0" using assms(2-4) by (cases l) auto
  have skip: "skip_delim ?buf pos = Inr (pos + k)" using skip_delim_at [OF assms(1) l(2)] by (simp add: l(1))
  have "scan_token (?p @ l @ LF # post) (pos + k) = scan_token (?p @ l @ LF # post) (pos + k + length l)"
    using assms(1,3,4) by (intro scan_token_run) simp_all
  also have "\<dots> = Inr (pos + k + length l)"
    using assms(1) by (subst scan_token.simps) (simp add: nth_append)
  finally have scan: "scan_token ?buf (pos + k) = Inr (pos + k + length l)" by simp
  have at: "?buf ! (pos + k) = b" "?buf ! (pos + k + length l) = LF"
    using assms(1) l(1) by (simp_all add: nth_append)
  have "?buf[pos + k + length l := 0] = (?p @ l) @ (LF # post)[0 := 0]"
    using assms(1) by (simp add: list_update_append)
  then show ?thesis using assms(1) l(3) by (simp add: strtok_def skip scan at)
qed

definition file_of :: "u8 list list \<Rightarrow> u8 list" where
  "file_of ls = concat (map (\<lambda>l. l @ [LF]) ls)"

definition plain :: "u8 list \<Rightarrow> bool" where
  "plain l \<longleftrightarrow> LF \<notin> set l \<and> 0 \<notin> set l"

lemma next_line:
  assumes "filter (\<lambda>l. l \<noteq> []) ls = t # ts"
  obtains k ls' where "ls = replicate k [] @ t # ls'" "filter (\<lambda>l. l \<noteq> []) ls' = ts" "t \<noteq> []"
proof -
  obtain us ls' where ls: "ls = us @ t # ls'" "\<forall>u \<in> set us. u = []" "t \<noteq> []" "ts = filter (\<lambda>l. l \<noteq> []) ls'"
    using assms by (auto simp: filter_eq_Cons_iff)
  then have "us = replicate (length us) []" by (simp add: replicate_eqI)
  with ls show thesis using that by metis
qed

lemma file_of_blank: "file_of (replicate k [] @ t # ls) = replicate k LF @ t @ LF # file_of ls"
  by (induction k) (simp_all add: file_of_def)

text \<open>One call on lines: it finds the next line that is not empty, and leaves the lines after it.\<close>

definition takes :: "u8 list \<Rightarrow> u8 list list \<Rightarrow> nat \<Rightarrow> u8 list \<Rightarrow> u8 list list \<Rightarrow> bool" where
  "takes rest ls k t ls' \<longleftrightarrow> (\<forall>pre. strtok (pre @ file_of ls @ rest) (length pre)
     = Inr (Some (length pre + k), (pre @ replicate k LF @ t @ [0]) @ file_of ls' @ rest,
         length (pre @ replicate k LF @ t @ [0])))"

lemma strtok_lines:
  assumes "filter (\<lambda>l. l \<noteq> []) ls = t # ts" and "list_all plain ls"
  shows "\<exists>k ls'. filter (\<lambda>l. l \<noteq> []) ls' = ts \<and> list_all plain ls' \<and> (k = 0 \<longleftrightarrow> hd ls \<noteq> []) \<and> takes rest ls k t ls'"
proof -
  obtain k ls' where ls: "ls = replicate k [] @ t # ls'" "filter (\<lambda>l. l \<noteq> []) ls' = ts" "t \<noteq> []"
    using next_line [OF assms(1)] by blast
  have t: "LF \<notin> set t" "0 \<notin> set t" "list_all plain ls'" using assms(2) by (simp_all add: ls(1) plain_def)
  have "k = 0 \<longleftrightarrow> hd ls \<noteq> []" using ls(3) by (cases k) (simp_all add: ls(1))
  moreover have "takes rest ls k t ls'"
    unfolding takes_def ls(1) file_of_blank
    using strtok_line [OF refl ls(3) t(1,2), of _ k "file_of ls' @ rest"] by simp
  ultimately show ?thesis using ls(2) t(3) by (intro exI [of _ k] exI [of _ ls'] conjI)
qed

lemma cstring_token:
  assumes "plain t"
  shows "cstring_at (pre @ t @ 0 # post) (Some (length pre)) = Some t"
  using assms by (auto simp: cstring_at_def plain_def takeWhile_append)

text \<open>When all lines that are left are empty and the rest has no line end, the call runs off the buffer.\<close>

lemma strtok_runs_off:
  assumes "filter (\<lambda>l. l \<noteq> []) ls = []" and "plain rest"
  shows "strtok (pre @ file_of ls @ rest) (length pre) = Inl Out_of_bounds"
proof -
  have "ls = replicate (length ls) []" using assms(1) by (simp add: filter_empty_conv replicate_eqI)
  then have f: "file_of ls = replicate (length ls) LF"
    by (metis (no_types, lifting) append_Nil concat_replicate_trivial file_of_def map_replicate replicate_eqI
        concat_map_singleton map_ident in_set_replicate length_replicate)
  show ?thesis
  proof (cases rest)
    case Nil
    then show ?thesis by (simp add: strtok_def f skip_delim_end)
  next
    case (Cons b rest')
    then have b: "b \<noteq> LF" "b \<noteq> 0" using assms(2) by (auto simp: plain_def)
    let ?p = "pre @ replicate (length ls) LF"
    have "scan_token (?p @ rest @ []) (length ?p) = scan_token (?p @ rest @ []) (length ?p + length rest)"
      using assms(2) by (intro scan_token_run) (auto simp: plain_def)
    also have "\<dots> = Inl Out_of_bounds" by (subst scan_token.simps) simp
    finally have "scan_token (?p @ rest) (length ?p) = Inl Out_of_bounds" by simp
    moreover have "skip_delim (?p @ rest) (length pre) = Inr (length ?p)"
      using skip_delim_at [OF refl b(1)] by (simp add: Cons)
    moreover have "(?p @ rest) ! length ?p = b" unfolding Cons by (rule nth_append_length)
    ultimately show ?thesis using b(2) by (simp add: strtok_def f)
  qed
qed

text \<open>Several calls in a row; the four calls of the code fail where these do.\<close>

fun toks :: "nat \<Rightarrow> u8 list \<Rightarrow> nat \<Rightarrow> unit res" where
  "toks 0 buf pos = Inr ()"
| "toks (Suc n) buf pos = rbind (strtok buf pos) (\<lambda>(_, buf', pos'). toks n buf' pos')"

lemma parse_config_toks: "toks 4 buf 0 = Inl e \<Longrightarrow> parse_config buf = Inl e"
  by (auto simp: parse_config_def eval_nat_numeral res_simps split: prod.splits)

lemma toks_run_off:
  "length (filter (\<lambda>l. l \<noteq> []) ls) < n \<Longrightarrow> list_all plain ls \<Longrightarrow> plain rest \<Longrightarrow>
    toks n (pre @ file_of ls @ rest) (length pre) = Inl Out_of_bounds"
proof (induction n arbitrary: pre ls)
  case (Suc n)
  show ?case
  proof (cases "filter (\<lambda>l. l \<noteq> []) ls")
    case Nil
    then show ?thesis using strtok_runs_off [OF Nil Suc.prems(3)] by simp
  next
    case (Cons t ts)
    obtain k ls' where ls': "filter (\<lambda>l. l \<noteq> []) ls' = ts" "list_all plain ls'"
        "takes rest ls k t ls'" using strtok_lines [OF Cons Suc.prems(2), of rest] by (elim exE conjE)
    have "toks n ((pre @ replicate k LF @ t @ [0]) @ file_of ls' @ rest) (length (pre @ replicate k LF @ t @ [0]))
        = Inl Out_of_bounds"
      using Suc.prems(1,3) Cons ls'(1,2) by (intro Suc.IH) simp_all
    then show ?thesis by (simp only: toks.simps ls'(3) [unfolded takes_def, rule_format] rbind_Inr prod.case)
  qed
qed simp

text \<open>Reading and releasing a file of lines.\<close>

lemma config_read:
  assumes "filter (\<lambda>l. l \<noteq> []) ls = host # user # password # db_name # more_lines" and "list_all plain ls"
    and "fopen (snprintf 100 (homedir @ ''/.judge-server/db.conf'')) = Some (file_of ls @ rest)"
  shows "\<exists>conf. read_db_config fopen homedir = Inr (Inr conf)
    \<and> cstring_at (conf_buf conf) (conf_host conf) = Some host
    \<and> cstring_at (conf_buf conf) (conf_user conf) = Some user
    \<and> cstring_at (conf_buf conf) (conf_password conf) = Some password
    \<and> cstring_at (conf_buf conf) (conf_db_name conf) = Some db_name
    \<and> release_config conf = (if hd ls \<noteq> [] then Inr () else Inl Invalid_free)"
proof -
  have plain: "plain host" "plain user" "plain password" "plain db_name"
  proof -
    have "list_all plain (host # user # password # db_name # more_lines)"
      using assms(2) filter_is_subset [of "\<lambda>l. l \<noteq> []" ls] unfolding assms(1) list_all_iff by blast
    then show "plain host" "plain user" "plain password" "plain db_name" by simp_all
  qed
  obtain k1 ls1 where 1: "filter (\<lambda>l. l \<noteq> []) ls1 = user # password # db_name # more_lines" "list_all plain ls1"
      "k1 = 0 \<longleftrightarrow> hd ls \<noteq> []"
      "takes rest ls k1 host ls1" using strtok_lines [OF assms(1,2), of rest] by (elim exE conjE)
  obtain k2 ls2 where 2: "filter (\<lambda>l. l \<noteq> []) ls2 = password # db_name # more_lines" "list_all plain ls2"
      "takes rest ls1 k2 user ls2" using strtok_lines [OF 1(1,2), of rest] by (elim exE conjE)
  obtain k3 ls3 where 3: "filter (\<lambda>l. l \<noteq> []) ls3 = db_name # more_lines" "list_all plain ls3"
      "takes rest ls2 k3 password ls3" using strtok_lines [OF 2(1,2), of rest] by (elim exE conjE)
  obtain k4 ls4 where 4: "takes rest ls3 k4 db_name ls4" using strtok_lines [OF 3(1,2), of rest] by (elim exE conjE)
  note takes = 1(4) [unfolded takes_def, THEN spec] 2(3) [unfolded takes_def, THEN spec]
    3(3) [unfolded takes_def, THEN spec] 4 [unfolded takes_def, THEN spec]
  define p1 where "p1 = replicate k1 LF @ host @ [0]"
  define p2 where "p2 = p1 @ replicate k2 LF @ user @ [0]"
  define p3 where "p3 = p2 @ replicate k3 LF @ password @ [0]"
  define p4 where "p4 = p3 @ replicate k4 LF @ db_name @ [0]"
  let ?conf = "\<lparr>conf_buf = p4 @ file_of ls4 @ rest, conf_host = Some k1, conf_user = Some (length p1 + k2),
    conf_password = Some (length p2 + k3), conf_db_name = Some (length p3 + k4)\<rparr>"
  have "parse_config (file_of ls @ rest) = Inr ?conf"
    using takes(1) [of "[]"] takes(2) [of p1] takes(3) [of p2] takes(4) [of p3]
    by (simp add: parse_config_def p1_def [symmetric] p2_def [symmetric] p3_def [symmetric] p4_def [symmetric])
  then have "read_db_config fopen homedir = Inr (Inr ?conf)" by (simp add: read_db_config_def assms(3))
  moreover have "cstring_at (conf_buf ?conf) (conf_host ?conf) = Some host"
    using cstring_token [OF plain(1), of "replicate k1 LF"] by (simp add: p1_def p2_def p3_def p4_def)
  moreover have "cstring_at (conf_buf ?conf) (conf_user ?conf) = Some user"
    using cstring_token [OF plain(2), of "p1 @ replicate k2 LF"] by (simp add: p2_def p3_def p4_def)
  moreover have "cstring_at (conf_buf ?conf) (conf_password ?conf) = Some password"
    using cstring_token [OF plain(3), of "p2 @ replicate k3 LF"] by (simp add: p3_def p4_def)
  moreover have "cstring_at (conf_buf ?conf) (conf_db_name ?conf) = Some db_name"
    using cstring_token [OF plain(4), of "p3 @ replicate k4 LF"] by (simp add: p4_def)
  moreover have "release_config ?conf = (if hd ls \<noteq> [] then Inr () else Inl Invalid_free)"
    using 1(3) by (simp add: release_config_def)
  ultimately show ?thesis by blast
qed

text \<open>
  C26: the configuration is read back.  From a file of lines, each ended by a line feed and without zero
  bytes, \<^verbatim>\<open>read_db_config\<close> takes the first four lines that are not empty as host, user, password and
  database name, whatever follows them.  Empty lines are skipped, so an empty password line makes the
  next line the password.  Releasing the configuration at the end of \<^verbatim>\<open>main\<close> is valid exactly when the
  file does not start with an empty line: otherwise \<^verbatim>\<open>conf->host\<close> is not the start of the buffer.
\<close>

theorem config_reads_back:
  assumes "filter (\<lambda>l. l \<noteq> []) ls = host # user # password # db_name # more_lines" and "list_all plain ls"
    and "fopen (snprintf 100 (homedir @ ''/.judge-server/db.conf'')) = Some (file_of ls @ rest)"
  shows "\<exists>conf. read_db_config fopen homedir = Inr (Inr conf)
    \<and> cstring_at (conf_buf conf) (conf_host conf) = Some host
    \<and> cstring_at (conf_buf conf) (conf_user conf) = Some user
    \<and> cstring_at (conf_buf conf) (conf_password conf) = Some password
    \<and> cstring_at (conf_buf conf) (conf_db_name conf) = Some db_name
    \<and> release_config conf = (if hd ls \<noteq> [] then Inr () else Inl Invalid_free)"
  using assms by (rule config_read)

definition demo_file :: "u8 list" where
  "demo_file = file_of (map bytes_of [''localhost'', ''judge'', ''12345'', ''judgeweb''])"

theorem config_reads_back_witness:
  "\<exists>conf. read_db_config (\<lambda>f. if f = ''/home/judge/.judge-server/db.conf'' then Some demo_file else None) ''/home/judge''
      = Inr (Inr conf)
    \<and> cstring_at (conf_buf conf) (conf_password conf) = Some (bytes_of ''12345'') \<and> release_config conf = Inr ()"
proof -
  let ?ls = "map bytes_of [''localhost'', ''judge'', ''12345'', ''judgeweb'']"
  have "list_all plain ?ls" by (simp add: plain_def bytes_of_def)
  with config_reads_back [of ?ls "bytes_of ''localhost''" "bytes_of ''judge''" "bytes_of ''12345''" "bytes_of ''judgeweb''" "[]"
      "\<lambda>f. if f = ''/home/judge/.judge-server/db.conf'' then Some demo_file else None" "''/home/judge''" "[]"]
  show ?thesis by (auto simp: snprintf_def demo_file_def bytes_of_def)
qed

text \<open>
  The configuration buffer has no terminating zero.  If the file has fewer than four lines that are
  not empty and end in a line feed, for instance because the last line is not ended, \<^verbatim>\<open>strtok\<close> reads on
  behind the buffer.
\<close>

theorem config_overread:
  assumes "length (filter (\<lambda>l. l \<noteq> []) ls) < 4" and "list_all plain ls" and "plain rest"
    and "fopen (snprintf 100 (homedir @ ''/.judge-server/db.conf'')) = Some (file_of ls @ rest)"
  shows "read_db_config fopen homedir = Inl Out_of_bounds"
proof -
  have "toks 4 ([] @ file_of ls @ rest) (length ([] :: u8 list)) = Inl Out_of_bounds"
    using assms(1-3) by (rule toks_run_off)
  then have "parse_config (file_of ls @ rest) = Inl Out_of_bounds" by (intro parse_config_toks) simp
  then show ?thesis by (simp add: read_db_config_def assms(4))
qed

theorem config_overread_witness:
  "read_db_config (\<lambda>f. if f = ''/home/judge/.judge-server/db.conf'' then Some (bytes_of ''localhost'') else None)
      ''/home/judge'' = Inl Out_of_bounds"
  by (rule config_overread [of "[]" "bytes_of ''localhost''"]) (simp_all add: file_of_def plain_def bytes_of_def snprintf_def)

end
