(* ===== verification/Control.thy ===== *)
theory Control
  imports Registry
begin

text \<open>
  The two loops outside the worker threads' protocol: the local control socket, which answers
  \<^verbatim>\<open>status\<close> and stops the server on \<^verbatim>\<open>stop\<close>, and the accept loop of \<^verbatim>\<open>run_server\<close>, which hands every
  connection to the thread pool.  The datagrams and the results of the socket calls are arguments.
\<close>

section \<open>The control socket\<close>

text \<open>\<^verbatim>\<open>strcmp(buf, lit) == 0\<close> for a literal that is shorter than the buffer.\<close>

definition strcmp_eq :: "u8 list \<Rightarrow> string \<Rightarrow> bool" where
  "strcmp_eq buf lit \<longleftrightarrow> take (Suc (length lit)) buf = bytes_of lit @ [0]"

text \<open>
  \<^verbatim>\<open>recvfrom\<close> stores at most 100 bytes of the datagram at the start of the buffer and leaves the others as
  they were; when it fails (\<open>None\<close>) it stores nothing.
\<close>

definition recvfrom :: "u8 list option \<Rightarrow> u8 list \<Rightarrow> u8 list" where
  "recvfrom dgram recv_buf = (case dgram of
     None \<Rightarrow> recv_buf
   | Some d \<Rightarrow> take 100 d @ drop (length (take 100 d)) recv_buf)"

definition srv_running_msg :: string where "srv_running_msg = ''Server is running''"
definition srv_stopped_msg :: string where "srv_stopped_msg = ''Server is stopped''"

text \<open>
  The loop from its \<open>n\<close>-th turn on: the replies sent so far are an argument, those sent in all are part of
  the result, next to the state of the server.  \<open>None\<close> is a loop that never ends.
\<close>

partial_function (option) local_control_loop ::
  "(nat \<Rightarrow> u8 list option) \<Rightarrow> nat \<Rightarrow> u8 list \<Rightarrow> string list \<Rightarrow> 'c server \<Rightarrow> (string list \<times> 'c server) option" where
  "local_control_loop dgrams n recv_buf replies s =
     (let recv_buf = recvfrom (dgrams n) recv_buf in
      if strcmp_eq recv_buf ''status'' then
        local_control_loop dgrams (Suc n) recv_buf
          (replies @ [if server_running s then srv_running_msg else srv_stopped_msg]) s
      else if strcmp_eq recv_buf ''stop'' then Some (replies, s\<lparr>server_running := False\<rparr>)
      else local_control_loop dgrams (Suc n) recv_buf replies s)"

section \<open>The accept loop\<close>

datatype server_task = Poll_database | Local_control_loop | Client_loop int

text \<open>
  What one turn meets: whether \<^verbatim>\<open>server_running\<close> is set when the condition is tested, what \<^verbatim>\<open>accept\<close>
  returns, and whether \<^verbatim>\<open>server_running\<close> is still set after it.
\<close>

record accept_event =
  running_before :: bool
  accepted_fd :: int
  running_after :: bool

text \<open>The result: the connections handed to the pool, in order, and the socket that was closed instead.\<close>

partial_function (option) accept_loop ::
  "(nat \<Rightarrow> accept_event) \<Rightarrow> nat \<Rightarrow> server_task list \<Rightarrow> (server_task list \<times> int option) option" where
  "accept_loop env n tasks =
     (if running_before (env n) \<and> accepted_fd (env n) \<noteq> 0 then
        (if \<not> running_after (env n) then Some (tasks, Some (accepted_fd (env n)))
         else accept_loop env (Suc n) (tasks @ [Client_loop (accepted_fd (env n))]))
      else Some (tasks, None))"

text \<open>
  \<^verbatim>\<open>run_server\<close> up to the moment the pool is destroyed; \<open>Inl\<close> is the status of \<^verbatim>\<open>exit\<close>.  The rest, destroying the pool
  and \<^verbatim>\<open>cleanup\<close>, is \<open>stop_server\<close> in \<open>Process\<close>.
\<close>

definition run_server ::
  "int \<Rightarrow> int \<Rightarrow> (nat \<Rightarrow> accept_event) \<Rightarrow> (int + server_task list \<times> int option) option" where
  "run_server listener bound env =
     (if listener < 0 then Some (Inl 1)
      else if bound < 0 then Some (Inl 2)
      else map_option Inr (accept_loop env 0 [Poll_database, Local_control_loop]))"

section \<open>Commands that end in a zero byte\<close>

lemma strcmp_eq_terminated:
  assumes "0 \<notin> set c" and "0 \<notin> set (bytes_of lit)"
  shows "strcmp_eq (c @ 0 # junk) lit \<longleftrightarrow> c = bytes_of lit"
proof
  assume "strcmp_eq (c @ 0 # junk) lit"
  then have "c @ 0 # junk = bytes_of lit @ 0 # drop (Suc (length lit)) (c @ 0 # junk)"
    using append_take_drop_id [of "Suc (length lit)" "c @ 0 # junk"] by (simp add: strcmp_eq_def)
  then have "takeWhile (\<lambda>b. b \<noteq> 0) (c @ 0 # junk)
      = takeWhile (\<lambda>b. b \<noteq> 0) (bytes_of lit @ 0 # drop (Suc (length lit)) (c @ 0 # junk))" by (rule arg_cong)
  moreover have "takeWhile (\<lambda>b. b \<noteq> 0) (xs @ 0 # ys) = xs" if "0 \<notin> set xs" for xs ys :: "u8 list"
    using that by (subst takeWhile_append2) auto
  ultimately show "c = bytes_of lit" using assms by metis
qed (simp add: strcmp_eq_def bytes_of_def)

lemma no_zero [simp]: "0 \<notin> set (bytes_of ''status'')" "0 \<notin> set (bytes_of ''stop'')"
  by (simp_all add: bytes_of_def)

lemma recvfrom_terminated: "length c < 100 \<Longrightarrow> \<exists>junk. recvfrom (Some (c @ [0])) buf = c @ 0 # junk"
  by (simp add: recvfrom_def)

lemma status_not_stop: "bytes_of ''status'' \<noteq> bytes_of ''stop''"
  by (simp add: bytes_of_def)

definition command_ok :: "u8 list \<Rightarrow> bool" where
  "command_ok c \<longleftrightarrow> 0 \<notin> set c \<and> length c < 100"

lemma local_control_loop_step:
  assumes "dgrams n = Some (c @ [0])" and "command_ok c" and "server_running s"
  shows "\<exists>buf'. local_control_loop dgrams n buf replies s =
    (if c = bytes_of ''status'' then local_control_loop dgrams (Suc n) buf' (replies @ [srv_running_msg]) s
     else if c = bytes_of ''stop'' then Some (replies, s\<lparr>server_running := False\<rparr>)
     else local_control_loop dgrams (Suc n) buf' replies s)"
proof -
  obtain junk where "recvfrom (dgrams n) buf = c @ 0 # junk"
    using recvfrom_terminated assms(1,2) by (auto simp: command_ok_def)
  then show ?thesis
    using assms(2,3) by (subst local_control_loop.simps) (auto simp: Let_def strcmp_eq_terminated command_ok_def)
qed

lemma local_control_loop_run:
  assumes "\<forall>i < length cs. dgrams (n + i) = Some (cs ! i @ [0])" and "list_all command_ok cs"
    and "cs = pre @ [bytes_of ''stop'']" and "bytes_of ''stop'' \<notin> set pre" and "server_running s"
  shows "local_control_loop dgrams n buf replies s
    = Some (replies @ replicate (count_list pre (bytes_of ''status'')) srv_running_msg, s\<lparr>server_running := False\<rparr>)"
  using assms
proof (induction pre arbitrary: cs n buf replies)
  case Nil
  then have "dgrams n = Some (bytes_of ''stop'' @ [0])" "command_ok (bytes_of ''stop'')" by auto
  from local_control_loop_step [of dgrams n "bytes_of ''stop''" s buf replies, OF this Nil.prems(5)] status_not_stop
  show ?case by auto
next
  case (Cons c pre)
  have "dgrams n = Some (c @ [0])" "command_ok c" using Cons.prems(1-3) by auto
  from local_control_loop_step [of dgrams n c s buf replies, OF this Cons.prems(5)] obtain buf' where
    step: "local_control_loop dgrams n buf replies s =
      (if c = bytes_of ''status'' then local_control_loop dgrams (Suc n) buf' (replies @ [srv_running_msg]) s
       else if c = bytes_of ''stop'' then Some (replies, s\<lparr>server_running := False\<rparr>)
       else local_control_loop dgrams (Suc n) buf' replies s)" by blast
  have "\<forall>i < length (tl cs). dgrams (Suc n + i) = Some (tl cs ! i @ [0])"
  proof (intro allI impI)
    fix i assume "i < length (tl cs)"
    then show "dgrams (Suc n + i) = Some (tl cs ! i @ [0])" using Cons.prems(1) [rule_format, of "Suc i"] by (simp add: nth_tl)
  qed
  moreover have "list_all command_ok (tl cs)" "tl cs = pre @ [bytes_of ''stop'']" "bytes_of ''stop'' \<notin> set pre"
    using Cons.prems(2-4) by auto
  ultimately have "local_control_loop dgrams (Suc n) buf' r s
      = Some (r @ replicate (count_list pre (bytes_of ''status'')) srv_running_msg, s\<lparr>server_running := False\<rparr>)" for r
    using Cons.IH Cons.prems(5) by blast
  then show ?case using step Cons.prems(4) by auto
qed

section \<open>Properties\<close>

text \<open>
  C27: the control protocol.  When every datagram is a command with its terminating zero byte, each
  \<^verbatim>\<open>status\<close> before the first \<^verbatim>\<open>stop\<close> is answered once, unknown commands are ignored, and the first \<^verbatim>\<open>stop\<close>
  ends the loop and clears \<^verbatim>\<open>server_running\<close>; what the buffer held before makes no difference.
\<close>

theorem control_protocol:
  assumes "\<forall>i < length cs. dgrams i = Some (cs ! i @ [0])" and "list_all command_ok cs"
    and "cs = pre @ [bytes_of ''stop'']" and "bytes_of ''stop'' \<notin> set pre" and "server_running s"
  shows "local_control_loop dgrams 0 recv_buf [] s
    = Some (replicate (count_list pre (bytes_of ''status'')) ''Server is running'', s\<lparr>server_running := False\<rparr>)"
  using local_control_loop_run [of cs dgrams 0 pre s recv_buf "[]"] assms by (simp add: srv_running_msg_def)

definition demo_dgrams :: "nat \<Rightarrow> u8 list option" where
  "demo_dgrams i = Some ((if i = 0 then bytes_of ''status'' else bytes_of ''stop'') @ [0])"

theorem control_protocol_witness:
  "\<exists>s'. local_control_loop demo_dgrams 0 (replicate 100 7) [] demo_one = Some ([''Server is running''], s')
    \<and> \<not> server_running s'"
proof -
  let ?cs = "[bytes_of ''status''] @ [bytes_of ''stop'']"
  have "list_all command_ok ?cs" by (simp add: command_ok_def bytes_of_def)
  moreover have "\<forall>i < length ?cs. demo_dgrams i = Some (?cs ! i @ [0])" by (auto simp: demo_dgrams_def nth_Cons')
  moreover have "bytes_of ''stop'' \<notin> set [bytes_of ''status'']" using status_not_stop by simp
  ultimately have "local_control_loop demo_dgrams 0 (replicate 100 7) [] demo_one
      = Some (replicate (count_list [bytes_of ''status''] (bytes_of ''status'')) ''Server is running'',
          demo_one\<lparr>server_running := False\<rparr>)"
    using demo_one_running by (intro control_protocol [OF _ _ refl])
  then show ?thesis by simp
qed

text \<open>
  A command without its zero byte may be lost.  The buffer keeps what earlier datagrams left in it,
  so a \<^verbatim>\<open>stop\<close> of four bytes after a \<^verbatim>\<open>status\<close> reads as \<^verbatim>\<open>stopus\<close>: however often it is sent, the server
  is not stopped.
\<close>

theorem control_stop_ignored:
  assumes "dgrams 0 = Some (bytes_of ''status'' @ [0])" and "\<forall>i \<ge> 1. dgrams i = Some (bytes_of ''stop'')"
  shows "local_control_loop dgrams 0 recv_buf [] s = None"
proof -
  have "\<not> (4 < length buf \<and> buf ! 4 = 117 \<and> (\<forall>i \<ge> n. dgrams i = Some (bytes_of ''stop'')))"
    if "local_control_loop dgrams n buf replies t = Some r" for dgrams n buf replies and t :: "'z server" and r
    using that
  proof (rule local_control_loop.raw_induct [rotated], intro notI, elim conjE)
    fix loop and dgrams n buf replies and t :: "'z server" and r
    assume IH: "\<And>dgrams n buf replies t r. loop dgrams n buf replies t = Some r \<Longrightarrow>
        \<not> (4 < length buf \<and> buf ! 4 = 117 \<and> (\<forall>i \<ge> n. dgrams i = Some (bytes_of ''stop'')))"
      and run: "(let recv_buf = recvfrom (dgrams n) buf in
        if strcmp_eq recv_buf ''status'' then
          loop dgrams (Suc n) recv_buf (replies @ [if server_running t then srv_running_msg else srv_stopped_msg]) t
        else if strcmp_eq recv_buf ''stop'' then Some (replies, t\<lparr>server_running := False\<rparr>)
        else loop dgrams (Suc n) recv_buf replies t) = Some r"
      and inv: "4 < length buf" "buf ! 4 = 117" "\<forall>i \<ge> n. dgrams i = Some (bytes_of ''stop'')"
    obtain rest where rest: "drop 4 buf = 117 # rest"
      using inv(1,2) by (metis Cons_nth_drop_Suc)
    have b: "recvfrom (dgrams n) buf = bytes_of ''stop'' @ 117 # rest"
      using inv(3) rest by (simp add: recvfrom_def bytes_of_def eval_nat_numeral)
    then have "\<not> strcmp_eq (recvfrom (dgrams n) buf) ''status''" "\<not> strcmp_eq (recvfrom (dgrams n) buf) ''stop''"
      by (simp_all add: strcmp_eq_def bytes_of_def)
    with run have "loop dgrams (Suc n) (bytes_of ''stop'' @ 117 # rest) replies t = Some r" by (simp add: b Let_def)
    from IH [OF this] inv(3) show False by (simp add: bytes_of_def)
  qed
  note never = this
  obtain junk where b: "recvfrom (dgrams 0) recv_buf = bytes_of ''status'' @ 0 # junk"
    using recvfrom_terminated [of "bytes_of ''status''" recv_buf] assms(1) by (auto simp: bytes_of_def)
  have "strcmp_eq (bytes_of ''status'' @ 0 # junk) ''status''" by (simp add: strcmp_eq_def bytes_of_def)
  then have "local_control_loop dgrams 0 recv_buf [] s = local_control_loop dgrams (Suc 0) (bytes_of ''status'' @ 0 # junk)
      [if server_running s then srv_running_msg else srv_stopped_msg] s"
    by (subst local_control_loop.simps) (simp add: b Let_def)
  moreover have "4 < length (bytes_of ''status'' @ 0 # junk)" "(bytes_of ''status'' @ 0 # junk) ! 4 = 117"
    by (simp_all add: bytes_of_def)
  ultimately show ?thesis using never [of dgrams "Suc 0"] assms(2) by (metis One_nat_def option.exhaust)
qed

theorem control_stop_ignored_witness:
  "local_control_loop (\<lambda>i. Some (if i = 0 then bytes_of ''status'' @ [0] else bytes_of ''stop'')) 0 [] [] demo_one = None"
  by (rule control_stop_ignored) simp_all

text \<open>The accept loop takes all connections up to the one that wakes it.\<close>

lemma run_server_all:
  assumes "0 \<le> listener" and "0 \<le> bound"
    and "\<forall>i \<le> length fds. env i = \<lparr>running_before = True, accepted_fd = (fds @ [waker]) ! i, running_after = i < length fds\<rparr>"
    and "0 \<notin> set (fds @ [waker])"
  shows "run_server listener bound env
    = Some (Inr (Poll_database # Local_control_loop # map Client_loop fds, Some waker))"
proof -
  have "accept_loop env n tasks = Some (tasks @ map Client_loop rest, Some waker)"
    if "\<forall>i \<le> length rest. env (n + i) = \<lparr>running_before = True, accepted_fd = (rest @ [waker]) ! i, running_after = i < length rest\<rparr>"
      "0 \<notin> set (rest @ [waker])" for n tasks rest
    using that
  proof (induction rest arbitrary: n tasks)
    case Nil
    then show ?case by (subst accept_loop.simps) simp
  next
    case (Cons fd rest)
    have "env n = \<lparr>running_before = True, accepted_fd = fd, running_after = True\<rparr>" using Cons.prems(1) by (auto dest: spec [of _ 0])
    then have "accept_loop env n tasks = accept_loop env (Suc n) (tasks @ [Client_loop fd])"
      using Cons.prems(2) by (subst accept_loop.simps) simp
    moreover have "\<forall>i \<le> length rest. env (Suc n + i)
        = \<lparr>running_before = True, accepted_fd = (rest @ [waker]) ! i, running_after = i < length rest\<rparr>"
    proof (intro allI impI)
      fix i assume "i \<le> length rest"
      then show "env (Suc n + i) = \<lparr>running_before = True, accepted_fd = (rest @ [waker]) ! i, running_after = i < length rest\<rparr>"
        using Cons.prems(1) [rule_format, of "Suc i"] by simp
    qed
    ultimately show ?case using Cons.IH [of "Suc n"] Cons.prems(2) by simp
  qed
  from this [of fds 0 "[Poll_database, Local_control_loop]"] assms show ?thesis by (simp add: run_server_def)
qed

text \<open>
  C28: what \<^verbatim>\<open>run_server\<close> submits.  With a socket that can be bound, the polling thread and the control
  thread are submitted first and then every accepted connection in order, among them each failed
  \<^verbatim>\<open>accept\<close> as if -1 were a connection, until \<^verbatim>\<open>server_running\<close> is cleared: the connection that wakes
  \<^verbatim>\<open>accept\<close> up after that is closed and not submitted.
\<close>

theorem run_server_submits:
  assumes "0 \<le> listener" and "0 \<le> bound"
    and "\<forall>i \<le> length fds. env i = \<lparr>running_before = True, accepted_fd = (fds @ [waker]) ! i, running_after = i < length fds\<rparr>"
    and "0 \<notin> set (fds @ [waker])"
  shows "run_server listener bound env
    = Some (Inr (Poll_database # Local_control_loop # map Client_loop fds, Some waker))"
  using assms by (rule run_server_all)

theorem run_server_submits_witness:
  "run_server 3 0 (\<lambda>i. \<lparr>running_before = True, accepted_fd = if i = 0 then 4 else if i = 1 then -1 else 5, running_after = i < 2\<rparr>)
    = Some (Inr ([Poll_database, Local_control_loop, Client_loop 4, Client_loop (-1)], Some 5))"
proof -
  have "i = 0 \<or> i = 1 \<or> i = 2" if "i \<le> 2" for i :: nat using that by auto
  then show ?thesis by (intro run_server_submits [of 3 0 "[4, -1]" _ 5, simplified]) auto
qed

end
