(* ===== verification/Logger.thy ===== *)
theory Logger
  imports Prelude
begin

text \<open>
  The log file of \<^verbatim>\<open>utils.c\<close>.  A line is written by three calls of \<^verbatim>\<open>fprintf\<close> and \<^verbatim>\<open>vfprintf\<close> under the
  logger's mutex; any number of threads log at the same time, so \<^verbatim>\<open>logger_printf\<close> is a transition system
  with one step per lock operation and per call that writes.  The time stamps and the formatted
  messages are arguments of the steps.  What \<^verbatim>\<open>fprintf\<close> has accepted counts as written: the file is
  flushed before the mutex is released.
\<close>

section \<open>State\<close>

text \<open>Where a thread is in \<^verbatim>\<open>logger_printf\<close>, with its message and, once it is known, the time stamp.\<close>

datatype log_pc =
    L_out
  | L_lock string
  | L_prefix string
  | L_text string string
  | L_newline string string
  | L_unlock

text \<open>
  \<open>lg_fd\<close> is the content of the file, or \<open>None\<close> when the file is closed.  The lists record the calls made
  and the lines written, with their threads; the code has no counterpart of them.
\<close>

record logger_t =
  lg_fd :: "string option"
  lg_mutex :: "nat option"
  lg_pc :: "nat \<Rightarrow> log_pc"
  lg_calls :: "(nat \<times> string) list"
  lg_lines :: "(nat \<times> string \<times> string) list"

abbreviation (input) newline :: string where "newline \<equiv> [CHR 0x0A]"

definition log_start :: "string \<Rightarrow> string" where
  "log_start stamp = ''----- Logging started ['' @ stamp @ ''] -----'' @ newline"

definition log_end :: "string \<Rightarrow> string" where
  "log_end stamp = ''----- Logging ended ['' @ stamp @ ''] -----'' @ newline @ newline"

definition log_prefix :: "nat \<Rightarrow> string \<Rightarrow> string" where
  "log_prefix t stamp = ''['' @ stamp @ ''] THREAD '' @ show_u t @ '': ''"

section \<open>Operations\<close>

text \<open>\<^verbatim>\<open>logger_init\<close>: without the file there is no logger, and logging does nothing.\<close>

definition logger_init :: "bool \<Rightarrow> string \<Rightarrow> logger_t option" where
  "logger_init fopen_ok stamp =
     (if fopen_ok then Some \<lparr>lg_fd = Some (log_start stamp), lg_mutex = None, lg_pc = (\<lambda>_. L_out), lg_calls = [], lg_lines = []\<rparr>
      else None)"

abbreviation at :: "nat \<Rightarrow> log_pc \<Rightarrow> logger_t \<Rightarrow> logger_t" where
  "at t pc l \<equiv> l\<lparr>lg_pc := (lg_pc l)(t := pc)\<rparr>"

definition fprintf :: "string \<Rightarrow> logger_t \<Rightarrow> logger_t" where
  "fprintf s l = l\<lparr>lg_fd := map_option (\<lambda>f. f @ s) (lg_fd l)\<rparr>"

inductive logger_printf :: "logger_t \<Rightarrow> logger_t \<Rightarrow> bool" where
  enter: "lg_pc l t = L_out \<Longrightarrow> lg_fd l \<noteq> None \<Longrightarrow>
    logger_printf l (at t (L_lock msg) l\<lparr>lg_calls := lg_calls l @ [(t, msg)]\<rparr>)"
| lock: "lg_pc l t = L_lock msg \<Longrightarrow> lg_mutex l = None \<Longrightarrow> logger_printf l (at t (L_prefix msg) l\<lparr>lg_mutex := Some t\<rparr>)"
| put_prefix: "lg_pc l t = L_prefix msg \<Longrightarrow> logger_printf l (at t (L_text stamp msg) (fprintf (log_prefix t stamp) l))"
| put_text: "lg_pc l t = L_text stamp msg \<Longrightarrow> logger_printf l (at t (L_newline stamp msg) (fprintf msg l))"
| put_newline: "lg_pc l t = L_newline stamp msg \<Longrightarrow>
    logger_printf l (at t L_unlock (fprintf newline l)\<lparr>lg_lines := lg_lines l @ [(t, stamp, msg)]\<rparr>)"
| unlock: "lg_pc l t = L_unlock \<Longrightarrow> logger_printf l (at t L_out l\<lparr>lg_mutex := None\<rparr>)"

text \<open>
  \<^verbatim>\<open>logger_destroy\<close> waits for the mutex (\<open>None\<close> when it is held) and yields what the file then contains; the
  structure is released.
\<close>

definition logger_destroy :: "string \<Rightarrow> logger_t \<Rightarrow> string option" where
  "logger_destroy stamp l = (case lg_mutex l of
     Some _ \<Rightarrow> None
   | None \<Rightarrow> map_option (\<lambda>f. f @ log_end stamp) (lg_fd l))"

inductive logging :: "string \<Rightarrow> logger_t \<Rightarrow> bool" for stamp where
  opened: "logger_init True stamp = Some l \<Longrightarrow> logging stamp l"
| step: "logging stamp l \<Longrightarrow> logger_printf l l' \<Longrightarrow> logging stamp l'"

section \<open>Invariant\<close>

definition log_line :: "nat \<times> string \<times> string \<Rightarrow> string" where
  "log_line ln = (case ln of (t, stamp, msg) \<Rightarrow> log_prefix t stamp @ msg @ newline)"

definition writing :: "log_pc \<Rightarrow> bool" where
  "writing pc = (case pc of L_out \<Rightarrow> False | L_lock _ \<Rightarrow> False | _ \<Rightarrow> True)"

definition unfinished :: "nat \<Rightarrow> log_pc \<Rightarrow> string" where
  "unfinished t pc = (case pc of
     L_text stamp msg \<Rightarrow> log_prefix t stamp
   | L_newline stamp msg \<Rightarrow> log_prefix t stamp @ msg
   | _ \<Rightarrow> [])"

definition pending :: "log_pc \<Rightarrow> string list" where
  "pending pc = (case pc of L_out \<Rightarrow> [] | L_unlock \<Rightarrow> []
     | L_lock msg \<Rightarrow> [msg] | L_prefix msg \<Rightarrow> [msg] | L_text _ msg \<Rightarrow> [msg] | L_newline _ msg \<Rightarrow> [msg])"

lemmas pc_simps = writing_def unfinished_def pending_def

definition calls_of :: "nat \<Rightarrow> logger_t \<Rightarrow> string list" where
  "calls_of t l = map snd (filter (\<lambda>c. fst c = t) (lg_calls l))"

definition lines_of :: "nat \<Rightarrow> logger_t \<Rightarrow> string list" where
  "lines_of t l = map (\<lambda>(_, _, msg). msg) (filter (\<lambda>c. fst c = t) (lg_lines l))"

definition log_partial :: "logger_t \<Rightarrow> string" where
  "log_partial l = (case lg_mutex l of None \<Rightarrow> [] | Some t \<Rightarrow> unfinished t (lg_pc l t))"

definition log_ok :: "string \<Rightarrow> logger_t \<Rightarrow> bool" where
  "log_ok stamp l \<longleftrightarrow> (\<forall>t. writing (lg_pc l t) \<longleftrightarrow> lg_mutex l = Some t)
     \<and> lg_fd l = Some (log_start stamp @ concat (map log_line (lg_lines l)) @ log_partial l)
     \<and> (\<forall>t. calls_of t l = lines_of t l @ pending (lg_pc l t))"

lemma log_ok_init: "logger_init True stamp = Some l \<Longrightarrow> log_ok stamp l"
  by (auto simp: logger_init_def log_ok_def pc_simps calls_of_def lines_of_def log_partial_def)

lemma writer_free: "log_ok stamp l \<Longrightarrow> \<not> writing (lg_pc l t) \<Longrightarrow> lg_mutex l \<noteq> Some t"
  by (simp add: log_ok_def)

lemma log_ok_step:
  assumes "logger_printf l l'" and ok: "log_ok stamp l"
  shows "log_ok stamp l'"
  using assms(1)
proof (cases rule: logger_printf.cases)
  case (enter t msg)
  then have free: "lg_mutex l \<noteq> Some t" using ok by (intro writer_free) (auto simp: writing_def)
  then have "log_partial l' = log_partial l" by (simp add: enter(1) log_partial_def split: option.splits)
  with ok enter free show ?thesis
    by (auto simp: log_ok_def calls_of_def lines_of_def pc_simps)
next
  case (lock t msg)
  with ok show ?thesis by (auto simp: log_ok_def calls_of_def lines_of_def pc_simps log_partial_def)
next
  case (put_prefix t msg s)
  then have "lg_mutex l = Some t" using ok by (auto simp: log_ok_def writing_def)
  with ok put_prefix show ?thesis
    by (auto simp: log_ok_def calls_of_def lines_of_def pc_simps log_partial_def fprintf_def)
next
  case (put_text t s msg)
  then have "lg_mutex l = Some t" using ok by (auto simp: log_ok_def writing_def)
  with ok put_text show ?thesis
    by (auto simp: log_ok_def calls_of_def lines_of_def pc_simps log_partial_def fprintf_def)
next
  case (put_newline t s msg)
  then have "lg_mutex l = Some t" using ok by (auto simp: log_ok_def writing_def)
  with ok put_newline show ?thesis
    by (auto simp: log_ok_def calls_of_def lines_of_def pc_simps log_partial_def fprintf_def log_line_def)
next
  case (unlock t)
  then have "lg_mutex l = Some t" using ok by (auto simp: log_ok_def writing_def)
  with ok unlock show ?thesis
    by (auto simp: log_ok_def calls_of_def lines_of_def pc_simps log_partial_def)
qed

lemma logging_ok: "logging stamp l \<Longrightarrow> log_ok stamp l"
  by (induction rule: logging.induct) (auto intro: log_ok_init log_ok_step)

section \<open>Properties\<close>

text \<open>
  C24: log lines are never mixed.  However the threads are scheduled, the file holds the start line, then
  whole lines, each with the prefix and the message of one call, and then at most the beginning of one
  more line, which belongs to the thread that has the mutex.  Every thread's calls appear once and in
  the order it made them, all but the one it may be in; destroying the logger adds the end line.
\<close>

theorem log_lines_whole:
  assumes "logging stamp l"
  shows "\<exists>partial. lg_fd l = Some (log_start stamp
        @ concat (map (\<lambda>(t, time, msg). log_prefix t time @ msg @ newline) (lg_lines l)) @ partial)
      \<and> (lg_mutex l = None \<longrightarrow> partial = []
           \<and> logger_destroy ended l = Some (log_start stamp
               @ concat (map (\<lambda>(t, time, msg). log_prefix t time @ msg @ newline) (lg_lines l)) @ log_end ended))
      \<and> (\<forall>t. \<exists>waiting. calls_of t l = lines_of t l @ waiting \<and> length waiting \<le> 1 \<and> (lg_pc l t = L_out \<longrightarrow> waiting = []))"
proof -
  have ok: "log_ok stamp l" using assms by (rule logging_ok)
  have line: "log_line = (\<lambda>(t, time, msg). log_prefix t time @ msg @ newline)"
    by (simp add: fun_eq_iff log_line_def)
  have "length (pending pc) \<le> 1" for pc by (cases pc) (simp_all add: pending_def)
  then have "\<forall>t. \<exists>waiting. calls_of t l = lines_of t l @ waiting \<and> length waiting \<le> 1 \<and> (lg_pc l t = L_out \<longrightarrow> waiting = [])"
    using ok by (auto simp: log_ok_def pending_def)
  then show ?thesis using ok unfolding line [symmetric]
    by (intro exI [of _ "log_partial l"]) (auto simp: log_ok_def log_partial_def logger_destroy_def)
qed

text \<open>A thread logs a message while another one waits for the mutex.\<close>

definition demo_log :: logger_t where
  "demo_log = the (logger_init True ''now'')"

lemma demo_log_step:
  "logging ''now'' (at 1 (L_lock ''a'') demo_log\<lparr>lg_calls := [(1, ''a'')]\<rparr>)"
proof -
  have init: "logger_init True ''now'' = Some demo_log" by (simp add: demo_log_def logger_init_def)
  have "logger_printf demo_log (at 1 (L_lock ''a'') demo_log\<lparr>lg_calls := lg_calls demo_log @ [(1, ''a'')]\<rparr>)"
    by (rule logger_printf.enter) (simp_all add: demo_log_def logger_init_def)
  from logging.step [OF logging.opened [OF init] this] show ?thesis by (simp add: demo_log_def logger_init_def)
qed

theorem log_lines_whole_witness:
  "logger_destroy ''later'' (at 1 (L_lock ''a'') demo_log\<lparr>lg_calls := [(1, ''a'')]\<rparr>)
    = Some (log_start ''now'' @ log_end ''later'')"
  using log_lines_whole [OF demo_log_step, of "''later''"] by (auto simp: demo_log_def logger_init_def)

end
