(* ===== verification/Process.thy ===== *)
theory Process
  imports Startup Control Logger System
begin

text \<open>
  The process: \<^verbatim>\<open>main\<close> and \<^verbatim>\<open>daemon_init\<close> of \<^verbatim>\<open>main.c\<close>, composed of the configuration, the logger and
  \<^verbatim>\<open>run_server\<close>, with the accept loop, the work of the threads, the end of the thread pool and \<^verbatim>\<open>cleanup\<close>.  The state is what the system keeps for a process, as far as the code changes it; what the
  system answers is an argument.
\<close>

section \<open>The work of the threads\<close>

text \<open>
  The schedule of the worker threads, one entry per turn: a free worker takes the next connection from the queue of the pool
  and does the handshake (with what lies in its memory), a session does one round, the polling thread does one turn, the control
  thread gets the stop command.
\<close>

datatype work = W_start "nat \<Rightarrow> u16 \<times> u16" | W_session addr | W_poll | W_stop

text \<open>
  The turns of a schedule.  The pool hands out the connections \<open>fds\<close> in the order in which they were submitted; \<open>sock\<close> is what is
  behind a descriptor.
\<close>

fun work_turns :: "(int \<Rightarrow> socket) \<Rightarrow> int list \<Rightarrow> work list \<Rightarrow> turn list" where
  "work_turns sock fds [] = []"
| "work_turns sock fds (W_start junk # ws) = (case fds of
     [] \<Rightarrow> work_turns sock fds ws
   | fd # fds' \<Rightarrow> T_connect junk (sock fd) # work_turns sock fds' ws)"
| "work_turns sock fds (W_session a # ws) = T_session a # work_turns sock fds ws"
| "work_turns sock fds (W_poll # ws) = T_poll # work_turns sock fds ws"
| "work_turns sock fds (W_stop # ws) = T_stop # work_turns sock fds ws"

fun run_turns :: "'c mysql_api \<Rightarrow> turn list \<Rightarrow> 'c server \<times> sessions \<Rightarrow> ('c server \<times> sessions) res option" where
  "run_turns api [] st = Some (Inr st)"
| "run_turns api (t # ts) st = obind (turn_of api t st) (run_turns api ts)"

text \<open>No thread is left in a loop: the server is stopped, and no client has a session.\<close>

definition threads_ended :: "'c server \<times> sessions \<Rightarrow> bool" where
  "threads_ended st \<longleftrightarrow> \<not> server_running (fst st) \<and> list_all (\<lambda>a. snd st a = None) (hash_elts (clients_map (fst st)))"

text \<open>The connections among the tasks of the pool.\<close>

definition connections :: "server_task list \<Rightarrow> int list" where
  "connections tasks = concat (map (\<lambda>t. case t of Client_loop fd \<Rightarrow> [fd] | _ \<Rightarrow> []) tasks)"

text \<open>
  The end of \<^verbatim>\<open>run_server\<close>, for the tasks that were submitted: \<^verbatim>\<open>destroy_thread_pool\<close> waits until the threads have ended
  and never returns if one of them does not (\<open>None\<close>); then \<^verbatim>\<open>cleanup\<close> releases the tables.  An error of the memory in a thread or
  in \<^verbatim>\<open>cleanup\<close> is one of the program.
  The turns come here after the accept loop, although they go on next to it: the loop
  has no part in them but the connections it submits, so this loses no order of turns.
\<close>

definition stop_server :: "'c mysql_api \<Rightarrow> 'c db \<Rightarrow> (int \<Rightarrow> socket) \<Rightarrow> work list \<Rightarrow> server_task list \<Rightarrow> 'c server res option" where
  "stop_server api d sock ws tasks =
     obind (run_turns api (work_turns sock (connections tasks) ws) (server_init d, Map.empty)) (\<lambda>st.
       if threads_ended st then Some (cleanup (fst st)) else None)"

text \<open>What has become of the server: the tasks of the pool, the socket that was closed instead, the state at the end.\<close>

record 'c served =
  tasks_submitted :: "server_task list"
  socket_closed :: "int option"
  server_end :: "'c server"

section \<open>The process\<close>

text \<open>
  \<open>fds\<close> are the open descriptors; \<open>files\<close> the contents of the files by their full names; \<open>stdout_text\<close> what the
  process has written to its standard output; \<open>db_conf\<close> the configuration given to the database module, whose
  variable \<^verbatim>\<open>config\<close> \<^verbatim>\<open>solutions_configure_db\<close> sets.
\<close>

record process =
  cwd :: string
  umask :: nat
  own_session :: bool
  fds :: "nat list"
  stdout_text :: string
  files :: "string \<rightharpoonup> string"
  db_conf :: "conf_ptrs option"

text \<open>A new descriptor is the lowest one that is not open.\<close>

definition lowest_fd :: "nat list \<Rightarrow> nat" where
  "lowest_fd fs = hd (filter (\<lambda>n. n \<notin> set fs) [0..<Suc (length fs)])"

definition close_fd :: "nat \<Rightarrow> process \<Rightarrow> process" where
  "close_fd n p = p\<lparr>fds := filter (\<lambda>m. m \<noteq> n) (fds p)\<rparr>"

definition full_name :: "process \<Rightarrow> string \<Rightarrow> string" where
  "full_name p f = cwd p @ ''/'' @ f"

text \<open>\<^verbatim>\<open>fopen(f, "w")\<close>: the descriptor and the file, which is empty now; \<open>ok\<close> says whether it can be opened.\<close>

definition fopen_w :: "bool \<Rightarrow> string \<Rightarrow> process \<Rightarrow> (nat \<times> string) option \<times> process" where
  "fopen_w ok f p =
     (if ok then (Some (lowest_fd (fds p), full_name p f),
        p\<lparr>fds := lowest_fd (fds p) # fds p, files := (files p)(full_name p f \<mapsto> [])\<rparr>)
      else (None, p))"

definition fput :: "string \<Rightarrow> string \<Rightarrow> process \<Rightarrow> process" where
  "fput f s p = p\<lparr>files := (files p)(f \<mapsto> s)\<rparr>"

definition put_stdout :: "string \<Rightarrow> process \<Rightarrow> process" where
  "put_stdout s p = (if 1 \<in> set (fds p) then p\<lparr>stdout_text := stdout_text p @ s\<rparr> else p)"

text \<open>
  What the system answers: the home directory, the files that can be read, the result of \<^verbatim>\<open>fork\<close>, the process
  id, where \<^verbatim>\<open>chdir\<close> leads from a directory (\<open>None\<close> if it fails), which files can be written, the descriptor
  \<^verbatim>\<open>freopen\<close> gives to \<^verbatim>\<open>stderr\<close>, the times, and the results of the socket calls.  \<open>logged\<close> is what the threads have
  made of the logger when the last of them has ended, \<open>conn_socket\<close> the connection behind a descriptor, and \<open>schedule\<close> the
  order in which the threads take their turns.
\<close>

record sys_env =
  homedir :: string
  readable :: "string \<Rightarrow> u8 list option"
  fork_result :: int
  fork_error :: string
  getpid :: nat
  chdir_to :: "string \<Rightarrow> string \<Rightarrow> string option"
  mypid_ok :: bool
  log_ok_w :: bool
  stderr_fd :: "nat option"
  start_time :: string
  end_time :: string
  listener_fd :: int
  bind_result :: int
  accepts :: "nat \<Rightarrow> accept_event"
  logged :: "logger_t \<Rightarrow> logger_t"
  conn_socket :: "int \<Rightarrow> socket"
  schedule :: "work list"

section \<open>Starting\<close>

text \<open>\<^verbatim>\<open>daemon_init\<close>: the process it leaves, and the status if it ends it.\<close>

definition daemon_init :: "sys_env \<Rightarrow> string \<Rightarrow> process \<Rightarrow> process \<times> int option" where
  "daemon_init env dir p =
     (if fork_result env = -1 then
        (put_stdout (''Error: Start Daemon failed ('' @ fork_error env @ '')'' @ newline) p, Some 1)
      else if fork_result env = 0 then
        let p = p\<lparr>umask := 0\<rparr>;
            p = p\<lparr>own_session := True\<rparr>;
            p = (case chdir_to env (cwd p) dir of None \<Rightarrow> p | Some d \<Rightarrow> p\<lparr>cwd := d\<rparr>);
            p = close_fd 2 (close_fd 1 (close_fd 0 p));
            (pidf, p) = fopen_w (mypid_ok env) ''mypid'' p
        in (case pidf of
              Some (fd, f) \<Rightarrow> (close_fd fd (fput f (show_u (getpid env)) p), None)
            | None \<Rightarrow> (p, None))
      else (put_stdout (''Judge Daemon has been started successfully'' @ newline) p, Some 0))"

text \<open>\<^verbatim>\<open>logger_init\<close> as far as it concerns the process: it also sends \<^verbatim>\<open>stderr\<close> to the log file.\<close>

definition open_log :: "sys_env \<Rightarrow> process \<Rightarrow> (nat \<times> string \<times> logger_t) option \<times> process" where
  "open_log env p =
     (let (logfile, p) = fopen_w (log_ok_w env) ''log.txt'' p;
          p = close_fd 2 p;
          p = (case stderr_fd env of None \<Rightarrow> p | Some fd \<Rightarrow> p\<lparr>fds := fd # fds p\<rparr>)
      in (case (logfile, logger_init (log_ok_w env) (start_time env)) of
            (Some (fd, f), Some logger) \<Rightarrow> (Some (fd, f, logger), p)
          | _ \<Rightarrow> (None, p)))"

text \<open>\<^verbatim>\<open>main\<close> up to the call of \<^verbatim>\<open>run_server\<close>, after the configuration was read.\<close>

definition prepare :: "sys_env \<Rightarrow> string list \<Rightarrow> process \<Rightarrow> process \<times> (int + (nat \<times> string \<times> logger_t) option)" where
  "prepare env argv p =
     (case (if length argv = 2 then daemon_init env (argv ! 1) p else (p, None)) of
        (p, Some status) \<Rightarrow> (p, Inl status)
      | (p, None) \<Rightarrow> (let (logger, p) = open_log env p in (p, Inr logger)))"

section \<open>The whole program\<close>

text \<open>The end of \<^verbatim>\<open>main\<close>; \<open>None\<close> is a \<^verbatim>\<open>logger_destroy\<close> that never gets the mutex.\<close>

definition close_log :: "sys_env \<Rightarrow> (nat \<times> string \<times> logger_t) option \<Rightarrow> process \<Rightarrow> process option" where
  "close_log env logger p = (case logger of
     None \<Rightarrow> Some p
   | Some (fd, f, l) \<Rightarrow> map_option (\<lambda>text. close_fd fd (fput f text p)) (logger_destroy (end_time env) (logged env l)))"

definition configure :: "conf_ptrs \<Rightarrow> process \<Rightarrow> process" where
  "configure conf p = p\<lparr>db_conf := Some conf\<rparr>"

text \<open>
  The process at the end, the exit status, and what has become of the server if there was one; an error of the memory; or
  \<open>None\<close> when the program does not end.  \<open>d\<close> is the connection to the database that \<^verbatim>\<open>poll_database\<close> opens.
\<close>

definition main_prog :: "'c mysql_api \<Rightarrow> 'c db \<Rightarrow> sys_env \<Rightarrow> string list \<Rightarrow> process \<Rightarrow> (process \<times> int \<times> 'c served option) res option" where
  "main_prog api d env argv p =
     (case read_db_config (readable env) (homedir env) of
        Inl e \<Rightarrow> Some (Inl e)
      | Inr (Inl status) \<Rightarrow> Some (Inr (put_stdout (''Error! Config file not found: ''
            @ snprintf 100 (homedir env @ ''/.judge-server/db.conf'')
            @ ''. Create it manually and fill with MySQL DB credentials'' @ newline) p, status, None))
      | Inr (Inr conf) \<Rightarrow>
          (case prepare env argv (configure conf p) of
             (p, Inl status) \<Rightarrow> Some (Inr (p, status, None))
           | (p, Inr logger) \<Rightarrow>
               (case run_server (listener_fd env) (bind_result env) (accepts env) of
                  None \<Rightarrow> None
                | Some (Inl status) \<Rightarrow> Some (Inr (p, status, None))
                | Some (Inr (tasks, waker)) \<Rightarrow>
                    obind (stop_server api d (conn_socket env) (schedule env) tasks) (\<lambda>s.
                      case release_config conf of
                        Inl e \<Rightarrow> Some (Inl e)
                      | Inr _ \<Rightarrow> map_option (\<lambda>p. Inr (p, 0, Some \<lparr>tasks_submitted = tasks, socket_closed = waker, server_end = s\<rparr>))
                          (close_log env logger p)))))"

section \<open>Descriptors\<close>

lemma lowest_fd_free: "lowest_fd fs \<notin> set fs" and lowest_fd_least: "n < lowest_fd fs \<Longrightarrow> n \<in> set fs"
proof -
  let ?xs = "[0..<Suc (length fs)]"
  have "\<not> set ?xs \<subseteq> set fs"
    using card_mono [of "set fs" "set ?xs"] card_length [of fs] by (auto simp del: upt_Suc)
  then have ne: "filter (\<lambda>n. n \<notin> set fs) ?xs \<noteq> []" by (auto simp: filter_empty_conv simp del: upt_Suc)
  then show "lowest_fd fs \<notin> set fs" using hd_in_set [OF ne] by (simp add: lowest_fd_def del: upt_Suc)
  obtain us v vs where d: "?xs = us @ v # vs" "\<forall>u \<in> set us. u \<in> set fs" "v = lowest_fd fs"
    using ne by (cases "filter (\<lambda>n. n \<notin> set fs) ?xs") (auto simp: lowest_fd_def filter_eq_Cons_iff simp del: upt_Suc)
  have "sorted_wrt (<) (us @ v # vs)" "set (us @ v # vs) = {0..<Suc (length fs)}"
    unfolding d(1) [symmetric] by (simp_all only: sorted_wrt_upt set_upt)
  then have o: "\<forall>w \<in> set vs. v < w" "set us \<union> {v} \<union> set vs = {0..<Suc (length fs)}" by (auto simp: sorted_wrt_append)
  show "n \<in> set fs" if n: "n < lowest_fd fs"
  proof -
    have "v < Suc (length fs)" using o(2) by (metis UnCI atLeastLessThan_iff singletonI)
    then have "n \<in> set us \<union> {v} \<union> set vs" using n d(3) o(2) by simp
    then show ?thesis using n d(2,3) o(1) by auto
  qed
qed

lemma lowest_fd_zero: "0 \<notin> set fs \<Longrightarrow> lowest_fd fs = 0"
  using lowest_fd_least [of 0 fs] by blast

section \<open>Properties\<close>

lemma configure_sel: "cwd (configure conf p) = cwd p" "stdout_text (configure conf p) = stdout_text p" "db_conf (configure conf p) = Some conf"
  by (simp_all add: configure_def)

lemma prepare_daemon:
  fixes p :: process
  assumes "length argv = 2" and "fork_result env = 0" and "log_ok_w env"
  defines "d \<equiv> (case chdir_to env (cwd p) (argv ! 1) of None \<Rightarrow> cwd p | Some d \<Rightarrow> d)"
  shows "\<exists>p' l. prepare env argv p = (p', Inr (Some (0, d @ ''/log.txt'', l))) \<and> logger_init True (start_time env) = Some l
    \<and> 0 \<in> set (fds p') \<and> cwd p' = d \<and> own_session p' \<and> stdout_text p' = stdout_text p \<and> db_conf p' = db_conf p
    \<and> (mypid_ok env \<longrightarrow> files p' (d @ ''/mypid'') = Some (show_u (getpid env)))"
proof -
  define p1 where "p1 = close_fd 2 (close_fd 1 (close_fd 0 (p\<lparr>umask := 0, own_session := True, cwd := d\<rparr>)))"
  have z: "0 \<notin> set (fds p1)" by (auto simp: p1_def close_fd_def)
  have p1: "cwd p1 = d" "own_session p1" "stdout_text p1 = stdout_text p" "db_conf p1 = db_conf p" by (simp_all add: p1_def close_fd_def)
  have init: "daemon_init env (argv ! 1) p = (case fopen_w (mypid_ok env) ''mypid'' p1 of
       (Some (fd, f), p) \<Rightarrow> (close_fd fd (fput f (show_u (getpid env)) p), None) | (None, p) \<Rightarrow> (p, None))"
    using assms(2) by (auto simp: daemon_init_def p1_def d_def close_fd_def Let_def split: option.splits prod.splits)
  define p2 where "p2 = (if mypid_ok env then fput (d @ ''/mypid'') (show_u (getpid env)) p1 else p1)"
  have d2: "daemon_init env (argv ! 1) p = (p2, None)"
  proof -
    have "filter (\<lambda>m. m \<noteq> 0) (fds p1) = fds p1" using z by (intro filter_True) (metis)
    then show ?thesis
      unfolding init by (simp add: fopen_w_def p2_def lowest_fd_zero [OF z] close_fd_def fput_def full_name_def p1)
  qed
  have p2: "0 \<notin> set (fds p2)" "cwd p2 = d" "own_session p2" "stdout_text p2 = stdout_text p" "db_conf p2 = db_conf p"
    "mypid_ok env \<Longrightarrow> files p2 (d @ ''/mypid'') = Some (show_u (getpid env))"
    using z p1 by (simp_all add: p2_def fput_def)
  obtain l where l: "logger_init True (start_time env) = Some l" by (simp add: logger_init_def)
  show ?thesis
    using assms(1,3) d2 l p2
    by (cases "stderr_fd env") (simp_all add: prepare_def open_log_def fopen_w_def lowest_fd_zero full_name_def close_fd_def Let_def)
qed

definition conf_strings :: "conf_ptrs \<Rightarrow> u8 list option list" where
  "conf_strings conf = map (cstring_at (conf_buf conf)) [conf_host conf, conf_user conf, conf_password conf, conf_db_name conf]"

text \<open>The turns of a schedule under the conditions of the server lead to states it can reach.\<close>

fun admissible_run :: "'c mysql_api \<Rightarrow> turn list \<Rightarrow> 'c server \<times> sessions \<Rightarrow> bool" where
  "admissible_run api [] st = True"
| "admissible_run api (t # ts) st \<longleftrightarrow> admissible api t (fst st)
     \<and> (case turn_of api t st of Some (Inr st') \<Rightarrow> admissible_run api ts st' | _ \<Rightarrow> True)"

lemma run_turns_reachable:
  "sys_reachable api d st \<Longrightarrow> admissible_run api ts st \<Longrightarrow> run_turns api ts st = Some (Inr st') \<Longrightarrow> sys_reachable api d st'"
proof (induction ts arbitrary: st)
  case (Cons t ts)
  obtain st1 where st1: "turn_of api t st = Some (Inr st1)" "run_turns api ts st1 = Some (Inr st')"
    using Cons.prems(3) by (auto simp: obind_def split: option.splits sum.splits)
  have "sys_reachable api d st1" using sys_reachable.step [OF Cons.prems(1) sys_step.turn [OF _ st1(1)]] Cons.prems(2) by simp
  then show ?case using Cons.IH st1 Cons.prems(2) by simp
qed simp

lemma connections_all: "connections (Poll_database # Local_control_loop # map Client_loop conns) = conns"
  by (induction conns) (simp_all add: connections_def)

lemma stop_server_run:
  "stop_server api d sock ws (Poll_database # Local_control_loop # map Client_loop conns)
    = obind (run_turns api (work_turns sock conns ws) (server_init d, Map.empty))
        (\<lambda>st. if threads_ended st then Some (cleanup (fst st)) else None)"
  by (simp add: stop_server_def connections_all)

lemma cleanup_after_run:
  assumes "run_turns api ts (server_init d, Map.empty) = Some (Inr st)" and "admissible_run api ts (server_init d, Map.empty)"
  shows "\<exists>s. cleanup (fst st) = Inr s \<and> clients_map s = None \<and> compilers_map s = None"
  using cleanup_from [OF sys_reachable_ok [OF run_turns_reachable [OF sys_reachable.init assms(2,1)]]] .

text \<open>
  C25: the daemon runs and ends.  Started with a directory, after a \<^verbatim>\<open>fork\<close> that makes it the child, with a
  configuration file of four or more lines of which the first is not empty, and with sockets that can be opened, the
  program gives these lines to the database module, works in that directory (in the old one if it cannot be entered), in a session of its own, writes its number
  to \<^verbatim>\<open>mypid\<close> there and nothing to the standard output, and is not stopped early: the log file has
  descriptor 0, which \<^verbatim>\<open>accept\<close> therefore never returns.  It hands to the pool the polling loop, the control loop and a session for
  every connection that was accepted, in order, and nothing else, and closes the one that wakes it.  Then it waits for the threads:
  it ends only if the schedule of their turns leads to an end of all of them, and an error of the memory in one of them is its own.
  If all turns of the schedule are under the conditions of C1, and the threads have ended after the stop command, the pool is
  destroyed, \<^verbatim>\<open>cleanup\<close> runs to its end on the tables
  as the threads left them and leaves none, the program returns 0, and the log has its start line, whole lines, and its end line.
\<close>

theorem daemon_runs:
  assumes "filter (\<lambda>l. l \<noteq> []) ls = host # user # password # db_name # more_lines" and "list_all plain ls" and "hd ls \<noteq> []"
    and "readable env (snprintf 100 (homedir env @ ''/.judge-server/db.conf'')) = Some (file_of ls @ rest)"
    and "length argv = 2" and "fork_result env = 0" and "log_ok_w env"
    and "0 \<le> listener_fd env" and "0 \<le> bind_result env"
    and "\<forall>i \<le> length conns. accepts env i
      = \<lparr>running_before = True, accepted_fd = (conns @ [waker]) ! i, running_after = i < length conns\<rparr>"
    and "\<forall>fd \<in> set (conns @ [waker]). fd = -1 \<or> (\<forall>conf. fd \<notin> int ` set (fds (fst (prepare env argv (configure conf p)))))"
    and "\<forall>l. logging (start_time env) l \<longrightarrow> logging (start_time env) (logged env l) \<and> lg_mutex (logged env l) = None"
  shows "case run_turns api (work_turns (conn_socket env) conns (schedule env)) (server_init d, Map.empty) of
      None \<Rightarrow> main_prog api d env argv p = None
    | Some (Inl e) \<Rightarrow> main_prog api d env argv p = Some (Inl e)
    | Some (Inr st) \<Rightarrow> (\<not> threads_ended st \<longrightarrow> main_prog api d env argv p = None) \<and>
   (threads_ended st \<and> admissible_run api (work_turns (conn_socket env) conns (schedule env)) (server_init d, Map.empty) \<longrightarrow>
    (\<exists>p' ln s'. main_prog api d env argv p = Some (Inr (p', 0, Some
        \<lparr>tasks_submitted = [Poll_database, Local_control_loop] @ map Client_loop conns, socket_closed = Some waker, server_end = s'\<rparr>))
    \<and> cleanup (fst st) = Inr s' \<and> clients_map s' = None \<and> compilers_map s' = None
    \<and> cwd p' = (case chdir_to env (cwd p) (argv ! 1) of None \<Rightarrow> cwd p | Some d \<Rightarrow> d)
    \<and> own_session p' \<and> stdout_text p' = stdout_text p
    \<and> map_option conf_strings (db_conf p') = Some [Some host, Some user, Some password, Some db_name]
    \<and> (mypid_ok env \<longrightarrow> files p' (cwd p' @ ''/mypid'') = Some (show_u (getpid env)))
    \<and> files p' (cwd p' @ ''/log.txt'') = Some (log_start (start_time env) @ concat (map log_line ln) @ log_end (end_time env))))"
proof -
  obtain conf where conf: "read_db_config (readable env) (homedir env) = Inr (Inr conf)" "release_config conf = Inr ()"
      "conf_strings conf = [Some host, Some user, Some password, Some db_name]"
    using config_read [of ls host user password db_name more_lines "readable env" "homedir env" rest] assms(1-4)
    by (auto simp: conf_strings_def)
  obtain p1 l where p1: "prepare env argv (configure conf p) = (p1, Inr (Some (0, cwd p1 @ ''/log.txt'', l)))"
      "logger_init True (start_time env) = Some l" "0 \<in> set (fds p1)" "own_session p1" "stdout_text p1 = stdout_text p" "db_conf p1 = Some conf"
      "cwd p1 = (case chdir_to env (cwd p) (argv ! 1) of None \<Rightarrow> cwd p | Some d \<Rightarrow> d)"
      "mypid_ok env \<longrightarrow> files p1 (cwd p1 @ ''/mypid'') = Some (show_u (getpid env))"
    using prepare_daemon [OF assms(5-7), of "configure conf p"] unfolding configure_sel by metis
  have "0 \<notin> set (conns @ [waker])"
  proof
    assume z: "0 \<in> set (conns @ [waker])"
    have "0 \<in> int ` set (fds p1)" using imageI [OF p1(3), of int] by simp
    then show False using bspec [OF assms(11) z] p1(1) by (auto dest: spec [of _ conf])
  qed
  note run = run_server_all [OF assms(8-10) this]
  have "logging (start_time env) (logged env l)" "lg_mutex (logged env l) = None"
    using assms(12) logging.opened [OF p1(2)] by blast+
  then obtain ln where ln: "logger_destroy (end_time env) (logged env l)
      = Some (log_start (start_time env) @ concat (map log_line ln) @ log_end (end_time env))"
    using logging_ok by (fastforce simp: log_ok_def log_partial_def logger_destroy_def)
  let ?run = "run_turns api (work_turns (conn_socket env) conns (schedule env)) (server_init d, Map.empty)"
  define p' where "p' = close_fd 0 (fput (cwd p1 @ ''/log.txt'')
      (log_start (start_time env) @ concat (map log_line ln) @ log_end (end_time env)) p1)"
  have main: "main_prog api d env argv p
      = obind (obind ?run (\<lambda>st. if threads_ended st then Some (cleanup (fst st)) else None)) (\<lambda>s. Some (Inr (p', 0, Some
        \<lparr>tasks_submitted = [Poll_database, Local_control_loop] @ map Client_loop conns, socket_closed = Some waker, server_end = s\<rparr>)))"
    using conf(1,2) p1(1) run ln by (simp add: main_prog_def close_log_def stop_server_run p'_def)
  have p': "cwd p' = cwd p1" "own_session p'" "stdout_text p' = stdout_text p" "db_conf p' = Some conf"
      "mypid_ok env \<longrightarrow> files p' (cwd p1 @ ''/mypid'') = Some (show_u (getpid env))"
      "files p' (cwd p1 @ ''/log.txt'') = Some (log_start (start_time env) @ concat (map log_line ln) @ log_end (end_time env))"
    using p1(4-8) by (simp_all add: p'_def close_fd_def fput_def)
  show ?thesis
  proof (cases ?run)
    case None
    then show ?thesis using main by (simp add: obind_def)
  next
    case (Some r)
    show ?thesis
    proof (cases r)
      case (Inl e)
      then show ?thesis using main Some by (simp add: obind_def)
    next
      case (Inr st)
      show ?thesis unfolding Some Inr option.case sum.case
      proof (intro conjI impI, goal_cases)
        case 1
        then show ?case using main Some Inr by (simp add: obind_def)
      next
        case 2
        then obtain s' where s': "cleanup (fst st) = Inr s'" "clients_map s' = None" "compilers_map s' = None"
          using cleanup_after_run [of api _ d st] Some Inr by blast
        show ?case by (intro exI [of _ p'] exI [of _ ln] exI [of _ s']) (use main Some Inr 2 s' p' p1(7) conf(3) in \<open>simp add: obind_def\<close>)
      qed
    qed
  qed
qed

definition demo_process :: process where
  "demo_process = \<lparr>cwd = ''/root'', umask = 18, own_session = False, fds = [0, 1, 2], stdout_text = [], files = Map.empty, db_conf = None\<rparr>"

definition demo_env :: sys_env where
  "demo_env = \<lparr>homedir = ''/home/judge'', readable = (\<lambda>f. if f = ''/home/judge/.judge-server/db.conf'' then Some demo_file else None),
     fork_result = 0, fork_error = [], getpid = 4711, chdir_to = (\<lambda>_ d. if d = ''/srv'' then Some ''/srv'' else None),
     mypid_ok = True, log_ok_w = True, stderr_fd = Some 2, start_time = ''now'', end_time = ''later'', listener_fd = 3, bind_result = 0,
     accepts = (\<lambda>i. \<lparr>running_before = True, accepted_fd = [4, 5] ! i, running_after = i < 1\<rparr>), logged = (\<lambda>_. demo_log),
     conn_socket = (\<lambda>_. demo_ep), schedule = [W_start (\<lambda>_. (0, 0)), W_stop, W_session 1]\<rparr>"

text \<open>The client on descriptor 4 registers, the server is stopped, the session sees that and ends.\<close>

lemma demo_schedule:
  "\<exists>st. run_turns demo_api (work_turns (conn_socket demo_env) [4] (schedule demo_env)) (server_init d, Map.empty) = Some (Inr st)
    \<and> admissible_run demo_api (work_turns (conn_socket demo_env) [4] (schedule demo_env)) (server_init d, Map.empty) \<and> threads_ended st"
proof -
  obtain s where s: "admissible demo_api (T_connect (\<lambda>_. (0, 0)) demo_ep) (server_init d)"
      "turn_of demo_api (T_connect (\<lambda>_. (0, 0)) demo_ep) (server_init d, Map.empty) = Some (Inr (s, [1 \<mapsto> 1]))"
    using demo_connect [of d] by blast
  have w: "work_turns (conn_socket demo_env) [4] (schedule demo_env) = [T_connect (\<lambda>_. (0, 0)) demo_ep, T_stop, T_session 1]"
    by (simp add: demo_env_def)
  show ?thesis unfolding w using s
    by (intro exI [of _ "(s\<lparr>server_running := False\<rparr>, Map.empty)"])
      (simp add: obind_def threads_ended_def list_all_iff del: turn_of.simps(1) admissible.simps(1))
qed

theorem daemon_runs_witness:
  "\<exists>p s. main_prog demo_api \<lparr>conn = (), sent = []\<rparr> demo_env [''judge'', ''/srv''] demo_process = Some (Inr (p, 0, Some s))
    \<and> cwd p = ''/srv'' \<and> files p ''/srv/mypid'' = Some (show_u 4711)
    \<and> tasks_submitted s = [Poll_database, Local_control_loop, Client_loop 4] \<and> clients_map (server_end s) = None"
proof -
  let ?ls = "map bytes_of [''localhost'', ''judge'', ''12345'', ''judgeweb'']"
  have log: "logging ''now'' demo_log" "lg_mutex demo_log = None"
    by (rule logging.opened) (simp_all add: demo_log_def logger_init_def)
  obtain st where st: "run_turns demo_api (work_turns (conn_socket demo_env) [4] (schedule demo_env)) (server_init \<lparr>conn = (), sent = []\<rparr>, Map.empty) = Some (Inr st)"
    "admissible_run demo_api (work_turns (conn_socket demo_env) [4] (schedule demo_env)) (server_init \<lparr>conn = (), sent = []\<rparr>, Map.empty)" "threads_ended st"
    using demo_schedule by blast
  have "set (fds (fst (prepare demo_env [''judge'', ''/srv''] (configure conf demo_process)))) = {2, 0}" for conf
    by (simp add: configure_def prepare_def open_log_def daemon_init_def fopen_w_def close_fd_def fput_def lowest_fd_def demo_env_def
        demo_process_def logger_init_def Let_def)
  then have "\<forall>fd \<in> set ([4] @ [5]). fd = -1 \<or> (\<forall>conf. fd \<notin> int ` set (fds (fst (prepare demo_env [''judge'', ''/srv''] (configure conf demo_process)))))"
    by simp
  moreover have "list_all plain ?ls" by (simp add: plain_def bytes_of_def)
  moreover have "\<forall>i \<le> length [4]. accepts demo_env i = \<lparr>running_before = True, accepted_fd = ([4] @ [5]) ! i, running_after = i < length [4]\<rparr>"
    by (simp add: demo_env_def)
  ultimately show ?thesis
    using daemon_runs [of ?ls "bytes_of ''localhost''" "bytes_of ''judge''" "bytes_of ''12345''" "bytes_of ''judgeweb''" "[]"
        demo_env "[]" "[''judge'', ''/srv'']" "[4]" 5 demo_process demo_api "\<lparr>conn = (), sent = []\<rparr>"] log st
    by (auto simp: demo_env_def snprintf_def demo_file_def demo_process_def bytes_of_def)
qed

text \<open>
  When there is no server.  Without a configuration file the program ends with status 1 before it forks; if the
  fork fails, with 1; as the parent of the daemon, with 0; if the listening socket cannot be created or bound, with 1 or
  2.  In the first three cases a line on the standard output is all that can be seen of it.
\<close>

theorem main_exits:
  shows "readable env (snprintf 100 (homedir env @ ''/.judge-server/db.conf'')) = None \<Longrightarrow>
      \<exists>p'. main_prog api d env argv p = Some (Inr (p', 1, None)) \<and> p' = p\<lparr>stdout_text := stdout_text p'\<rparr>"
    and "read_db_config (readable env) (homedir env) = Inr (Inr conf) \<Longrightarrow> length argv = 2 \<Longrightarrow> fork_result env \<noteq> 0 \<Longrightarrow>
      \<exists>p'. main_prog api d env argv p = Some (Inr (p', if fork_result env = -1 then 1 else 0, None))
        \<and> p' = (configure conf p)\<lparr>stdout_text := stdout_text p'\<rparr>"
    and "read_db_config (readable env) (homedir env) = Inr (Inr conf) \<Longrightarrow> prepare env argv (configure conf p) = (p', Inr logger) \<Longrightarrow>
      listener_fd env < 0 \<or> bind_result env < 0 \<Longrightarrow> main_prog api d env argv p = Some (Inr (p', if listener_fd env < 0 then 1 else 2, None))"
  by (auto simp: main_prog_def read_db_config_def put_stdout_def prepare_def daemon_init_def run_server_def)

end
