(* ===== verification/Dlists.thy ===== *)
theory Dlists
  imports Prelude
begin

text \<open>
  Doubly linked segments in a memory that keeps one function per pointer field.
  \<open>dseg nx pv r p as q\<close>: from \<open>p\<close>, following the field \<open>nx\<close>, one visits exactly the cells \<open>as\<close> and
  arrives at \<open>q\<close>; the field \<open>pv\<close> of each cell is its predecessor, and that of the first is \<open>r\<close>.  The
  lemmas say what the writes of an insertion or a removal make of a segment.
\<close>

fun dseg :: "(addr \<Rightarrow> addr) \<Rightarrow> (addr \<Rightarrow> addr) \<Rightarrow> addr \<Rightarrow> addr \<Rightarrow> addr list \<Rightarrow> addr \<Rightarrow> bool" where
  "dseg nx pv r p [] q \<longleftrightarrow> p = q"
| "dseg nx pv r p (a # as) q \<longleftrightarrow> p = a \<and> a \<noteq> NULL \<and> pv a = r \<and> dseg nx pv a (nx a) as q"

lemma dseg_append:
  "dseg nx pv r p (as @ bs) q \<longleftrightarrow> (\<exists>m. dseg nx pv r p as m \<and> dseg nx pv (last (r # as)) m bs q)"
  by (induction as arbitrary: r p) auto

lemma dseg_cong:
  "(\<And>a. a \<in> set as \<Longrightarrow> nx a = nx' a \<and> pv a = pv' a) \<Longrightarrow> dseg nx pv r p as q = dseg nx' pv' r p as q"
  by (induction as arbitrary: r p) auto

lemma dseg_upd [simp]:
  "a \<notin> set as \<Longrightarrow> dseg (nx(a := v)) pv r p as q = dseg nx pv r p as q"
  "a \<notin> set as \<Longrightarrow> dseg nx (pv(a := v)) r p as q = dseg nx pv r p as q"
  by (induction as arbitrary: r p) auto

lemma dseg_NULL [simp]: "dseg nx pv r NULL as q \<longleftrightarrow> as = [] \<and> q = NULL"
  by (cases as) auto

lemma dseg_nonnull: "dseg nx pv r p as q \<Longrightarrow> NULL \<notin> set as"
  by (induction as arbitrary: r p) auto

lemma dseg_start: "dseg nx pv r p as q \<Longrightarrow> p = hd (as @ [q])"
  by (cases as) auto

lemma dseg_start_NULL: "dseg nx pv r p as NULL \<Longrightarrow> p = NULL \<longleftrightarrow> as = []"
  by (cases as) auto

lemma dseg_unique: "dseg nx pv r p as NULL \<Longrightarrow> dseg nx pv r' p bs NULL \<Longrightarrow> as = bs"
proof (induction as arbitrary: r r' p bs)
  case (Cons a as)
  then show ?case by (cases bs) auto
qed simp

lemma dseg_distinct: "dseg nx pv r p as NULL \<Longrightarrow> distinct as"
proof (induction as arbitrary: r p)
  case (Cons a as)
  have "a \<notin> set as"
  proof
    assume "a \<in> set as"
    then obtain us vs where as: "as = us @ a # vs" by (auto simp: in_set_conv_decomp)
    with Cons.prems have "dseg nx pv a (nx a) vs NULL" by (auto simp: dseg_append)
    with Cons.prems have "as = vs" by (auto intro: dseg_unique)
    with as show False by simp
  qed
  with Cons show ?case by auto
qed simp

text \<open>The last cell leads to where the segment ends; a cell in the middle knows both neighbours.\<close>

lemma dseg_last: "dseg nx pv r p (as @ [b]) q \<longleftrightarrow> dseg nx pv r p as b \<and> b \<noteq> NULL \<and> pv b = last (r # as) \<and> nx b = q"
  by (auto simp: dseg_append)

lemma dseg_middle:
  "dseg nx pv r p (us @ d # vs) q \<longleftrightarrow>
     dseg nx pv r p us d \<and> d \<noteq> NULL \<and> pv d = last (r # us) \<and> dseg nx pv d (nx d) vs q"
  by (auto simp: dseg_append)

text \<open>A segment does not depend on the predecessor of its first cell, which can be redirected.\<close>

lemma dseg_relink_first:
  "dseg nx pv r p (a # as) q \<Longrightarrow> a \<notin> set as \<Longrightarrow> dseg nx (pv(a := r')) r' p (a # as) q"
  by simp

lemma dseg_relink_last:
  "dseg nx pv r p (as @ [b]) q \<Longrightarrow> b \<notin> set as \<Longrightarrow> dseg (nx(b := q')) pv r p (as @ [b]) q'"
  by (simp add: dseg_last)

section \<open>Insertion and removal\<close>

lemma dseg_push_front:
  assumes "dseg nx pv r p as NULL" and "a \<notin> set as" and "a \<noteq> NULL"
  shows "dseg (nx(a := p)) (if p = NULL then pv(a := NULL) else (pv(a := NULL))(p := a)) NULL a (a # as) NULL"
  using assms dseg_distinct [OF assms(1)] by (cases as) auto

lemma dseg_push_back:
  assumes "dseg nx pv r p (as @ [b]) NULL" and "a \<notin> set (as @ [b])" and "a \<noteq> NULL"
  shows "dseg ((nx(a := NULL))(b := a)) (pv(a := b)) r p (as @ [b, a]) NULL"
proof -
  have "b \<notin> set as" using dseg_distinct [OF assms(1)] by simp
  then show ?thesis using assms dseg_append [of _ _ r p "as @ [b]" "[a]"] by (auto simp: dseg_last)
qed

lemma dseg_unlink:
  assumes "dseg nx pv NULL p (us @ d # vs) NULL"
  shows "dseg (if pv d = NULL then nx else nx(pv d := nx d)) (if nx d = NULL then pv else pv(nx d := pv d))
      NULL (if pv d = NULL then nx d else p) (us @ vs) NULL"
proof -
  note d = assms [unfolded dseg_middle]
  have dist: "distinct (us @ d # vs)" using dseg_distinct [OF assms] .
  have tail: "dseg nx (if nx d = NULL then pv else pv(nx d := pv d)) (pv d) (nx d) vs NULL"
    using d dist by (cases vs) auto
  show ?thesis
  proof (cases us rule: rev_cases)
    case Nil
    then show ?thesis using d tail by simp
  next
    case (snoc us' u)
    have u: "pv d = u" "u \<noteq> NULL" "u \<notin> set vs" "u \<notin> set us'" "nx u = d" "dseg nx pv NULL p us' u" "pv u = last (NULL # us')"
      using snoc d dist by (auto simp: dseg_last)
    have nd: "nx d = NULL \<or> nx d \<in> set vs" using d by (cases vs) auto
    then have nd': "nx d \<noteq> NULL \<Longrightarrow> nx d \<notin> set us' \<and> nx d \<noteq> u" using dist snoc by auto
    show ?thesis
      using snoc u tail nd' by (simp add: dseg_append del: fun_upd_apply) (auto simp: dseg_last)
  qed
qed

text \<open>Where the ends of a list are after a removal.\<close>

lemma dseg_unlink_ends:
  assumes "dseg nx pv NULL p (us @ d # vs) NULL"
  shows "pv d = last (NULL # us)" "nx d = hd (vs @ [NULL])" "pv d = NULL \<longleftrightarrow> us = []" "nx d = NULL \<longleftrightarrow> vs = []"
proof -
  note d = assms [unfolded dseg_middle]
  show "pv d = last (NULL # us)" "nx d = hd (vs @ [NULL])" using d dseg_start [of nx pv d "nx d" vs NULL] by auto
  have "NULL \<notin> set (us @ d # vs)" using dseg_nonnull [OF assms] .
  then show "pv d = NULL \<longleftrightarrow> us = []" using d by (cases us rule: rev_cases) auto
  show "nx d = NULL \<longleftrightarrow> vs = []" using d dseg_start_NULL by blast
qed

section \<open>Singly linked segments and neighbours\<close>

text \<open>\<open>sseg nx p as q\<close>: the same without predecessors.\<close>

fun sseg :: "(addr \<Rightarrow> addr) \<Rightarrow> addr \<Rightarrow> addr list \<Rightarrow> addr \<Rightarrow> bool" where
  "sseg nx p [] q \<longleftrightarrow> p = q"
| "sseg nx p (a # as) q \<longleftrightarrow> p = a \<and> a \<noteq> NULL \<and> sseg nx (nx a) as q"

lemma sseg_append: "sseg nx p (as @ bs) q \<longleftrightarrow> (\<exists>m. sseg nx p as m \<and> sseg nx m bs q)"
  by (induction as arbitrary: p) auto

lemma sseg_middle: "sseg nx p (us @ d # vs) q \<longleftrightarrow> sseg nx p us d \<and> d \<noteq> NULL \<and> sseg nx (nx d) vs q"
  by (auto simp: sseg_append)

lemma sseg_upd [simp]: "a \<notin> set as \<Longrightarrow> sseg (nx(a := v)) p as q = sseg nx p as q"
  by (induction as arbitrary: p) auto

lemma sseg_cong: "(\<And>a. a \<in> set as \<Longrightarrow> nx a = nx' a) \<Longrightarrow> sseg nx p as q = sseg nx' p as q"
  by (induction as arbitrary: p) auto

lemma sseg_NULL [simp]: "sseg nx NULL as q \<longleftrightarrow> as = [] \<and> q = NULL"
  by (cases as) auto

lemma sseg_nonnull: "sseg nx p as q \<Longrightarrow> NULL \<notin> set as"
  by (induction as arbitrary: p) auto

lemma sseg_unique: "sseg nx p as NULL \<Longrightarrow> sseg nx p bs NULL \<Longrightarrow> as = bs"
proof (induction as arbitrary: p bs)
  case (Cons a as)
  then show ?case by (cases bs) auto
qed simp

lemma sseg_distinct: "sseg nx p as NULL \<Longrightarrow> distinct as"
proof (induction as arbitrary: p)
  case (Cons a as)
  have "a \<notin> set as"
  proof
    assume "a \<in> set as"
    then obtain us vs where as: "as = us @ a # vs" by (auto simp: in_set_conv_decomp)
    with Cons.prems have "sseg nx (nx a) vs NULL" by (auto simp: sseg_append)
    with Cons.prems have "as = vs" by (auto intro: sseg_unique)
    with as show False by simp
  qed
  with Cons show ?case by auto
qed simp

text \<open>\<open>linked nx pv as\<close>: every two neighbours of \<open>as\<close> point at each other.\<close>

fun linked :: "(addr \<Rightarrow> addr) \<Rightarrow> (addr \<Rightarrow> addr) \<Rightarrow> addr list \<Rightarrow> bool" where
  "linked nx pv (a # b # as) \<longleftrightarrow> nx a = b \<and> pv b = a \<and> linked nx pv (b # as)"
| "linked nx pv _ \<longleftrightarrow> True"

lemma linked_Cons: "linked nx pv (a # as) \<longleftrightarrow> (as \<noteq> [] \<longrightarrow> nx a = hd as \<and> pv (hd as) = a) \<and> linked nx pv as"
  by (cases as) auto

lemma linked_append:
  "linked nx pv (as @ bs) \<longleftrightarrow> linked nx pv as \<and> linked nx pv bs
     \<and> (as \<noteq> [] \<and> bs \<noteq> [] \<longrightarrow> nx (last as) = hd bs \<and> pv (hd bs) = last as)"
  by (induction as) (auto simp: linked_Cons)

lemma linked_upd:
  "a \<notin> set (butlast as) \<Longrightarrow> linked (nx(a := v)) pv as = linked nx pv as"
  "a \<notin> set (tl as) \<Longrightarrow> linked nx (pv(a := v)) as = linked nx pv as"
  by (induction as rule: induct_list012) auto

lemma linked_upd_other [simp]:
  "a \<notin> set as \<Longrightarrow> linked (nx(a := v)) pv as = linked nx pv as"
  "a \<notin> set as \<Longrightarrow> linked nx (pv(a := v)) as = linked nx pv as"
  using linked_upd in_set_butlastD list.set_sel(2) by (metis, metis linked_upd(2) list.sel(2) list.set_sel(2))

lemma linked_upd_ends [simp]:
  "distinct as \<Longrightarrow> linked (nx(last as := v)) pv as = linked nx pv as"
  "distinct as \<Longrightarrow> linked nx (pv(hd as := v)) as = linked nx pv as"
proof -
  assume d: "distinct as"
  have "last as \<notin> set (butlast as)" using d by (cases as rule: rev_cases) auto
  then show "linked (nx(last as := v)) pv as = linked nx pv as" by (rule linked_upd)
  have "hd as \<notin> set (tl as)" using d by (cases as) auto
  then show "linked nx (pv(hd as := v)) as = linked nx pv as" by (rule linked_upd)
qed

lemma ends_not_in:
  "as \<noteq> [] \<Longrightarrow> a \<notin> set as \<Longrightarrow> hd as \<noteq> a \<and> last as \<noteq> a"
  "as \<noteq> [] \<Longrightarrow> NULL \<notin> set as \<Longrightarrow> 0 < hd as \<and> 0 < last as"
  using hd_in_set last_in_set by (metis, metis gr0I)

end
