(* ===== verification/Uthash_Mem.thy ===== *)
theory Uthash_Mem
  imports Uthash Dlists
begin

text \<open>
  The macros of \<^verbatim>\<open>uthash.h\<close> as they work on pointers, and the proof that they implement the tables of
  theory \<open>Uthash\<close>.  An element is identified with the handle inside it (\<^verbatim>\<open>ELMT_FROM_HH\<close> adds or subtracts
  the constant offset between them).  The memory keeps one function per field of \<^verbatim>\<open>UT_hash_handle\<close>;
  \<open>el_key\<close> are the bytes that \<^verbatim>\<open>key\<close> and \<^verbatim>\<open>keylen\<close> delimit.  A table lives in a memory of its own,
  together with its array of buckets, which is allocated and released with it.
\<close>

section \<open>The memory\<close>

record pbucket =
  hh_head :: addr
  pb_count :: u32
  pb_mult :: u32

record ptable =
  pt_buckets :: "pbucket list"
  pt_num_buckets :: u32
  pt_log2 :: u32
  pt_num_items :: u32
  pt_tail :: addr
  pt_ideal :: u32
  pt_nonideal :: u32
  pt_ineff :: u32
  pt_noexpand :: u32

record uheap =
  el_live :: "addr \<Rightarrow> bool"
  el_next :: "addr \<Rightarrow> addr"
  el_prev :: "addr \<Rightarrow> addr"
  el_hh_next :: "addr \<Rightarrow> addr"
  el_hh_prev :: "addr \<Rightarrow> addr"
  el_key :: "addr \<Rightarrow> u8 list"
  el_hashv :: "addr \<Rightarrow> u32"
  el_tbl :: "addr \<Rightarrow> addr"
  tbls :: "addr \<rightharpoonup> ptable"
  tbl_brk :: addr

text \<open>An access through a pointer to an element: \<open>x\<close> is what it gives if the element is there.\<close>

definition elt :: "uheap \<Rightarrow> addr \<Rightarrow> 'a \<Rightarrow> 'a res" where
  "elt h a x = (if a = NULL then Inl Null_deref else if el_live h a then Inr x else Inl Use_after_free)"

text \<open>\<^verbatim>\<open>(head)->hh.tbl\<close> with the table it leads to; writing the table back; a bucket of the array.\<close>

definition tbl_of :: "uheap \<Rightarrow> addr \<Rightarrow> (addr \<times> ptable) res" where
  "tbl_of h head = rbind (elt h head (el_tbl h head)) (\<lambda>tp. rbind (deref (tbls h) tp) (\<lambda>t. Inr (tp, t)))"

definition set_tbl :: "uheap \<Rightarrow> addr \<Rightarrow> ptable \<Rightarrow> uheap" where
  "set_tbl h tp t = h\<lparr>tbls := (tbls h)(tp \<mapsto> t)\<rparr>"

definition bucket_at :: "ptable \<Rightarrow> nat \<Rightarrow> pbucket res" where
  "bucket_at t i = (if i < length (pt_buckets t) then Inr (pt_buckets t ! i) else Inl Out_of_bounds)"

definition empty_pbucket :: pbucket where
  "empty_pbucket = \<lparr>hh_head = NULL, pb_count = 0, pb_mult = 0\<rparr>"

definition HASH_MAKE_TABLE_mem :: "uheap \<Rightarrow> addr \<Rightarrow> uheap res" where
  "HASH_MAKE_TABLE_mem h head = elt h head (h\<lparr>el_tbl := (el_tbl h)(head := tbl_brk h),
     tbls := (tbls h)(tbl_brk h \<mapsto> \<lparr>pt_buckets = replicate 32 empty_pbucket, pt_num_buckets = 32,
       pt_log2 = 5, pt_num_items = 0, pt_tail = head, pt_ideal = 0, pt_nonideal = 0, pt_ineff = 0,
       pt_noexpand = 0\<rparr>),
     tbl_brk := Suc (tbl_brk h)\<rparr>)"

section \<open>Expansion\<close>

text \<open>The body of the inner loop: the element that comes next in the old chain, and the new state.\<close>

type_synonym expand_state = "uheap \<times> pbucket list \<times> u32"

definition expand_move :: "u32 \<Rightarrow> u32 \<Rightarrow> addr \<Rightarrow> expand_state \<Rightarrow> (addr \<times> expand_state) res" where
  "expand_move num_bkts ideal thh st =
     (let (h, new_buckets, nonideal) = st in
      rbind (elt h thh (el_hh_next h thh, HASH_TO_BKT (el_hashv h thh) num_bkts)) (\<lambda>(hh_nxt, bkt).
        if \<not> bkt < length new_buckets then Inl Out_of_bounds
        else let newbkt = new_buckets ! bkt;
                 newbkt = newbkt\<lparr>pb_count := pb_count newbkt + 1\<rparr>;
                 (newbkt, nonideal) = (if pb_count newbkt > ideal
                    then (newbkt\<lparr>pb_mult := pb_count newbkt div ideal\<rparr>, nonideal + 1)
                    else (newbkt, nonideal));
                 h = h\<lparr>el_hh_prev := (el_hh_prev h)(thh := NULL),
                       el_hh_next := (el_hh_next h)(thh := hh_head newbkt)\<rparr>
             in rbind (if hh_head newbkt = NULL then Inr h
                       else elt h (hh_head newbkt)
                              (h\<lparr>el_hh_prev := (el_hh_prev h)(hh_head newbkt := thh)\<rparr>)) (\<lambda>h.
                Inr (hh_nxt, h, new_buckets[bkt := newbkt\<lparr>hh_head := thh\<rparr>], nonideal))))"

partial_function (option) expand_chain :: "u32 \<Rightarrow> u32 \<Rightarrow> addr \<Rightarrow> expand_state \<Rightarrow> expand_state res option" where
  "expand_chain num_bkts ideal thh st =
     (if thh = NULL then Some (Inr st)
      else case expand_move num_bkts ideal thh st of
        Inl e \<Rightarrow> Some (Inl e)
      | Inr (nxt, st') \<Rightarrow> expand_chain num_bkts ideal nxt st')"

fun expand_all :: "u32 \<Rightarrow> u32 \<Rightarrow> pbucket list \<Rightarrow> expand_state \<Rightarrow> expand_state res option" where
  "expand_all num_bkts ideal [] st = Some (Inr st)"
| "expand_all num_bkts ideal (b # bs) st =
     obind (expand_chain num_bkts ideal (hh_head b) st) (expand_all num_bkts ideal bs)"

definition HASH_EXPAND_BUCKETS_mem :: "uheap \<Rightarrow> addr \<Rightarrow> uheap res option" where
  "HASH_EXPAND_BUCKETS_mem h tp = obind (Some (deref (tbls h) tp)) (\<lambda>t.
     let ideal = drop_bit (unat (pt_log2 t + 1)) (pt_num_items t)
           + (if pt_num_items t AND (pt_num_buckets t * 2 - 1) \<noteq> 0 then 1 else 0)
     in obind (expand_all (pt_num_buckets t * 2) ideal (pt_buckets t)
            (h, replicate (unat (2 * pt_num_buckets t)) empty_pbucket, 0)) (\<lambda>(h, new_buckets, nonideal).
        let ineff = (if nonideal > drop_bit 1 (pt_num_items t) then pt_ineff t + 1 else 0)
        in Some (Inr (set_tbl h tp (t\<lparr>pt_buckets := new_buckets, pt_num_buckets := pt_num_buckets t * 2,
             pt_log2 := pt_log2 t + 1, pt_ideal := ideal, pt_nonideal := nonideal, pt_ineff := ineff,
             pt_noexpand := (if ineff > 1 then 1 else pt_noexpand t)\<rparr>)))))"

section \<open>Insertion, lookup, deletion\<close>

definition HASH_ADD_TO_BKT_mem :: "uheap \<Rightarrow> addr \<Rightarrow> nat \<Rightarrow> addr \<Rightarrow> uheap res option" where
  "HASH_ADD_TO_BKT_mem h tp bkt addhh =
     obind (Some (deref (tbls h) tp)) (\<lambda>t.
     obind (Some (bucket_at t bkt)) (\<lambda>b.
       let b = b\<lparr>pb_count := pb_count b + 1\<rparr> in
     obind (Some (elt h addhh (h\<lparr>el_hh_next := (el_hh_next h)(addhh := hh_head b),
                                 el_hh_prev := (el_hh_prev h)(addhh := NULL)\<rparr>))) (\<lambda>h.
     obind (Some (if hh_head b = NULL then Inr h
              else elt h (hh_head b) (h\<lparr>el_hh_prev := (el_hh_prev h)(hh_head b := addhh)\<rparr>))) (\<lambda>h.
       let b = b\<lparr>hh_head := addhh\<rparr>;
           h = set_tbl h tp (t\<lparr>pt_buckets := (pt_buckets t)[bkt := b]\<rparr>)
       in if pb_count b \<ge> (pb_mult b + 1) * 10 \<and> pt_noexpand t \<noteq> 1
          then HASH_EXPAND_BUCKETS_mem h (el_tbl h addhh) else Some (Inr h)))))"

text \<open>The new head and the memory.\<close>

definition HASH_ADD_KEYPTR :: "uheap \<Rightarrow> addr \<Rightarrow> u8 list \<Rightarrow> addr \<Rightarrow> (uheap \<times> addr) res option" where
  "HASH_ADD_KEYPTR h head keyptr add =
     obind (Some (elt h add (h\<lparr>el_next := (el_next h)(add := NULL), el_key := (el_key h)(add := keyptr)\<rparr>))) (\<lambda>h.
     obind (Some (if head = NULL
         then rbind (HASH_MAKE_TABLE_mem (h\<lparr>el_prev := (el_prev h)(add := NULL)\<rparr>) add) (\<lambda>h. Inr (h, add))
         else rbind (tbl_of h head) (\<lambda>(tp, t).
              rbind (elt h (pt_tail t) (h\<lparr>el_next := (el_next h)(pt_tail t := add)\<rparr>)) (\<lambda>h.
              let h = h\<lparr>el_prev := (el_prev h)(add := pt_tail t)\<rparr>
              in Inr (set_tbl h tp (t\<lparr>pt_tail := add\<rparr>), head))))) (\<lambda>(h, head).
     obind (Some (tbl_of h head)) (\<lambda>(tp, t).
       let t = t\<lparr>pt_num_items := pt_num_items t + 1\<rparr>;
           hashv = HASH_JEN keyptr;
           h = (set_tbl h tp t)\<lparr>el_tbl := (el_tbl h)(add := tp), el_hashv := (el_hashv h)(add := hashv)\<rparr>
       in obind (HASH_ADD_TO_BKT_mem h tp (HASH_TO_BKT hashv (pt_num_buckets t)) add) (\<lambda>h.
            Some (Inr (h, head))))))"

partial_function (option) find_loop :: "uheap \<Rightarrow> u8 list \<Rightarrow> addr \<Rightarrow> addr res option" where
  "find_loop h keyptr out =
     (if out = NULL then Some (Inr NULL)
      else case elt h out (el_key h out) of
        Inl e \<Rightarrow> Some (Inl e)
      | Inr k \<Rightarrow> if length k = length keyptr \<and> k = keyptr then Some (Inr out)
                else find_loop h keyptr (el_hh_next h out))"

definition HASH_FIND_mem :: "uheap \<Rightarrow> addr \<Rightarrow> u8 list \<Rightarrow> addr res option" where
  "HASH_FIND_mem h head keyptr =
     (if head = NULL then Some (Inr NULL)
      else obind (Some (tbl_of h head)) (\<lambda>(tp, t).
           obind (Some (bucket_at t (HASH_TO_BKT (HASH_JEN keyptr) (pt_num_buckets t)))) (\<lambda>b.
             find_loop h keyptr (hh_head b))))"

definition HASH_DEL_IN_BKT_mem :: "uheap \<Rightarrow> addr \<Rightarrow> nat \<Rightarrow> addr \<Rightarrow> uheap res" where
  "HASH_DEL_IN_BKT_mem h tp bkt hh_del =
     rbind (deref (tbls h) tp) (\<lambda>t.
     rbind (bucket_at t bkt) (\<lambda>b.
       let b = b\<lparr>pb_count := pb_count b - 1\<rparr> in
     rbind (elt h hh_del (if hh_head b = hh_del then b\<lparr>hh_head := el_hh_next h hh_del\<rparr> else b)) (\<lambda>b.
       let h = set_tbl h tp (t\<lparr>pt_buckets := (pt_buckets t)[bkt := b]\<rparr>) in
     rbind (if el_hh_prev h hh_del = NULL then Inr h
            else elt h (el_hh_prev h hh_del)
                   (h\<lparr>el_hh_next := (el_hh_next h)(el_hh_prev h hh_del := el_hh_next h hh_del)\<rparr>)) (\<lambda>h.
     if el_hh_next h hh_del = NULL then Inr h
     else elt h (el_hh_next h hh_del)
            (h\<lparr>el_hh_prev := (el_hh_prev h)(el_hh_next h hh_del := el_hh_prev h hh_del)\<rparr>)))))"

text \<open>Taking an element out of the list of all items: the two neighbours, and the head if it was the first.\<close>

definition unlink_app :: "uheap \<Rightarrow> addr \<Rightarrow> addr \<Rightarrow> (uheap \<times> addr) res" where
  "unlink_app h head delptr =
     rbind (if el_prev h delptr = NULL then Inr (h, el_next h delptr)
            else elt h (el_prev h delptr)
              (h\<lparr>el_next := (el_next h)(el_prev h delptr := el_next h delptr)\<rparr>, head)) (\<lambda>(h, head).
     rbind (if el_next h delptr = NULL then Inr h
            else elt h (el_next h delptr)
              (h\<lparr>el_prev := (el_prev h)(el_next h delptr := el_prev h delptr)\<rparr>)) (\<lambda>h.
     Inr (h, head)))"

definition HASH_DELETE_mem :: "uheap \<Rightarrow> addr \<Rightarrow> addr \<Rightarrow> (uheap \<times> addr) res" where
  "HASH_DELETE_mem h head delptr =
     rbind (elt h delptr (el_prev h delptr = NULL \<and> el_next h delptr = NULL)) (\<lambda>only.
     rbind (tbl_of h head) (\<lambda>(tp, t).
       if only then Inr (h\<lparr>tbls := (tbls h)(tp := None)\<rparr>, NULL)
       else
         rbind (unlink_app (if delptr = pt_tail t then set_tbl h tp (t\<lparr>pt_tail := el_prev h delptr\<rparr>) else h)
                  head delptr) (\<lambda>(h, head).
         rbind (tbl_of h head) (\<lambda>(tp, t).
         rbind (HASH_DEL_IN_BKT_mem h tp (HASH_TO_BKT (el_hashv h delptr) (pt_num_buckets t)) delptr) (\<lambda>h.
         rbind (tbl_of h head) (\<lambda>(tp, t).
         Inr (set_tbl h tp (t\<lparr>pt_num_items := pt_num_items t - 1\<rparr>), head)))))))"

section \<open>Representation\<close>

text \<open>
  \<open>chain_rep\<close>: a bucket of the memory and a bucket of the list level; \<open>stored\<close>: the handle of an item; \<open>tbl_rep\<close>:
  a table.  The elements of the two lists are the items' addresses in the right order.
\<close>

abbreviation elts :: "UT_hash_handle list \<Rightarrow> addr list" where "elts hs \<equiv> map hh_elt hs"

definition chain_elts :: "UT_hash_bucket list \<Rightarrow> addr set" where
  "chain_elts bs = (\<Union>b \<in> set bs. set (elts (bk_chain b)))"

definition chain_rep :: "(addr \<Rightarrow> addr) \<Rightarrow> (addr \<Rightarrow> addr) \<Rightarrow> pbucket \<Rightarrow> UT_hash_bucket \<Rightarrow> bool" where
  "chain_rep nx pv pb b \<longleftrightarrow> pb_count pb = bk_count b \<and> pb_mult pb = expand_mult b
     \<and> dseg nx pv NULL (hh_head pb) (elts (bk_chain b)) NULL"

definition chains_disj :: "UT_hash_bucket list \<Rightarrow> bool" where
  "chains_disj bs \<longleftrightarrow> (\<forall>i < length bs. \<forall>j < length bs. i \<noteq> j \<longrightarrow>
     set (elts (bk_chain (bs ! i))) \<inter> set (elts (bk_chain (bs ! j))) = {})"

definition stored :: "uheap \<Rightarrow> addr \<Rightarrow> UT_hash_handle \<Rightarrow> bool" where
  "stored h tp hh \<longleftrightarrow> el_live h (hh_elt hh) \<and> el_key h (hh_elt hh) = hh_key hh
     \<and> el_hashv h (hh_elt hh) = hh_hashv hh \<and> el_tbl h (hh_elt hh) = tp"

definition counters_rep :: "ptable \<Rightarrow> UT_hash_table \<Rightarrow> bool" where
  "counters_rep pt t \<longleftrightarrow> pt_num_buckets pt = num_buckets t \<and> pt_log2 pt = log2_num_buckets t
     \<and> pt_num_items pt = num_items t \<and> pt_ideal pt = ideal_chain_maxlen t \<and> pt_nonideal pt = nonideal_items t
     \<and> pt_ineff pt = ineff_expands t \<and> pt_noexpand pt = noexpand t"

definition tbl_rep :: "uheap \<Rightarrow> addr \<Rightarrow> addr \<Rightarrow> UT_hash_table \<Rightarrow> bool" where
  "tbl_rep h tp head t \<longleftrightarrow> tp \<noteq> NULL \<and> app t \<noteq> []
     \<and> dseg (el_next h) (el_prev h) NULL head (elts (app t)) NULL \<and> (\<forall>hh \<in> set (app t). stored h tp hh)
     \<and> (case tbls h tp of None \<Rightarrow> False | Some pt \<Rightarrow>
          list_all2 (chain_rep (el_hh_next h) (el_hh_prev h)) (pt_buckets pt) (buckets t)
          \<and> counters_rep pt t \<and> pt_tail pt = last (elts (app t)))"

text \<open>
  The part of it that does not depend on how the items are linked: \<open>app t\<close> are the items, and \<open>tle\<close> is
  whatever address the table has as its tail.
\<close>

definition tbl_at :: "uheap \<Rightarrow> addr \<Rightarrow> UT_hash_table \<Rightarrow> addr \<Rightarrow> bool" where
  "tbl_at h tp t tle \<longleftrightarrow> tp \<noteq> NULL \<and> app t \<noteq> []
     \<and> distinct (elts (app t)) \<and> NULL \<notin> set (elts (app t)) \<and> (\<forall>hh \<in> set (app t). stored h tp hh)
     \<and> (case tbls h tp of None \<Rightarrow> False | Some pt \<Rightarrow>
          list_all2 (chain_rep (el_hh_next h) (el_hh_prev h)) (pt_buckets pt) (buckets t)
          \<and> counters_rep pt t \<and> pt_tail pt = tle)"

definition hash_rep :: "uheap \<Rightarrow> addr \<Rightarrow> addr \<Rightarrow> hash_head \<Rightarrow> bool" where
  "hash_rep h tp head ho = (case ho of None \<Rightarrow> head = NULL | Some t \<Rightarrow> tbl_rep h tp head t)"

definition heap_ok :: "uheap \<Rightarrow> bool" where
  "heap_ok h \<longleftrightarrow> 0 < tbl_brk h \<and> (\<forall>p. tbl_brk h \<le> p \<longrightarrow> tbls h p = None)"

section \<open>Chains\<close>

lemma chain_elts_nth: "i < length bs \<Longrightarrow> set (elts (bk_chain (bs ! i))) \<subseteq> chain_elts bs"
  unfolding chain_elts_def by (meson UN_upper nth_mem)

lemma chain_elts_nthE:
  assumes "x \<in> chain_elts bs"
  obtains j where "j < length bs" "x \<in> set (elts (bk_chain (bs ! j)))"
  using assms unfolding chain_elts_def by (metis UN_E in_set_conv_nth)

lemma chain_rep_cong:
  assumes "\<And>a. a \<in> set (elts (bk_chain b)) \<Longrightarrow> nx a = nx' a \<and> pv a = pv' a"
  shows "chain_rep nx pv pb b = chain_rep nx' pv' pb b"
  using dseg_cong [of "elts (bk_chain b)" nx nx' pv pv'] assms by (simp add: chain_rep_def)

lemma chains_rep_cong:
  assumes "\<And>a. a \<in> chain_elts bs \<Longrightarrow> nx a = nx' a \<and> pv a = pv' a" and "list_all2 (chain_rep nx pv) ps bs"
  shows "list_all2 (chain_rep nx' pv') ps bs"
  using assms(2)
proof (rule list.rel_mono_strong)
  fix p b assume "b \<in> set bs" and r: "chain_rep nx pv p b"
  then show "chain_rep nx' pv' p b"
    using chain_rep_cong [of b nx nx' pv pv' p] assms(1) by (auto simp: chain_elts_def)
qed

text \<open>
  Changing one chain: the other buckets are still represented if the fields of their elements are
  what they were.
\<close>

lemma chains_rep_update:
  assumes "list_all2 (chain_rep nx pv) ps bs" and "chains_disj bs" and "chain_rep nx' pv' p b"
    and "\<And>a. a \<in> chain_elts bs \<Longrightarrow> a \<notin> set (elts (bk_chain (bs ! i))) \<Longrightarrow> nx a = nx' a \<and> pv a = pv' a"
    and "i < length bs"
  shows "list_all2 (chain_rep nx' pv') (ps[i := p]) (bs[i := b])"
proof (rule list_all2_all_nthI)
  have len: "length ps = length bs" using assms(1) by (rule list_all2_lengthD)
  then show "length (ps[i := p]) = length (bs[i := b])" by simp
  fix j assume "j < length (ps[i := p])"
  then have j: "j < length bs" using len by simp
  show "chain_rep nx' pv' (ps[i := p] ! j) (bs[i := b] ! j)"
  proof (cases "j = i")
    case True
    then show ?thesis using assms(3,5) len by simp
  next
    case False
    have "a \<notin> set (elts (bk_chain (bs ! i)))" if "a \<in> set (elts (bk_chain (bs ! j)))" for a
      using assms(2,5) j False that unfolding chains_disj_def by blast
    then have "chain_rep nx pv (ps ! j) (bs ! j) = chain_rep nx' pv' (ps ! j) (bs ! j)"
      using chain_elts_nth [OF j] assms(4) by (intro chain_rep_cong) blast
    then show ?thesis using False list_all2_nthD2 [OF assms(1) j] by simp
  qed
qed

lemma chains_disj_update:
  assumes "chains_disj bs" and "set (elts (bk_chain b)) \<inter> (chain_elts bs - set (elts (bk_chain (bs ! i)))) = {}"
  shows "chains_disj (bs[i := b])"
  unfolding chains_disj_def
proof (intro allI impI)
  fix j k assume jk: "j < length (bs[i := b])" "k < length (bs[i := b])" "j \<noteq> k"
  then have jk': "j < length bs" "k < length bs" by simp_all
  have d: "set (elts (bk_chain (bs ! j))) \<inter> set (elts (bk_chain (bs ! k))) = {}" if "j \<noteq> k" "j < length bs" "k < length bs" for j k
    using assms(1) that unfolding chains_disj_def by blast
  have e: "set (elts (bk_chain b)) \<inter> set (elts (bk_chain (bs ! j))) = {}" if "j \<noteq> i" "i < length bs" "j < length bs" for j
    using d [OF that(1,3,2)] assms(2) chain_elts_nth [OF that(3)] by blast
  show "set (elts (bk_chain (bs[i := b] ! j))) \<inter> set (elts (bk_chain (bs[i := b] ! k))) = {}"
    using jk jk' d [OF jk(3) jk'] e [of j] e [of k] by (cases "j = i"; cases "k = i") (auto simp: Int_commute)
qed

lemma chain_elts_update:
  "chains_disj bs \<Longrightarrow> i < length bs \<Longrightarrow>
     chain_elts (bs[i := b]) = (chain_elts bs - set (elts (bk_chain (bs ! i)))) \<union> set (elts (bk_chain b))"
proof -
  assume d: "chains_disj bs" and i: "i < length bs"
  show ?thesis
  proof (intro subset_antisym subsetI)
    fix x assume "x \<in> chain_elts (bs[i := b])"
    then obtain j where j: "j < length bs" "x \<in> set (elts (bk_chain (bs[i := b] ! j)))"
      by (metis chain_elts_nthE length_list_update)
    then show "x \<in> (chain_elts bs - set (elts (bk_chain (bs ! i)))) \<union> set (elts (bk_chain b))"
      using d i chain_elts_nth [OF j(1)] unfolding chains_disj_def by (cases "j = i") (simp, fastforce)
  next
    fix x assume "x \<in> (chain_elts bs - set (elts (bk_chain (bs ! i)))) \<union> set (elts (bk_chain b))"
    then consider "x \<in> set (elts (bk_chain b))" | j where "j < length bs" "j \<noteq> i" "x \<in> set (elts (bk_chain (bs ! j)))"
      by (metis DiffE UnE chain_elts_nthE)
    then show "x \<in> chain_elts (bs[i := b])"
    proof cases
      case 1
      then show ?thesis using i chain_elts_nth [of i "bs[i := b]"] by auto
    next
      case (2 j)
      then show ?thesis using chain_elts_nth [of j "bs[i := b]"] by auto
    qed
  qed
qed

text \<open>Putting an element in front of a chain.\<close>

lemma chains_push:
  assumes R: "list_all2 (chain_rep nx pv) ps bs" and D: "chains_disj bs" and i: "i < length bs"
    and a: "hh_elt hh \<notin> chain_elts bs" "hh_elt hh \<noteq> NULL"
    and b: "bk_chain b = hh # bk_chain (bs ! i)" "pb_count p = bk_count b" "pb_mult p = expand_mult b" "hh_head p = hh_elt hh"
    and nx: "nx' = nx(hh_elt hh := hh_head (ps ! i))"
    and pv: "pv' = (if hh_head (ps ! i) = NULL then pv(hh_elt hh := NULL)
                    else (pv(hh_elt hh := NULL))(hh_head (ps ! i) := hh_elt hh))"
  shows "list_all2 (chain_rep nx' pv') (ps[i := p]) (bs[i := b])" "chains_disj (bs[i := b])"
    "chain_elts (bs[i := b]) = insert (hh_elt hh) (chain_elts bs)"
proof -
  let ?a = "hh_elt hh" and ?q = "hh_head (ps ! i)"
  have sub: "set (elts (bk_chain (bs ! i))) \<subseteq> chain_elts bs" using i by (rule chain_elts_nth)
  have seg: "dseg nx pv NULL ?q (elts (bk_chain (bs ! i))) NULL"
    using list_all2_nthD2 [OF R i] by (simp add: chain_rep_def)
  have "dseg nx' pv' NULL ?a (elts (bk_chain b)) NULL"
    using dseg_push_front [OF seg _ a(2)] a(1) sub unfolding nx pv b(1) list.map by blast
  then have rep: "chain_rep nx' pv' p b" using b by (simp add: chain_rep_def)
  have q: "?q = NULL \<or> ?q \<in> set (elts (bk_chain (bs ! i)))"
    using seg by (cases "bk_chain (bs ! i)") auto
  show "list_all2 (chain_rep nx' pv') (ps[i := p]) (bs[i := b])"
  proof (rule chains_rep_update [OF R D rep _ i])
    fix x assume "x \<in> chain_elts bs" "x \<notin> set (elts (bk_chain (bs ! i)))"
    then show "nx x = nx' x \<and> pv x = pv' x" using a(1) q unfolding nx pv by auto
  qed
  show "chains_disj (bs[i := b])" using a(1) b(1) by (intro chains_disj_update [OF D]) auto
  show "chain_elts (bs[i := b]) = insert ?a (chain_elts bs)"
    using chain_elts_update [OF D i, of b] sub b(1) by auto
qed

section \<open>Expansion\<close>

text \<open>\<open>relinked S h h'\<close>: only chain pointers of elements of \<open>S\<close> have changed.\<close>

definition relinked :: "addr set \<Rightarrow> uheap \<Rightarrow> uheap \<Rightarrow> bool" where
  "relinked S h h' \<longleftrightarrow> (\<exists>nx pv. h' = h\<lparr>el_hh_next := nx, el_hh_prev := pv\<rparr>
     \<and> (\<forall>x. x \<notin> S \<longrightarrow> nx x = el_hh_next h x \<and> pv x = el_hh_prev h x))"

lemma relinked_fields:
  assumes "relinked S h h'"
  shows "el_live h' = el_live h" "el_next h' = el_next h" "el_prev h' = el_prev h" "el_key h' = el_key h"
    "el_hashv h' = el_hashv h" "el_tbl h' = el_tbl h" "tbls h' = tbls h" "tbl_brk h' = tbl_brk h"
    "x \<notin> S \<Longrightarrow> el_hh_next h' x = el_hh_next h x" "x \<notin> S \<Longrightarrow> el_hh_prev h' x = el_hh_prev h x"
  using assms unfolding relinked_def by auto

lemma relinkedI:
  "(\<And>x. x \<notin> S \<Longrightarrow> nx x = el_hh_next h x \<and> pv x = el_hh_prev h x) \<Longrightarrow> relinked S h (h\<lparr>el_hh_next := nx, el_hh_prev := pv\<rparr>)"
  unfolding relinked_def by blast

lemma relinked_refl: "relinked S h h"
  unfolding relinked_def by (intro exI [of _ "el_hh_next h"] exI [of _ "el_hh_prev h"]) simp

lemma relinked_trans:
  assumes "relinked S h h'" and "relinked T h' h''" and "S \<union> T \<subseteq> U"
  shows "relinked U h h''"
proof -
  obtain nx pv where 1: "h' = h\<lparr>el_hh_next := nx, el_hh_prev := pv\<rparr>" "\<And>x. x \<notin> S \<Longrightarrow> nx x = el_hh_next h x \<and> pv x = el_hh_prev h x"
    using assms(1) unfolding relinked_def by blast
  obtain nx' pv' where 2: "h'' = h'\<lparr>el_hh_next := nx', el_hh_prev := pv'\<rparr>" "\<And>x. x \<notin> T \<Longrightarrow> nx' x = el_hh_next h' x \<and> pv' x = el_hh_prev h' x"
    using assms(2) unfolding relinked_def by blast
  have "h'' = h\<lparr>el_hh_next := nx', el_hh_prev := pv'\<rparr>" using 1(1) 2(1) by simp
  moreover have "nx' x = el_hh_next h x \<and> pv' x = el_hh_prev h x" if "x \<notin> U" for x
  proof -
    have "x \<notin> S" "x \<notin> T" using that assms(3) by blast+
    then show ?thesis using 1 2(2) [of x] by simp
  qed
  ultimately show ?thesis unfolding relinked_def by blast
qed

text \<open>\<open>all_reps\<close>: an array of buckets with disjoint chains of live elements.\<close>

definition all_reps :: "uheap \<Rightarrow> pbucket list \<Rightarrow> UT_hash_bucket list \<Rightarrow> bool" where
  "all_reps h ps bs \<longleftrightarrow> list_all2 (chain_rep (el_hh_next h) (el_hh_prev h)) ps bs \<and> chains_disj bs
     \<and> (\<forall>x \<in> chain_elts bs. el_live h x)"

lemma expand_move_ok:
  assumes R: "all_reps h ps bs" and a: "hh_elt hh \<notin> chain_elts bs" "hh_elt hh \<noteq> NULL" "el_live h (hh_elt hh)"
      "el_hashv h (hh_elt hh) = hh_hashv hh"
    and n: "n \<noteq> 0" "length bs = unat n" and ins: "expand_insert n ideal hh (bs, k) = (bs', k')"
  shows "\<exists>h' ps'. expand_move n ideal (hh_elt hh) (h, ps, k) = Inr (el_hh_next h (hh_elt hh), h', ps', k')
    \<and> all_reps h' ps' bs' \<and> chain_elts bs' = insert (hh_elt hh) (chain_elts bs) \<and> length bs' = length bs
    \<and> relinked (insert (hh_elt hh) (chain_elts bs)) h h'"
proof -
  define i where "i = HASH_TO_BKT (hh_hashv hh) n"
  define b where "b = bs' ! i"
  define q where "q = hh_head (ps ! i)"
  have i: "i < length bs" using HASH_TO_BKT_bound [OF n(1)] n(2) by (simp add: i_def)
  have L: "list_all2 (chain_rep (el_hh_next h) (el_hh_prev h)) ps bs" and D: "chains_disj bs"
    and live: "\<And>x. x \<in> chain_elts bs \<Longrightarrow> el_live h x"
    using R by (auto simp: all_reps_def)
  have len: "length ps = length bs" using L by (rule list_all2_lengthD)
  have rep: "chain_rep (el_hh_next h) (el_hh_prev h) (ps ! i) (bs ! i)" using list_all2_nthD2 [OF L i] .
  then have cnt: "pb_count (ps ! i) = bk_count (bs ! i)" "pb_mult (ps ! i) = expand_mult (bs ! i)"
    by (simp_all add: chain_rep_def)
  have q: "q = NULL \<or> q \<in> chain_elts bs"
    using rep chain_elts_nth [OF i] by (cases "bk_chain (bs ! i)") (auto simp: chain_rep_def q_def)
  have b: "bs' = bs[i := b]" "bk_chain b = hh # bk_chain (bs ! i)" "bk_count b = bk_count (bs ! i) + 1"
    "expand_mult b = (if bk_count (bs ! i) + 1 > ideal then (bk_count (bs ! i) + 1) div ideal else expand_mult (bs ! i))"
    "k' = (if bk_count (bs ! i) + 1 > ideal then k + 1 else k)"
    using ins i by (auto simp: b_def expand_insert_def Let_def i_def [symmetric] split: if_splits)
  define p where "p = (let p = (ps ! i)\<lparr>pb_count := bk_count b\<rparr>
     in if bk_count b > ideal then p\<lparr>pb_mult := bk_count b div ideal, hh_head := hh_elt hh\<rparr> else p\<lparr>hh_head := hh_elt hh\<rparr>)"
  have p: "pb_count p = bk_count b" "pb_mult p = expand_mult b" "hh_head p = hh_elt hh"
    using b(3,4) cnt by (simp_all add: p_def Let_def)
  let ?h = "h\<lparr>el_hh_next := (el_hh_next h)(hh_elt hh := q),
     el_hh_prev := (if q = NULL then (el_hh_prev h)(hh_elt hh := NULL) else ((el_hh_prev h)(hh_elt hh := NULL))(q := hh_elt hh))\<rparr>"
  note push = chains_push [OF L D i a(1,2) b(2), of p "el_hh_next ?h" "el_hh_prev ?h", OF p]
  have "expand_move n ideal (hh_elt hh) (h, ps, k) = Inr (el_hh_next h (hh_elt hh), ?h, ps[i := p], k')"
    using a i len q live b(3-5) cnt by (auto simp: expand_move_def elt_def i_def [symmetric] Let_def p_def q_def)
  moreover have "all_reps ?h (ps[i := p]) bs'" "chain_elts bs' = insert (hh_elt hh) (chain_elts bs)"
    using push live a(3) by (auto simp: all_reps_def q_def b(1))
  moreover have "relinked (insert (hh_elt hh) (chain_elts bs)) h ?h"
    using q by (intro relinkedI) auto
  ultimately show ?thesis using b(1) by (metis length_list_update)
qed

lemma chain_elts_concat: "chain_elts bs = set (elts (concat (map bk_chain bs)))"
  by (auto simp: chain_elts_def)

lemma expand_chain_ok:
  assumes "all_reps h ps bs" and "dseg (el_hh_next h) (el_hh_prev h) r thh (elts hs) NULL"
    and "set (elts hs) \<inter> chain_elts bs = {}"
    and "\<forall>hh \<in> set hs. el_live h (hh_elt hh) \<and> el_hashv h (hh_elt hh) = hh_hashv hh"
    and "n \<noteq> 0" and "length bs = unat n" and "fold (expand_insert n ideal) hs (bs, k) = (bs', k')"
  shows "\<exists>h' ps'. expand_chain n ideal thh (h, ps, k) = Some (Inr (h', ps', k')) \<and> all_reps h' ps' bs'
    \<and> chain_elts bs' = set (elts hs) \<union> chain_elts bs \<and> length bs' = length bs
    \<and> relinked (set (elts hs) \<union> chain_elts bs) h h'"
  using assms
proof (induction hs arbitrary: h ps bs k r thh)
  case Nil
  then show ?case by (simp add: expand_chain.simps relinked_refl)
next
  case (Cons hh hs)
  let ?a = "hh_elt hh"
  obtain bs1 k1 where ins: "expand_insert n ideal hh (bs, k) = (bs1, k1)" by (meson surj_pair)
  have a: "thh = ?a" "?a \<noteq> NULL" "dseg (el_hh_next h) (el_hh_prev h) ?a (el_hh_next h ?a) (elts hs) NULL"
    using Cons.prems(2) by auto
  have dist: "?a \<notin> set (elts hs)" using dseg_distinct [OF Cons.prems(2)] by simp
  obtain h1 ps1 where 1: "expand_move n ideal ?a (h, ps, k) = Inr (el_hh_next h ?a, h1, ps1, k1)"
    "all_reps h1 ps1 bs1" "chain_elts bs1 = insert ?a (chain_elts bs)" "length bs1 = length bs"
    "relinked (insert ?a (chain_elts bs)) h h1"
    using expand_move_ok [OF Cons.prems(1) _ a(2) _ _ Cons.prems(5,6) ins] Cons.prems(3,4) by auto
  note f = relinked_fields [OF 1(5)]
  have "dseg (el_hh_next h1) (el_hh_prev h1) ?a (el_hh_next h ?a) (elts hs) NULL"
  proof -
    have "el_hh_next h1 x = el_hh_next h x \<and> el_hh_prev h1 x = el_hh_prev h x" if "x \<in> set (elts hs)" for x
    proof -
      have "x \<noteq> ?a" using that dist by metis
      moreover have "x \<notin> chain_elts bs" using that Cons.prems(3) by auto
      ultimately have "x \<notin> insert ?a (chain_elts bs)" by simp
      then show ?thesis using f(9,10) by blast
    qed
    then show ?thesis using a(3) dseg_cong by blast
  qed
  moreover have "set (elts hs) \<inter> chain_elts bs1 = {}" using 1(3) dist Cons.prems(3) by auto
  moreover have "\<forall>hh \<in> set hs. el_live h1 (hh_elt hh) \<and> el_hashv h1 (hh_elt hh) = hh_hashv hh"
    using Cons.prems(4) f by simp
  moreover have "fold (expand_insert n ideal) hs (bs1, k1) = (bs', k')" using Cons.prems(7) ins by simp
  ultimately obtain h' ps' where 2: "expand_chain n ideal (el_hh_next h ?a) (h1, ps1, k1) = Some (Inr (h', ps', k'))"
    "all_reps h' ps' bs'" "chain_elts bs' = set (elts hs) \<union> chain_elts bs1" "length bs' = length bs1"
    "relinked (set (elts hs) \<union> chain_elts bs1) h1 h'"
    using Cons.IH [OF 1(2)] Cons.prems(5,6) 1(4) by metis
  have "expand_chain n ideal thh (h, ps, k) = Some (Inr (h', ps', k'))"
    using a 1(1) 2(1) by (simp add: expand_chain.simps [of n ideal "hh_elt hh"])
  moreover have "relinked (set (elts (hh # hs)) \<union> chain_elts bs) h h'"
    using 1(3) by (intro relinked_trans [OF 1(5) 2(5)]) auto
  ultimately show ?case using 1(3,4) 2(2-4) by auto
qed

lemma expand_all_ok:
  assumes "all_reps h ps bs" and "list_all2 (chain_rep (el_hh_next h) (el_hh_prev h)) ops obs"
    and "distinct (elts (concat (map bk_chain obs)))" and "chain_elts obs \<inter> chain_elts bs = {}"
    and "\<forall>hh \<in> set (concat (map bk_chain obs)). el_live h (hh_elt hh) \<and> el_hashv h (hh_elt hh) = hh_hashv hh"
    and "n \<noteq> 0" and "length bs = unat n"
    and "fold (expand_insert n ideal) (concat (map bk_chain obs)) (bs, k) = (bs', k')"
  shows "\<exists>h' ps'. expand_all n ideal ops (h, ps, k) = Some (Inr (h', ps', k')) \<and> all_reps h' ps' bs'
    \<and> chain_elts bs' = chain_elts obs \<union> chain_elts bs \<and> relinked (chain_elts obs \<union> chain_elts bs) h h'"
  using assms
proof (induction obs arbitrary: ops h ps bs k)
  case Nil
  then show ?case by (simp add: relinked_refl chain_elts_def)
next
  case (Cons b obs)
  from Cons.prems(2) obtain p ops' where ops: "ops = p # ops'" "chain_rep (el_hh_next h) (el_hh_prev h) p b"
    "list_all2 (chain_rep (el_hh_next h) (el_hh_prev h)) ops' obs"
    by (auto simp: list_all2_Cons2)
  obtain bs1 k1 where f1: "fold (expand_insert n ideal) (bk_chain b) (bs, k) = (bs1, k1)" by (meson surj_pair)
  have eb: "chain_elts (b # obs) = set (elts (bk_chain b)) \<union> chain_elts obs" by (simp add: chain_elts_def)
  have dis: "set (elts (bk_chain b)) \<inter> chain_elts obs = {}" "set (elts (bk_chain b)) \<inter> chain_elts bs = {}"
    using Cons.prems(3,4) eb by (simp_all add: chain_elts_concat Int_Un_distrib2)
  have seg: "dseg (el_hh_next h) (el_hh_prev h) NULL (hh_head p) (elts (bk_chain b)) NULL"
    using ops(2) by (simp add: chain_rep_def)
  have "\<forall>hh \<in> set (bk_chain b). el_live h (hh_elt hh) \<and> el_hashv h (hh_elt hh) = hh_hashv hh"
    using Cons.prems(5) by simp
  from expand_chain_ok [OF Cons.prems(1) seg dis(2) this Cons.prems(6,7) f1]
  obtain h1 ps1 where 1: "expand_chain n ideal (hh_head p) (h, ps, k) = Some (Inr (h1, ps1, k1))"
    "all_reps h1 ps1 bs1" "chain_elts bs1 = set (elts (bk_chain b)) \<union> chain_elts bs" "length bs1 = length bs"
    "relinked (set (elts (bk_chain b)) \<union> chain_elts bs) h h1"
    by blast
  note f = relinked_fields [OF 1(5)]
  have "list_all2 (chain_rep (el_hh_next h1) (el_hh_prev h1)) ops' obs"
  proof (rule chains_rep_cong [OF _ ops(3)])
    fix a assume "a \<in> chain_elts obs"
    then have "a \<notin> set (elts (bk_chain b)) \<union> chain_elts bs" using dis Cons.prems(4) eb by auto
    then show "el_hh_next h a = el_hh_next h1 a \<and> el_hh_prev h a = el_hh_prev h1 a" using f(9,10) by simp
  qed
  moreover have "chain_elts obs \<inter> chain_elts bs1 = {}" using 1(3) dis(1) Cons.prems(4) eb by auto
  moreover have "\<forall>hh \<in> set (concat (map bk_chain obs)). el_live h1 (hh_elt hh) \<and> el_hashv h1 (hh_elt hh) = hh_hashv hh"
    using Cons.prems(5) f by simp
  moreover have "fold (expand_insert n ideal) (concat (map bk_chain obs)) (bs1, k1) = (bs', k')"
    using Cons.prems(8) f1 by simp
  moreover have "distinct (elts (concat (map bk_chain obs)))" using Cons.prems(3) by simp
  ultimately obtain h' ps' where 2: "expand_all n ideal ops' (h1, ps1, k1) = Some (Inr (h', ps', k'))"
    "all_reps h' ps' bs'" "chain_elts bs' = chain_elts obs \<union> chain_elts bs1"
    "relinked (chain_elts obs \<union> chain_elts bs1) h1 h'"
    using Cons.IH [OF 1(2)] Cons.prems(6,7) 1(4) by metis
  have "relinked (chain_elts (b # obs) \<union> chain_elts bs) h h'"
    using 1(3) eb by (intro relinked_trans [OF 1(5) 2(4)]) auto
  then show ?case using 1(1,3) 2(1-3) ops(1) eb by auto
qed

section \<open>What an operation leaves alone\<close>

definition keeps :: "addr set \<Rightarrow> addr \<Rightarrow> uheap \<Rightarrow> uheap \<Rightarrow> bool" where
  "keeps S tp h h' \<longleftrightarrow> el_live h' = el_live h \<and> (\<forall>p. p \<noteq> tp \<longrightarrow> tbls h' p = tbls h p)
     \<and> (\<forall>a. a \<notin> S \<longrightarrow> el_next h' a = el_next h a \<and> el_prev h' a = el_prev h a
          \<and> el_hh_next h' a = el_hh_next h a \<and> el_hh_prev h' a = el_hh_prev h a
          \<and> el_key h' a = el_key h a \<and> el_hashv h' a = el_hashv h a \<and> el_tbl h' a = el_tbl h a)"

lemma keeps_trans: "keeps S tp h h' \<Longrightarrow> keeps T tp h' h'' \<Longrightarrow> S \<union> T \<subseteq> U \<Longrightarrow> keeps U tp h h''"
proof -
  assume k: "keeps S tp h h'" "keeps T tp h' h''" and sub: "S \<union> T \<subseteq> U"
  have "a \<notin> S \<and> a \<notin> T" if "a \<notin> U" for a using that sub by blast
  with k show "keeps U tp h h''" by (simp add: keeps_def)
qed

lemma keeps_mono: "keeps S tp h h' \<Longrightarrow> S \<subseteq> U \<Longrightarrow> keeps U tp h h'"
  unfolding keeps_def by blast

lemma keeps_relinked: "relinked S h h' \<Longrightarrow> keeps S tp h h'"
  by (simp add: keeps_def relinked_fields)

lemma keeps_set_tbl: "keeps S tp h (set_tbl h tp t)"
  by (simp add: keeps_def set_tbl_def)

lemma tbl_rep_keeps:
  assumes "keeps S tp h h'" and "tbl_rep h tp' head t" and "tp' \<noteq> tp" and "set (elts (app t)) \<inter> S = {}"
    and "chain_elts (buckets t) \<subseteq> set (elts (app t))"
  shows "tbl_rep h' tp' head t"
proof -
  have same: "el_next h' a = el_next h a" "el_prev h' a = el_prev h a" "el_hh_next h' a = el_hh_next h a"
      "el_hh_prev h' a = el_hh_prev h a" "el_key h' a = el_key h a" "el_hashv h' a = el_hashv h a" "el_tbl h' a = el_tbl h a"
    if "a \<in> set (elts (app t))" for a
    using assms(1,4) that unfolding keeps_def by blast+
  have "dseg (el_next h') (el_prev h') NULL head (elts (app t)) NULL = dseg (el_next h) (el_prev h) NULL head (elts (app t)) NULL"
    using same(1,2) by (intro dseg_cong) blast
  moreover have "stored h' tp' hh = stored h tp' hh" if "hh \<in> set (app t)" for hh
    using same [of "hh_elt hh"] that assms(1) by (simp add: stored_def keeps_def)
  moreover have "list_all2 (chain_rep (el_hh_next h') (el_hh_prev h')) ps (buckets t)"
    if "list_all2 (chain_rep (el_hh_next h) (el_hh_prev h)) ps (buckets t)" for ps
    using that same(3,4) assms(5) by (intro chains_rep_cong [OF _ that]) (metis subset_iff)
  moreover have "tbls h' tp' = tbls h tp'" using assms(1,3) by (simp add: keeps_def)
  ultimately show ?thesis using assms(2) by (auto simp: tbl_rep_def split: option.splits)
qed

section \<open>Expansion refines\<close>

lemma distinct_mset_sub: "mset xs \<subseteq># mset ys \<Longrightarrow> distinct ys \<Longrightarrow> distinct xs"
proof -
  assume sub: "mset xs \<subseteq># mset ys" and d: "distinct ys"
  have "count (mset xs) a \<le> 1" for a
  proof -
    have "count (mset ys) a = (if a \<in> set ys then 1 else 0)" using d by (simp only: distinct_count_atmost_1)
    then have "count (mset ys) a \<le> 1" by (metis le_refl zero_le_one)
    with mset_subset_eq_count [OF sub, of a] show ?thesis by (rule order_trans)
  qed
  then have "count (mset xs) a = (if a \<in> set xs then 1 else 0)" for a
    by (metis One_nat_def Suc_leI count_greater_zero_iff le_antisym not_in_iff set_mset_mset)
  then show "distinct xs" by (simp add: distinct_count_atmost_1)
qed

lemma chains_disj_distinct: "distinct (elts (concat (map bk_chain bs))) \<Longrightarrow> chains_disj bs"
proof (induction bs)
  case Nil
  then show ?case by (simp add: chains_disj_def)
next
  case (Cons b bs)
  have d: "set (elts (bk_chain b)) \<inter> chain_elts bs = {}" and IH: "chains_disj bs"
    using Cons by (simp_all add: chain_elts_concat)
  have z: "set (elts (bk_chain b)) \<inter> set (elts (bk_chain (bs ! k))) = {}" if "k < length bs" for k
    using d chain_elts_nth [OF that] by blast
  have w: "set (elts (bk_chain (bs ! i))) \<inter> set (elts (bk_chain (bs ! j))) = {}"
    if "i < length bs" "j < length bs" "i \<noteq> j" for i j
    using IH that unfolding chains_disj_def by blast
  show ?case
    unfolding chains_disj_def
  proof (intro allI impI)
    fix i j assume ij: "i < length (b # bs)" "j < length (b # bs)" "i \<noteq> j"
    show "set (elts (bk_chain ((b # bs) ! i))) \<inter> set (elts (bk_chain ((b # bs) ! j))) = {}"
      using ij z [of "j - 1"] z [of "i - 1"] w [of "i - 1" "j - 1"] by (cases i; cases j) (simp_all add: Int_commute)
  qed
qed

definition chains_sub :: "UT_hash_table \<Rightarrow> bool" where
  "chains_sub t \<longleftrightarrow> mset (concat (map bk_chain (buckets t))) \<subseteq># mset (app t)"

lemma chains_subD:
  assumes "chains_sub t" and "distinct (elts (app t))"
  shows "distinct (elts (concat (map bk_chain (buckets t))))" "chains_disj (buckets t)"
    "set (concat (map bk_chain (buckets t))) \<subseteq> set (app t)" "chain_elts (buckets t) \<subseteq> set (elts (app t))"
proof -
  have "mset (elts (concat (map bk_chain (buckets t)))) \<subseteq># mset (elts (app t))"
    using assms(1) image_mset_subseteq_mono unfolding chains_sub_def mset_map by blast
  then show 1: "distinct (elts (concat (map bk_chain (buckets t))))" using assms(2) by (rule distinct_mset_sub)
  then show "chains_disj (buckets t)" by (rule chains_disj_distinct)
  show 2: "set (concat (map bk_chain (buckets t))) \<subseteq> set (app t)"
    using set_mset_mono [OF assms(1) [unfolded chains_sub_def]] unfolding set_mset_mset .
  then show "chain_elts (buckets t) \<subseteq> set (elts (app t))" unfolding chain_elts_concat set_map by blast
qed

lemma tbl_rep_distinct: "tbl_rep h tp head t \<Longrightarrow> distinct (elts (app t))"
  unfolding tbl_rep_def using dseg_distinct by blast

lemma all_reps_empty: "all_reps h (replicate n empty_pbucket) (replicate n empty_bucket)"
  by (auto simp: all_reps_def chain_elts_def chains_disj_def empty_bucket_def empty_pbucket_def chain_rep_def
      intro!: list_all2_all_nthI)

lemma tbl_rep_all_reps:
  assumes "tbl_rep h tp head t" and "chains_sub t" and "tbls h tp = Some pt"
  shows "all_reps h (pt_buckets pt) (buckets t)"
proof -
  note c = chains_subD [OF assms(2) tbl_rep_distinct [OF assms(1)]]
  have "\<forall>x \<in> chain_elts (buckets t). el_live h x"
    using assms(1) c(4) by (force simp: tbl_rep_def stored_def)
  then show ?thesis using assms(1,3) c(2) by (simp add: tbl_rep_def all_reps_def)
qed

lemma tbl_rep_at: "tbl_rep h tp head t \<longleftrightarrow> tbl_at h tp t (last (elts (app t)))
     \<and> dseg (el_next h) (el_prev h) NULL head (elts (app t)) NULL"
  unfolding tbl_rep_def tbl_at_def using dseg_distinct dseg_nonnull by blast

lemma tbl_at_distinct: "tbl_at h tp t tle \<Longrightarrow> distinct (elts (app t))"
  unfolding tbl_at_def by blast

lemma HASH_EXPAND_BUCKETS_mem_at:
  assumes R: "tbl_at h tp t tle" and sub: "chains_sub t" and n: "num_buckets t * 2 \<noteq> 0"
  shows "\<exists>h'. HASH_EXPAND_BUCKETS_mem h tp = Some (Inr h') \<and> tbl_at h' tp (HASH_EXPAND_BUCKETS t) tle
    \<and> keeps (set (elts (app t))) tp h h' \<and> tbl_brk h' = tbl_brk h \<and> el_next h' = el_next h \<and> el_prev h' = el_prev h"
proof -
  obtain pt where pt: "tbls h tp = Some pt" "list_all2 (chain_rep (el_hh_next h) (el_hh_prev h)) (pt_buckets pt) (buckets t)"
      "counters_rep pt t" "pt_tail pt = tle" "tp \<noteq> NULL"
    using R by (auto simp: tbl_at_def split: option.splits)
  note c = chains_subD [OF sub tbl_at_distinct [OF R]]
  let ?m = "unat (2 * num_buckets t)"
  define ideal where "ideal = drop_bit (unat (log2_num_buckets t + 1)) (num_items t)
            + (if num_items t AND (num_buckets t * 2 - 1) \<noteq> 0 then 1 else 0)"
  obtain bs' k' where fold: "fold (expand_insert (num_buckets t * 2) ideal) (concat (map bk_chain (buckets t)))
      (replicate ?m empty_bucket, 0) = (bs', k')" by (meson surj_pair)
  have live: "\<forall>hh \<in> set (concat (map bk_chain (buckets t))). el_live h (hh_elt hh) \<and> el_hashv h (hh_elt hh) = hh_hashv hh"
    using R c(3) by (force simp: tbl_at_def stored_def)
  have em: "chain_elts (replicate ?m empty_bucket) = {}" by (auto simp: chain_elts_def empty_bucket_def)
  from expand_all_ok [OF all_reps_empty pt(2) c(1) _ live n _ fold] em
  obtain h' ps' where e: "expand_all (num_buckets t * 2) ideal (pt_buckets pt) (h, replicate ?m empty_pbucket, 0) = Some (Inr (h', ps', k'))"
    "all_reps h' ps' bs'" "relinked (chain_elts (buckets t)) h h'"
    by (auto simp: mult.commute)
  note f = relinked_fields [OF e(3)]
  define ineff where "ineff = (if k' > drop_bit 1 (num_items t) then ineff_expands t + 1 else 0)"
  let ?pt = "pt\<lparr>pt_buckets := ps', pt_num_buckets := num_buckets t * 2, pt_log2 := log2_num_buckets t + 1, pt_ideal := ideal,
     pt_nonideal := k', pt_ineff := ineff, pt_noexpand := (if ineff > 1 then 1 else noexpand t)\<rparr>"
  let ?t = "t\<lparr>buckets := bs', num_buckets := num_buckets t * 2, log2_num_buckets := log2_num_buckets t + 1,
     ideal_chain_maxlen := ideal, nonideal_items := k', ineff_expands := ineff, noexpand := (if ineff > 1 then 1 else noexpand t)\<rparr>"
  have t: "HASH_EXPAND_BUCKETS t = ?t"
    using fold by (simp add: HASH_EXPAND_BUCKETS_def ideal_def ineff_def Let_def)
  have "HASH_EXPAND_BUCKETS_mem h tp = Some (Inr (set_tbl h' tp ?pt))"
    using pt(1,3,5) e(1) by (simp add: HASH_EXPAND_BUCKETS_mem_def counters_rep_def ideal_def ineff_def Let_def)
  moreover have "tbl_at (set_tbl h' tp ?pt) tp ?t tle"
    using R e(2) f pt(3,4) by (simp add: tbl_at_def set_tbl_def all_reps_def stored_def counters_rep_def)
  moreover have "keeps (set (elts (app t))) tp h (set_tbl h' tp ?pt)"
    using keeps_trans [OF keeps_relinked [OF e(3)] keeps_set_tbl [where S = "{}"]] c(4) by blast
  moreover have "tbl_brk (set_tbl h' tp ?pt) = tbl_brk h" "el_next (set_tbl h' tp ?pt) = el_next h" "el_prev (set_tbl h' tp ?pt) = el_prev h"
    using f by (simp_all add: set_tbl_def)
  ultimately show ?thesis unfolding t by blast
qed

lemma HASH_EXPAND_BUCKETS_mem_ok:
  assumes "tbl_rep h tp head t" and "chains_sub t" and "num_buckets t * 2 \<noteq> 0"
  shows "\<exists>h'. HASH_EXPAND_BUCKETS_mem h tp = Some (Inr h') \<and> tbl_rep h' tp head (HASH_EXPAND_BUCKETS t)
    \<and> keeps (set (elts (app t))) tp h h' \<and> tbl_brk h' = tbl_brk h"
  using HASH_EXPAND_BUCKETS_mem_at [OF _ assms(2,3), of h tp] assms(1)
  by (fastforce simp: tbl_rep_at HASH_EXPAND_BUCKETS_simps)

section \<open>Insertion refines\<close>

lemma HASH_ADD_TO_BKT_mem_at:
  assumes R: "tbl_at h tp t tle" and hh: "hh \<in> set (app t)"
    and sub: "add_mset hh (mset (concat (map bk_chain (buckets t)))) \<subseteq># mset (app t)"
    and i: "bkt < length (buckets t)" and n: "num_buckets t * 2 \<noteq> 0"
  shows "\<exists>h'. HASH_ADD_TO_BKT_mem h tp bkt (hh_elt hh) = Some (Inr h') \<and> tbl_at h' tp (HASH_ADD_TO_BKT t bkt hh) tle
    \<and> keeps (set (elts (app t))) tp h h' \<and> tbl_brk h' = tbl_brk h \<and> el_next h' = el_next h \<and> el_prev h' = el_prev h"
proof -
  obtain pt where pt: "tbls h tp = Some pt" "list_all2 (chain_rep (el_hh_next h) (el_hh_prev h)) (pt_buckets pt) (buckets t)"
      "counters_rep pt t" "pt_tail pt = tle" "tp \<noteq> NULL"
    using R by (auto simp: tbl_at_def split: option.splits)
  let ?a = "hh_elt hh" and ?pb = "pt_buckets pt ! bkt" and ?b = "buckets t ! bkt"
  have sub': "chains_sub t" unfolding chains_sub_def
    using mset_subset_eq_insertD [OF sub] subset_mset.less_imp_le by blast
  note c = chains_subD [OF sub' tbl_at_distinct [OF R]]
  have live: "el_live h x" if "x \<in> set (elts (app t))" for x using R that by (auto simp: tbl_at_def stored_def)
  have a: "el_live h ?a" "el_tbl h ?a = tp" "?a \<noteq> NULL" "?a \<in> set (elts (app t))"
    using R hh by (force simp: tbl_at_def stored_def)+
  have "mset (elts (hh # concat (map bk_chain (buckets t)))) \<subseteq># mset (elts (app t))"
    using image_mset_subseteq_mono [OF sub, of hh_elt] by simp
  then have fresh: "?a \<notin> chain_elts (buckets t)"
    using distinct_mset_sub [OF _ tbl_at_distinct [OF R]] unfolding chain_elts_concat by fastforce
  have rep: "chain_rep (el_hh_next h) (el_hh_prev h) ?pb ?b" using list_all2_nthD2 [OF pt(2) i] .
  then have q: "hh_head ?pb = NULL \<or> hh_head ?pb \<in> chain_elts (buckets t)"
    using chain_elts_nth [OF i] by (cases "bk_chain ?b") (auto simp: chain_rep_def)
  define b where "b = ?b\<lparr>bk_count := bk_count ?b + 1, bk_chain := hh # bk_chain ?b\<rparr>"
  define p where "p = ?pb\<lparr>pb_count := pb_count ?pb + 1, hh_head := ?a\<rparr>"
  define h1 where "h1 = h\<lparr>el_hh_next := (el_hh_next h)(?a := hh_head ?pb),
     el_hh_prev := (if hh_head ?pb = NULL then (el_hh_prev h)(?a := NULL) else ((el_hh_prev h)(?a := NULL))(hh_head ?pb := ?a))\<rparr>"
  define h2 where "h2 = set_tbl h1 tp (pt\<lparr>pt_buckets := (pt_buckets pt)[bkt := p]\<rparr>)"
  define t1 where "t1 = t\<lparr>buckets := (buckets t)[bkt := b]\<rparr>"
  have bp: "bk_chain b = hh # bk_chain ?b" "pb_count p = bk_count b" "pb_mult p = expand_mult b" "hh_head p = ?a"
    using rep by (simp_all add: b_def p_def chain_rep_def)
  note push = chains_push [OF pt(2) c(2) i fresh a(3) bp, of "el_hh_next h1" "el_hh_prev h1"]
  have rl: "relinked (set (elts (app t))) h h1"
    unfolding h1_def using q a(4) c(4) by (intro relinkedI) auto
  note f = relinked_fields [OF rl]
  have R1: "tbl_at h2 tp t1 tle"
    using R push(1) f pt(3,4) by (simp add: tbl_at_def h2_def set_tbl_def stored_def counters_rep_def t1_def h1_def)
  have k: "keeps (set (elts (app t))) tp h h2"
    using keeps_trans [OF keeps_relinked [OF rl] keeps_set_tbl [where S = "{}"]] unfolding h2_def by blast
  have brk: "tbl_brk h2 = tbl_brk h" "el_next h2 = el_next h" "el_prev h2 = el_prev h" using f by (simp_all add: h2_def set_tbl_def)
  have s1: "chains_sub t1"
    using sub mset_concat_update [OF i, of bk_chain b] bp(1) by (simp add: chains_sub_def t1_def)
  have len: "length (pt_buckets pt) = length (buckets t)" using pt(2) by (rule list_all2_lengthD)
  let ?grow = "bk_count b \<ge> (expand_mult b + 1) * 10 \<and> noexpand t \<noteq> 1"
  have "HASH_ADD_TO_BKT_mem h tp bkt ?a = (if ?grow then HASH_EXPAND_BUCKETS_mem h2 tp else Some (Inr h2))"
  proof -
    have "bucket_at pt bkt = Inr ?pb" using i len by (simp add: bucket_at_def)
    moreover have "hh_head ?pb \<noteq> NULL \<Longrightarrow> el_live h (hh_head ?pb)" using q c(4) live by (metis subsetD)
    ultimately show ?thesis
      using pt(1,3,5) a bp by (simp add: HASH_ADD_TO_BKT_mem_def elt_def Let_def h1_def h2_def p_def counters_rep_def set_tbl_def)
  qed
  moreover have "HASH_ADD_TO_BKT t bkt hh = (if ?grow then HASH_EXPAND_BUCKETS t1 else t1)"
    by (simp add: HASH_ADD_TO_BKT_def Let_def b_def t1_def)
  moreover have "app t1 = app t" "num_buckets t1 = num_buckets t" by (simp_all add: t1_def)
  moreover obtain h3 where "HASH_EXPAND_BUCKETS_mem h2 tp = Some (Inr h3)" "tbl_at h3 tp (HASH_EXPAND_BUCKETS t1) tle"
      "keeps (set (elts (app t1))) tp h2 h3" "tbl_brk h3 = tbl_brk h2" "el_next h3 = el_next h2" "el_prev h3 = el_prev h2"
    using HASH_EXPAND_BUCKETS_mem_at [OF R1 s1] n by (auto simp: t1_def)
  ultimately show ?thesis using R1 k brk keeps_trans [OF k, of _ h3 "set (elts (app t))"] by (cases ?grow) auto
qed

lemma HASH_ADD_TO_BKT_app: "app (HASH_ADD_TO_BKT t bkt hh) = app t"
  by (simp add: HASH_ADD_TO_BKT_def Let_def HASH_EXPAND_BUCKETS_simps)

lemma HASH_ADD_TO_BKT_mem_ok:
  assumes "tbl_rep h tp head t" and "hh \<in> set (app t)"
    and "add_mset hh (mset (concat (map bk_chain (buckets t)))) \<subseteq># mset (app t)"
    and "bkt < length (buckets t)" and "num_buckets t * 2 \<noteq> 0"
  shows "\<exists>h'. HASH_ADD_TO_BKT_mem h tp bkt (hh_elt hh) = Some (Inr h') \<and> tbl_rep h' tp head (HASH_ADD_TO_BKT t bkt hh)
    \<and> keeps (set (elts (app t))) tp h h' \<and> tbl_brk h' = tbl_brk h"
  using HASH_ADD_TO_BKT_mem_at [OF _ assms(2-5), of h tp] assms(1) by (fastforce simp: tbl_rep_at HASH_ADD_TO_BKT_app)

text \<open>Both branches of \<^verbatim>\<open>HASH_ADD_KEYPTR\<close> append the element to the application order.\<close>

lemma HASH_ADD_KEYPTR_link:
  fixes h ho head keyptr add tp
  defines "t \<equiv> (case ho of None \<Rightarrow> HASH_MAKE_TABLE | Some t \<Rightarrow> t)"
  defines "hh \<equiv> \<lparr>hh_elt = add, hh_key = keyptr, hh_hashv = HASH_JEN keyptr\<rparr>"
  defines "t1 \<equiv> t\<lparr>app := app t @ [hh], num_items := num_items t + 1\<rparr>"
  defines "tp' \<equiv> (if ho = None then tbl_brk h else tp)"
  assumes R: "hash_rep h tp head ho" and ok: "heap_ok h" and add: "add \<noteq> NULL" "el_live h add" "add \<notin> set (hash_elts ho)"
    and sub: "chain_elts (buckets t) \<subseteq> set (elts (app t))"
  shows "\<exists>h1 head'. HASH_ADD_KEYPTR h head keyptr add
      = obind (HASH_ADD_TO_BKT_mem h1 tp' (HASH_TO_BKT (HASH_JEN keyptr) (num_buckets t)) add) (\<lambda>h. Some (Inr (h, head')))
    \<and> tbl_rep h1 tp' head' t1 \<and> keeps (insert add (set (hash_elts ho))) tp' h h1 \<and> heap_ok h1"
proof (cases ho)
  case None
  then have t: "t = HASH_MAKE_TABLE" "tp' = tbl_brk h" "head = NULL" using R by (simp_all add: t_def tp'_def hash_rep_def)
  define h1 where "h1 = h\<lparr>el_next := (el_next h)(add := NULL), el_key := (el_key h)(add := keyptr), el_prev := (el_prev h)(add := NULL),
     tbl_brk := Suc (tbl_brk h),
     tbls := (tbls h)(tbl_brk h \<mapsto> \<lparr>pt_buckets = replicate 32 empty_pbucket, pt_num_buckets = 32, pt_log2 = 5, pt_num_items = 1,
       pt_tail = add, pt_ideal = 0, pt_nonideal = 0, pt_ineff = 0, pt_noexpand = 0\<rparr>),
     el_tbl := (el_tbl h)(add := tbl_brk h), el_hashv := (el_hashv h)(add := HASH_JEN keyptr)\<rparr>"
  have "HASH_ADD_KEYPTR h head keyptr add
      = obind (HASH_ADD_TO_BKT_mem h1 tp' (HASH_TO_BKT (HASH_JEN keyptr) (num_buckets t)) add) (\<lambda>h. Some (Inr (h, add)))"
    using add ok by (simp add: t HASH_ADD_KEYPTR_def elt_def HASH_MAKE_TABLE_mem_def tbl_of_def set_tbl_def h1_def Let_def
      heap_ok_def HASH_MAKE_TABLE_def)
  moreover have "tbl_rep h1 tp' add t1"
    using add ok all_reps_empty [of h1 32] by (simp add: tbl_rep_def t t1_def hh_def HASH_MAKE_TABLE_def h1_def stored_def
      counters_rep_def heap_ok_def all_reps_def)
  moreover have "keeps (insert add (set (hash_elts ho))) tp' h h1" by (simp add: keeps_def t h1_def)
  moreover have "heap_ok h1" using ok by (simp add: heap_ok_def h1_def)
  ultimately show ?thesis by blast
next
  case (Some u)
  then have t: "t = u" "tp' = tp" "tbl_rep h tp head u" "hash_elts ho = elts (app u)" using R
    by (simp_all add: t_def tp'_def hash_rep_def hash_elts_def)
  obtain pt where pt: "tbls h tp = Some pt" "list_all2 (chain_rep (el_hh_next h) (el_hh_prev h)) (pt_buckets pt) (buckets u)"
      "counters_rep pt u" "pt_tail pt = last (elts (app u))" "tp \<noteq> NULL" "app u \<noteq> []"
      "dseg (el_next h) (el_prev h) NULL head (elts (app u)) NULL" "\<forall>g \<in> set (app u). stored h tp g"
    using t(3) by (auto simp: tbl_rep_def split: option.splits)
  obtain as b where as: "elts (app u) = as @ [b]" using pt(6) by (metis list.map_disc_iff rev_exhaust)
  have b: "pt_tail pt = b" "b \<in> set (elts (app u))" using pt(4) as by simp_all
  have live: "x \<noteq> NULL" "el_live h x" "x \<noteq> add" "el_tbl h x = tp" if "x \<in> set (elts (app u))" for x
    using that pt(7,8) add(3) dseg_nonnull [OF pt(7)] t(4) by (auto simp: stored_def)
  have hd: "head \<in> set (elts (app u))" using dseg_start [OF pt(7)] pt(6) by (cases "app u") auto
  define h1 where "h1 = h\<lparr>el_key := (el_key h)(add := keyptr), el_next := ((el_next h)(add := NULL))(b := add),
     el_prev := (el_prev h)(add := b), tbls := (tbls h)(tp \<mapsto> pt\<lparr>pt_tail := add, pt_num_items := pt_num_items pt + 1\<rparr>),
     el_tbl := (el_tbl h)(add := tp), el_hashv := (el_hashv h)(add := HASH_JEN keyptr)\<rparr>"
  have "HASH_ADD_KEYPTR h head keyptr add
      = obind (HASH_ADD_TO_BKT_mem h1 tp' (HASH_TO_BKT (HASH_JEN keyptr) (num_buckets t)) add) (\<lambda>h. Some (Inr (h, head)))"
    using add pt(1,3,5) b live [OF b(2)] live [OF hd]
    by (simp add: t(1,2) HASH_ADD_KEYPTR_def elt_def tbl_of_def set_tbl_def h1_def Let_def counters_rep_def)
  moreover have "tbl_rep h1 tp' head t1"
  proof -
    have seg: "dseg (el_next h1) (el_prev h1) NULL head (elts (app t1)) NULL"
      using dseg_push_back [of "el_next h" "el_prev h" NULL head as b add] pt(7) add as t(4)
      by (simp add: t(1) t1_def hh_def h1_def)
    have st: "\<forall>g \<in> set (app t1). stored h1 tp g"
      using pt(8) live(3) add by (force simp: t(1) t1_def hh_def h1_def stored_def)
    show ?thesis using seg st pt(2,3,5,6) by (simp add: tbl_rep_def t(1,2) t1_def hh_def h1_def counters_rep_def)
  qed
  moreover have "keeps (insert add (set (hash_elts ho))) tp' h h1" using b(2) by (auto simp: keeps_def t(1,2,4) h1_def)
  moreover have "heap_ok h1" using ok pt(1) by (fastforce simp: heap_ok_def h1_def)
  ultimately show ?thesis by blast
qed

lemma table_ok_chains_sub: "table_ok t \<Longrightarrow> chains_sub t"
  by (simp add: chains_sub_def table_ok_def chains_ok_def)

lemma table_ok_chain_elts: "table_ok t \<Longrightarrow> chain_elts (buckets t) \<subseteq> set (elts (app t))"
  using chains_subD(4) [OF table_ok_chains_sub] by (simp add: table_ok_def)

lemma HASH_ADD_KEYPTR_ok:
  assumes R: "hash_rep h tp head ho" and ok: "heap_ok h" and ho: "hash_ok ho" "hash_room ho"
    and add: "add \<noteq> NULL" "el_live h add" "add \<notin> set (hash_elts ho)"
  defines "tp' \<equiv> (if ho = None then tbl_brk h else tp)"
  shows "\<exists>h' head'. HASH_ADD_KEYPTR h head keyptr add = Some (Inr (h', head')) \<and> heap_ok h'
    \<and> hash_rep h' tp' head' (HASH_ADD ho keyptr add) \<and> keeps (insert add (set (hash_elts ho))) tp' h h'"
proof -
  define t where "t = (case ho of None \<Rightarrow> HASH_MAKE_TABLE | Some t \<Rightarrow> t)"
  define hh where "hh = \<lparr>hh_elt = add, hh_key = keyptr, hh_hashv = HASH_JEN keyptr\<rparr>"
  define t1 where "t1 = t\<lparr>app := app t @ [hh], num_items := num_items t + 1\<rparr>"
  let ?i = "HASH_TO_BKT (HASH_JEN keyptr) (num_buckets t)"
  have tok: "table_ok t" using ho(1) HASH_MAKE_TABLE_ok by (simp add: t_def hash_ok_def split: option.splits)
  have el: "hash_elts ho = elts (app t)" by (simp add: hash_elts_def t_def HASH_MAKE_TABLE_def split: option.splits)
  have n: "num_buckets t * 2 \<noteq> 0"
  proof -
    have "unat (log2_num_buckets t) < 30"
      using ho(2) by (auto simp: t_def hash_room_def HASH_MAKE_TABLE_def split: option.splits)
    then show ?thesis using doubling_no_wrap(2) [of "num_buckets t" "log2_num_buckets t"] tok by (simp add: table_ok_def)
  qed
  obtain h1 head' where 1: "HASH_ADD_KEYPTR h head keyptr add
      = obind (HASH_ADD_TO_BKT_mem h1 tp' ?i add) (\<lambda>h. Some (Inr (h, head')))"
    "tbl_rep h1 tp' head' t1" "keeps (insert add (set (hash_elts ho))) tp' h h1" "heap_ok h1"
    using HASH_ADD_KEYPTR_link [OF R ok add, of keyptr] table_ok_chain_elts [OF tok]
    unfolding t_def t1_def hh_def tp'_def by blast
  have s: "hh_elt hh = add" "app t1 = app t @ [hh]" "buckets t1 = buckets t" "num_buckets t1 = num_buckets t"
    by (simp_all add: hh_def t1_def)
  have "add_mset hh (mset (concat (map bk_chain (buckets t1)))) \<subseteq># mset (app t1)"
    using tok by (simp add: s table_ok_def chains_ok_def)
  moreover have "?i < length (buckets t1)" using bucket_in_range [OF tok] by (simp add: s)
  ultimately obtain h' where 2: "HASH_ADD_TO_BKT_mem h1 tp' ?i add = Some (Inr h')"
    "tbl_rep h' tp' head' (HASH_ADD_TO_BKT t1 ?i hh)" "keeps (set (elts (app t1))) tp' h1 h'" "tbl_brk h' = tbl_brk h1"
    using HASH_ADD_TO_BKT_mem_ok [OF 1(2), of hh ?i] n by (auto simp: s)
  have "hash_rep h' tp' head' (HASH_ADD ho keyptr add)"
    using 2(2) by (simp add: hash_rep_def HASH_ADD_def t_def t1_def hh_def Let_def)
  moreover have "keeps (insert add (set (hash_elts ho))) tp' h h'"
    by (rule keeps_trans [OF 1(3) 2(3)]) (auto simp: s el)
  moreover have "heap_ok h'"
  proof -
    have "tbls h1 tp' \<noteq> None" using 1(2) by (simp add: tbl_rep_def split: option.splits)
    then have "tp' < tbl_brk h1" using 1(4) unfolding heap_ok_def by (metis not_le)
    then show ?thesis using 1(4) 2(3,4) by (simp add: heap_ok_def keeps_def)
  qed
  ultimately show ?thesis using 1(1) 2(1) by simp
qed

section \<open>Lookup refines\<close>

lemma find_loop_ok:
  assumes "dseg (el_hh_next h) (el_hh_prev h) r out (elts hs) NULL" and "\<forall>hh \<in> set hs. stored h tp hh"
  shows "find_loop h keyptr out = Some (Inr (case find (\<lambda>g. length (hh_key g) = length keyptr \<and> hh_key g = keyptr) hs of
     None \<Rightarrow> NULL | Some g \<Rightarrow> hh_elt g))"
  using assms
proof (induction hs arbitrary: r out)
  case Nil
  then show ?case by (simp add: find_loop.simps)
next
  case (Cons g hs)
  then have "find_loop h keyptr (el_hh_next h (hh_elt g)) = Some (Inr (case find (\<lambda>g. length (hh_key g) = length keyptr \<and> hh_key g = keyptr) hs of
     None \<Rightarrow> NULL | Some g \<Rightarrow> hh_elt g))" by auto
  then show ?case using Cons.prems by (simp add: find_loop.simps [of h keyptr "hh_elt g"] elt_def stored_def)
qed

lemma HASH_FIND_mem_at:
  assumes tr: "tbl_at h tp t tle" and tok: "table_ok t" and head: "head \<in> set (elts (app t))"
  shows "HASH_FIND_mem h head keyptr = Some (Inr (case HASH_FIND (Some t) keyptr of None \<Rightarrow> NULL | Some a \<Rightarrow> a))"
proof -
  obtain pt where pt: "tbls h tp = Some pt" "list_all2 (chain_rep (el_hh_next h) (el_hh_prev h)) (pt_buckets pt) (buckets t)"
      "counters_rep pt t" "tp \<noteq> NULL" "NULL \<notin> set (elts (app t))" "\<forall>g \<in> set (app t). stored h tp g"
    using tr by (auto simp: tbl_at_def split: option.splits)
  let ?i = "HASH_TO_BKT (HASH_JEN keyptr) (num_buckets t)"
  have i: "?i < length (buckets t)" "?i < length (pt_buckets pt)"
    using bucket_in_range [OF tok] list_all2_lengthD [OF pt(2)] by simp_all
  have hd: "head \<noteq> NULL" "el_live h head" "el_tbl h head = tp"
    using pt(5,6) head by (auto simp: stored_def)
  have "dseg (el_hh_next h) (el_hh_prev h) NULL (hh_head (pt_buckets pt ! ?i)) (elts (bk_chain (buckets t ! ?i))) NULL"
    using list_all2_nthD2 [OF pt(2) i(1)] by (simp add: chain_rep_def)
  moreover have "\<forall>g \<in> set (bk_chain (buckets t ! ?i)). stored h tp g" using chain_in_app [OF tok i(1)] pt(6) by blast
  ultimately have "find_loop h keyptr (hh_head (pt_buckets pt ! ?i)) = Some (Inr (case HASH_FIND (Some t) keyptr of None \<Rightarrow> NULL | Some a \<Rightarrow> a))"
    using find_loop_ok by (simp add: HASH_FIND_def HASH_FIND_IN_BKT_def split: option.splits)
  then show ?thesis using hd pt(1,3,4) i by (simp add: HASH_FIND_mem_def tbl_of_def elt_def bucket_at_def counters_rep_def)
qed

lemma HASH_FIND_mem_ok:
  assumes R: "hash_rep h tp head ho" and ho: "hash_ok ho"
  shows "HASH_FIND_mem h head keyptr = Some (Inr (case HASH_FIND ho keyptr of None \<Rightarrow> NULL | Some a \<Rightarrow> a))"
proof (cases ho)
  case None
  then show ?thesis using R by (simp add: hash_rep_def HASH_FIND_mem_def HASH_FIND_def)
next
  case (Some t)
  then have t: "table_ok t" "tbl_rep h tp head t" "app t \<noteq> []" using R ho by (simp_all add: hash_ok_def hash_rep_def)
  then have "head \<in> set (elts (app t))" by (cases "app t") (auto simp: tbl_rep_def)
  then show ?thesis using HASH_FIND_mem_at t unfolding tbl_rep_at Some by blast
qed

section \<open>Deletion refines\<close>

lemma remove1_split: "hh \<notin> set us \<Longrightarrow> remove1 hh (us @ hh # vs) = us @ vs"
  by (induction us) auto

lemma split_handle:
  assumes "hh \<in> set hs" and "distinct (elts hs)"
  obtains us vs where "hs = us @ hh # vs" "remove1 hh hs = us @ vs" "hh_elt hh \<notin> set (elts us)" "hh_elt hh \<notin> set (elts vs)"
proof -
  obtain us vs where s: "hs = us @ hh # vs" using assms(1) by (auto simp: in_set_conv_decomp)
  then have "hh_elt hh \<notin> set (elts us)" "hh_elt hh \<notin> set (elts vs)" using assms(2) by auto
  then show thesis using that [OF s] s remove1_split [of hh us vs] by auto
qed

lemma HASH_DEL_IN_BKT_mem_ok:
  assumes R: "all_reps h (pt_buckets pt) bs" and pt: "tbls h tp = Some pt" "tp \<noteq> NULL" and i: "i < length bs"
    and hh: "hh \<in> set (bk_chain (bs ! i))"
  shows "\<exists>h' ps'. HASH_DEL_IN_BKT_mem h tp i (hh_elt hh) = Inr (set_tbl h' tp (pt\<lparr>pt_buckets := ps'\<rparr>))
    \<and> list_all2 (chain_rep (el_hh_next h') (el_hh_prev h')) ps' (bs[i := HASH_DEL_IN_BKT (bs ! i) hh]) \<and> relinked (chain_elts bs) h h'"
proof -
  let ?d = "hh_elt hh" and ?pb = "pt_buckets pt ! i" and ?nx = "el_hh_next h" and ?pv = "el_hh_prev h"
  have L: "list_all2 (chain_rep ?nx ?pv) (pt_buckets pt) bs" and D: "chains_disj bs"
    and live: "\<And>x. x \<in> chain_elts bs \<Longrightarrow> el_live h x"
    using R by (auto simp: all_reps_def)
  have len: "length (pt_buckets pt) = length bs" using L by (rule list_all2_lengthD)
  have rep: "chain_rep ?nx ?pv ?pb (bs ! i)" using list_all2_nthD2 [OF L i] .
  then have seg: "dseg ?nx ?pv NULL (hh_head ?pb) (elts (bk_chain (bs ! i))) NULL" by (simp add: chain_rep_def)
  obtain us vs where s: "bk_chain (bs ! i) = us @ hh # vs" "remove1 hh (bk_chain (bs ! i)) = us @ vs"
      "?d \<notin> set (elts us)" "?d \<notin> set (elts vs)"
    using split_handle [OF hh dseg_distinct [OF seg]] by metis
  have seg': "dseg ?nx ?pv NULL (hh_head ?pb) (elts us @ ?d # elts vs) NULL" using seg s(1) by simp
  note ends = dseg_unlink_ends [OF seg']
  have sub: "set (elts us) \<union> set (elts vs) \<union> {?d} \<subseteq> chain_elts bs" using chain_elts_nth [OF i] s(1) by auto
  have pd: "?pv ?d = NULL \<or> ?pv ?d \<in> set (elts us)" using ends(1) by (cases us rule: rev_cases) auto
  have nd: "?nx ?d = NULL \<or> ?nx ?d \<in> set (elts vs)" using ends(2) by (cases vs) auto
  have dn: "?d \<noteq> NULL" using dseg_nonnull [OF seg'] by simp
  have ne: "?pv ?d \<noteq> ?d" "?nx ?d \<noteq> ?d" using pd nd s(3,4) dn by metis+
  have hd: "hh_head ?pb = ?d \<longleftrightarrow> ?pv ?d = NULL"
    using dseg_start [OF seg'] ends(3) s(3) by (cases us) auto
  define nx' where "nx' = (if ?pv ?d = NULL then ?nx else ?nx(?pv ?d := ?nx ?d))"
  define pv' where "pv' = (if ?nx ?d = NULL then ?pv else ?pv(?nx ?d := ?pv ?d))"
  let ?h = "h\<lparr>el_hh_next := nx', el_hh_prev := pv'\<rparr>"
  define p where "p = (let b = ?pb\<lparr>pb_count := pb_count ?pb - 1\<rparr> in if hh_head ?pb = ?d then b\<lparr>hh_head := ?nx ?d\<rparr> else b)"
  have crep: "chain_rep nx' pv' p (HASH_DEL_IN_BKT (bs ! i) hh)"
    using dseg_unlink [OF seg'] rep s(2) hd
    by (auto simp: chain_rep_def HASH_DEL_IN_BKT_def p_def Let_def nx'_def pv'_def split: if_splits)
  have out: "nx' x = ?nx x \<and> pv' x = ?pv x" if "x \<notin> set (elts (bk_chain (bs ! i)))" for x
    using that pd nd s(1) by (auto simp: nx'_def pv'_def)
  have "list_all2 (chain_rep nx' pv') ((pt_buckets pt)[i := p]) (bs[i := HASH_DEL_IN_BKT (bs ! i) hh])"
    using out by (intro chains_rep_update [OF L D crep _ i]) simp
  moreover have "relinked (chain_elts bs) h ?h" using out chain_elts_nth [OF i] by (intro relinkedI) blast
  moreover have "HASH_DEL_IN_BKT_mem h tp i ?d = Inr (set_tbl ?h tp (pt\<lparr>pt_buckets := (pt_buckets pt)[i := p]\<rparr>))"
  proof -
    have "el_live h ?d" "?pv ?d \<noteq> NULL \<Longrightarrow> el_live h (?pv ?d)" "?nx ?d \<noteq> NULL \<Longrightarrow> el_live h (?nx ?d)"
      using live sub pd nd by auto
    then show ?thesis using pt i len ne dn
      by (simp add: HASH_DEL_IN_BKT_mem_def bucket_at_def elt_def set_tbl_def Let_def p_def nx'_def pv'_def)
  qed
  ultimately show ?thesis by (intro exI conjI) auto
qed

lemma find_elt: "distinct (elts hs) \<Longrightarrow> hh \<in> set hs \<Longrightarrow> find (\<lambda>g. hh_elt g = hh_elt hh) hs = Some hh"
proof (induction hs)
  case (Cons g hs)
  then show ?case by (cases "g = hh") force+
qed simp

lemma tbl_of_ok: "tbls h tp = Some pt \<Longrightarrow> tp \<noteq> NULL \<Longrightarrow> a \<noteq> NULL \<Longrightarrow> el_live h a \<Longrightarrow> el_tbl h a = tp \<Longrightarrow> tbl_of h a = Inr (tp, pt)"
  by (simp add: tbl_of_def elt_def)

text \<open>The list of all items: what the first half of \<^verbatim>\<open>HASH_DELETE\<close> writes.\<close>

lemma HASH_DELETE_unlink:
  assumes R: "tbl_rep h tp head t" and t: "app t = us @ hh # vs" "us @ vs \<noteq> []" and pt: "tbls h tp = Some pt"
  shows "\<exists>h2 head' pt2. HASH_DELETE_mem h head (hh_elt hh)
      = rbind (HASH_DEL_IN_BKT_mem h2 tp (HASH_TO_BKT (hh_hashv hh) (num_buckets t)) (hh_elt hh)) (\<lambda>h.
        rbind (tbl_of h head') (\<lambda>(tp, t). Inr (set_tbl h tp (t\<lparr>pt_num_items := pt_num_items t - 1\<rparr>), head')))
    \<and> dseg (el_next h2) (el_prev h2) NULL head' (elts (us @ vs)) NULL \<and> tbls h2 = (tbls h)(tp \<mapsto> pt2)
    \<and> pt2 = pt\<lparr>pt_tail := last (elts (us @ vs))\<rparr> \<and> keeps (set (elts (app t))) tp h h2
    \<and> el_hh_next h2 = el_hh_next h \<and> el_hh_prev h2 = el_hh_prev h \<and> el_key h2 = el_key h \<and> el_hashv h2 = el_hashv h
    \<and> el_tbl h2 = el_tbl h \<and> tbl_brk h2 = tbl_brk h"
proof -
  let ?d = "hh_elt hh" and ?nx = "el_next h" and ?pv = "el_prev h"
  have tp: "tp \<noteq> NULL" "counters_rep pt t" "pt_tail pt = last (elts (app t))"
    and st: "\<And>g. g \<in> set (app t) \<Longrightarrow> stored h tp g"
    and seg: "dseg ?nx ?pv NULL head (elts us @ ?d # elts vs) NULL"
    using R pt t(1) by (auto simp: tbl_rep_def)
  note ends = dseg_unlink_ends [OF seg]
  have dist: "?d \<notin> set (elts us)" "?d \<notin> set (elts vs)" using dseg_distinct [OF seg] by simp_all
  have nn: "x \<noteq> NULL" "el_live h x" "el_tbl h x = tp" if "x \<in> set (elts (app t))" for x
    using that st dseg_nonnull [OF seg] t(1) by (auto simp: stored_def)
  have pd: "?pv ?d = NULL \<or> ?pv ?d \<in> set (elts us)" using ends(1) by (cases us rule: rev_cases) auto
  have nd: "?nx ?d = NULL \<or> ?nx ?d \<in> set (elts vs)" using ends(2) by (cases vs) auto
  have dn: "?d \<noteq> NULL" using dseg_nonnull [OF seg] by simp
  have ne: "?pv ?d \<noteq> ?d" "?nx ?d \<noteq> ?d" using pd nd dist dn by metis+
  have two: "\<not> (?pv ?d = NULL \<and> ?nx ?d = NULL)" using ends(3,4) t(2) by simp
  define nx' where "nx' = (if ?pv ?d = NULL then ?nx else ?nx(?pv ?d := ?nx ?d))"
  define pv' where "pv' = (if ?nx ?d = NULL then ?pv else ?pv(?nx ?d := ?pv ?d))"
  define head' where "head' = (if ?pv ?d = NULL then ?nx ?d else head)"
  define pt2 where "pt2 = pt\<lparr>pt_tail := last (elts (us @ vs))\<rparr>"
  define h2 where "h2 = h\<lparr>tbls := (tbls h)(tp \<mapsto> pt2), el_next := nx', el_prev := pv'\<rparr>"
  have seg2: "dseg nx' pv' NULL head' (elts (us @ vs)) NULL"
    using dseg_unlink [OF seg] by (simp add: nx'_def pv'_def head'_def)
  have "head' = hd (elts (us @ vs))" using dseg_start [OF seg2] t(2) by (metis hd_append2 map_is_Nil_conv)
  then have hd': "head' \<in> set (elts (app t))" using hd_in_set [of "elts (us @ vs)"] t by auto
  have hd: "head \<in> set (elts (app t))" using dseg_start [OF seg] t by (cases us) auto
  have tail: "?d = pt_tail pt \<longleftrightarrow> vs = []" using tp(3) t(1) dist(2) by (cases vs rule: rev_cases) auto
  have h1: "(if ?d = pt_tail pt then set_tbl h tp (pt\<lparr>pt_tail := ?pv ?d\<rparr>) else h) = h\<lparr>tbls := (tbls h)(tp \<mapsto> pt2)\<rparr>"
  proof (cases vs rule: rev_cases)
    case Nil
    then have "last (elts (us @ vs)) = ?pv ?d" using ends(1) t(2) by simp
    then show ?thesis using tail Nil by (simp add: set_tbl_def pt2_def)
  next
    case (snoc ws w)
    then have "pt2 = pt" using tp(3) t(1) by (simp add: pt2_def)
    then show ?thesis using tail snoc pt by (simp add: fun_upd_idem)
  qed
  have live: "el_live h ?d" "?pv ?d \<noteq> NULL \<Longrightarrow> el_live h (?pv ?d)" "?nx ?d \<noteq> NULL \<Longrightarrow> el_live h (?nx ?d)"
    using nn(2) pd nd t(1) by auto
  have t1: "tbl_of h head = Inr (tp, pt)" using tbl_of_ok [OF pt tp(1)] nn [OF hd] by blast
  have t2: "tbl_of h2 head' = Inr (tp, pt2)" using nn [OF hd'] tp(1) by (simp add: tbl_of_def elt_def h2_def)
  have hv: "el_hashv h2 ?d = hh_hashv hh" using st [of hh] t(1) by (simp add: stored_def h2_def)
  have nb: "pt_num_buckets pt2 = num_buckets t" using tp(2) by (simp add: pt2_def counters_rep_def)
  have links: "unlink_app (h\<lparr>tbls := (tbls h)(tp \<mapsto> pt2)\<rparr>) head ?d = Inr (h2, head')"
    using live ne by (auto simp: unlink_app_def elt_def h2_def nx'_def pv'_def head'_def)
  have "HASH_DELETE_mem h head ?d
      = rbind (HASH_DEL_IN_BKT_mem h2 tp (HASH_TO_BKT (hh_hashv hh) (num_buckets t)) ?d) (\<lambda>h.
        rbind (tbl_of h head') (\<lambda>(tp, t). Inr (set_tbl h tp (t\<lparr>pt_num_items := pt_num_items t - 1\<rparr>), head')))"
    using two by (auto simp: HASH_DELETE_mem_def elt_def dn live(1) t1 h1 links t2 hv nb)
  moreover have "keeps (set (elts (app t))) tp h h2"
    using pd nd t(1) by (auto simp: keeps_def h2_def nx'_def pv'_def)
  ultimately show ?thesis using seg2 by (intro exI [of _ h2] exI [of _ head'] exI [of _ pt2]) (simp add: h2_def pt2_def)
qed

lemma HASH_DELETE_mem_ok:
  assumes R: "tbl_rep h tp head t" and ok: "heap_ok h" and tok: "table_ok t" and hh: "hh \<in> set (app t)"
  shows "\<exists>h' head' ho'. HASH_DELETE_mem h head (hh_elt hh) = Inr (h', head') \<and> HASH_DELETE (Some t) (hh_elt hh) = Inr ho'
    \<and> heap_ok h' \<and> hash_rep h' tp head' ho' \<and> keeps (set (elts (app t))) tp h h'"
proof -
  have dist: "distinct (elts (app t))" using R by (rule tbl_rep_distinct)
  obtain us vs where s: "app t = us @ hh # vs" "remove1 hh (app t) = us @ vs" using split_handle [OF hh dist] by metis
  obtain pt where pt: "tbls h tp = Some pt" "tp \<noteq> NULL" "counters_rep pt t" using R by (auto simp: tbl_rep_def split: option.splits)
  have below: "tp < tbl_brk h" using ok pt(1) unfolding heap_ok_def by (metis not_le option.distinct(1))
  have find: "find (\<lambda>g. hh_elt g = hh_elt hh) (app t) = Some hh" using dist hh by (rule find_elt)
  show ?thesis
  proof (cases "us @ vs = []")
    case True
    then have "app t = [hh]" using s(1) by simp
    then have cell: "head = hh_elt hh" "hh_elt hh \<noteq> NULL" "el_prev h (hh_elt hh) = NULL" "el_next h (hh_elt hh) = NULL" "stored h tp hh"
      using R by (simp_all add: tbl_rep_def)
    have "HASH_DELETE_mem h head (hh_elt hh) = Inr (h\<lparr>tbls := (tbls h)(tp := None)\<rparr>, NULL)"
      using cell tbl_of_ok [OF pt(1,2), of head] by (simp add: HASH_DELETE_mem_def elt_def stored_def)
    moreover have "HASH_DELETE (Some t) (hh_elt hh) = Inr None"
      using find \<open>app t = [hh]\<close> by (simp add: HASH_DELETE_def)
    moreover have "heap_ok (h\<lparr>tbls := (tbls h)(tp := None)\<rparr>)" using ok by (simp add: heap_ok_def)
    ultimately show ?thesis by (intro exI conjI) (auto simp: hash_rep_def keeps_def)
  next
    case False
    then have many: "app t \<noteq> [hh]" using s(1) by (cases us) auto
    let ?i = "HASH_TO_BKT (hh_hashv hh) (num_buckets t)" and ?d = "hh_elt hh"
    let ?t = "t\<lparr>app := us @ vs, buckets := (buckets t)[?i := HASH_DEL_IN_BKT (buckets t ! ?i) hh], num_items := num_items t - 1\<rparr>"
    obtain h2 head' pt2 where 2: "HASH_DELETE_mem h head ?d = rbind (HASH_DEL_IN_BKT_mem h2 tp ?i ?d) (\<lambda>h.
        rbind (tbl_of h head') (\<lambda>(tp, t). Inr (set_tbl h tp (t\<lparr>pt_num_items := pt_num_items t - 1\<rparr>), head')))"
      "dseg (el_next h2) (el_prev h2) NULL head' (elts (us @ vs)) NULL" "tbls h2 = (tbls h)(tp \<mapsto> pt2)"
      "pt2 = pt\<lparr>pt_tail := last (elts (us @ vs))\<rparr>" "keeps (set (elts (app t))) tp h h2"
      "el_hh_next h2 = el_hh_next h" "el_hh_prev h2 = el_hh_prev h" "el_key h2 = el_key h" "el_hashv h2 = el_hashv h"
      "el_tbl h2 = el_tbl h" "tbl_brk h2 = tbl_brk h"
      using HASH_DELETE_unlink [OF R s(1) False pt(1)] by blast
    have live2: "el_live h2 = el_live h" using 2(5) by (simp add: keeps_def)
    have "all_reps h (pt_buckets pt) (buckets t)" using tbl_rep_all_reps [OF R table_ok_chains_sub [OF tok] pt(1)] .
    then have reps: "all_reps h2 (pt_buckets pt2) (buckets t)" using live2 by (simp add: all_reps_def 2(4,6,7))
    have i: "?i < length (buckets t)" using bucket_in_range [OF tok] .
    obtain h3 ps where 3: "HASH_DEL_IN_BKT_mem h2 tp ?i ?d = Inr (set_tbl h3 tp (pt2\<lparr>pt_buckets := ps\<rparr>))"
      "list_all2 (chain_rep (el_hh_next h3) (el_hh_prev h3)) ps (buckets ?t)" "relinked (chain_elts (buckets t)) h2 h3"
      using HASH_DEL_IN_BKT_mem_ok [OF reps _ pt(2) i HASH_FIND_bucket [OF tok hh]] 2(3) by auto
    note f = relinked_fields [OF 3(3)]
    have st: "stored h3 tp g" if "g \<in> set (us @ vs)" for g
      using R that s(1) live2 by (auto simp: tbl_rep_def stored_def f 2(8-10))
    have hd: "head' \<in> set (elts (us @ vs))" "head' \<noteq> NULL"
      using dseg_start [OF 2(2)] False dseg_nonnull [OF 2(2)] hd_in_set [of "elts (us @ vs)"]
      by (metis hd_append2 map_is_Nil_conv)+
    define pt3 where "pt3 = pt2\<lparr>pt_buckets := ps, pt_num_items := pt_num_items pt2 - 1\<rparr>"
    have "tbl_of (set_tbl h3 tp (pt2\<lparr>pt_buckets := ps\<rparr>)) head' = Inr (tp, pt2\<lparr>pt_buckets := ps\<rparr>)"
      using hd st pt(2) by (intro tbl_of_ok) (auto simp: set_tbl_def stored_def)
    then have run: "HASH_DELETE_mem h head ?d = Inr (set_tbl h3 tp pt3, head')"
      using 2(1) 3(1) by (simp add: set_tbl_def pt3_def)
    have "tbl_rep (set_tbl h3 tp pt3) tp head' ?t"
      using pt(2,3) 2(2,4) 3(2) f(2,3) st False
      by (simp add: tbl_rep_def set_tbl_def stored_def counters_rep_def pt3_def)
    moreover have "HASH_DELETE (Some t) ?d = Inr (Some ?t)"
      using find s(2) many by (simp add: HASH_DELETE_def Let_def)
    moreover have k: "keeps (set (elts (app t))) tp h (set_tbl h3 tp pt3)"
    proof -
      have "keeps (set (elts (app t))) tp h2 (set_tbl h3 tp pt3)"
        using keeps_trans [OF keeps_relinked [OF 3(3)] keeps_set_tbl [where S = "{}"]] table_ok_chain_elts [OF tok] by blast
      then show ?thesis using keeps_trans [OF 2(5)] by blast
    qed
    moreover have "heap_ok (set_tbl h3 tp pt3)"
      using ok below k 2(11) f(8) by (simp add: heap_ok_def keeps_def set_tbl_def)
    ultimately show ?thesis using run by (simp add: hash_rep_def)
  qed
qed

section \<open>Properties\<close>

text \<open>\<open>others_kept\<close>: every other table, with elements and a table structure of its own, is still what it was.\<close>

definition others_kept :: "addr set \<Rightarrow> addr \<Rightarrow> uheap \<Rightarrow> uheap \<Rightarrow> bool" where
  "others_kept S tp h h' \<longleftrightarrow> (\<forall>tp2 head2 ho2. tp2 \<noteq> tp \<and> hash_ok ho2 \<and> set (hash_elts ho2) \<inter> S = {}
     \<and> hash_rep h tp2 head2 ho2 \<longrightarrow> hash_rep h' tp2 head2 ho2)"

lemma keeps_others: "keeps S tp h h' \<Longrightarrow> others_kept S tp h h'"
  unfolding others_kept_def
proof (intro allI impI)
  fix tp2 head2 ho2 assume k: "keeps S tp h h'"
    and o2: "tp2 \<noteq> tp \<and> hash_ok ho2 \<and> set (hash_elts ho2) \<inter> S = {} \<and> hash_rep h tp2 head2 ho2"
  show "hash_rep h' tp2 head2 ho2"
  proof (cases ho2)
    case None
    then show ?thesis using o2 by (simp add: hash_rep_def)
  next
    case (Some t)
    then have "tbl_rep h tp2 head2 t" "set (elts (app t)) \<inter> S = {}" "table_ok t" using o2
      by (simp_all add: hash_rep_def hash_elts_def hash_ok_def)
    then show ?thesis using tbl_rep_keeps [OF k] table_ok_chain_elts o2 Some by (simp add: hash_rep_def)
  qed
qed

text \<open>
  C10: the pointer macros of uthash implement the tables.  In a memory in which \<^verbatim>\<open>head\<close> leads to an
  intact table, \<^verbatim>\<open>HASH_FIND\<close> returns, with the element the table has under the key or \<^verbatim>\<open>NULL\<close>; adding a
  live element that is not in the table returns, also when the buckets are doubled on the way, and leaves
  the memory of the table with the element added; deleting an element of the table leaves the memory of
  the table without it, and releases the table with the last one.  None of them touches released memory, and
  every other table in the same memory stays what it was.
\<close>

theorem uthash_refines:
  assumes "hash_rep h tp head ho" and "heap_ok h" and "hash_ok ho"
  shows "(\<forall>keyptr. HASH_FIND_mem h head keyptr = Some (Inr (case HASH_FIND ho keyptr of None \<Rightarrow> NULL | Some a \<Rightarrow> a)))
    \<and> (\<forall>keyptr add tp'. hash_room ho \<and> add \<noteq> NULL \<and> el_live h add \<and> add \<notin> set (hash_elts ho)
         \<and> tp' = (if ho = None then tbl_brk h else tp) \<longrightarrow>
         (\<exists>h' head'. HASH_ADD_KEYPTR h head keyptr add = Some (Inr (h', head')) \<and> heap_ok h'
            \<and> hash_rep h' tp' head' (HASH_ADD ho keyptr add)
            \<and> others_kept (insert add (set (hash_elts ho))) tp' h h'))
    \<and> (\<forall>delptr \<in> set (hash_elts ho). \<exists>h' head' ho'. HASH_DELETE_mem h head delptr = Inr (h', head')
         \<and> HASH_DELETE ho delptr = Inr ho' \<and> heap_ok h' \<and> hash_rep h' tp head' ho'
         \<and> others_kept (set (hash_elts ho)) tp h h')"
proof (intro conjI allI impI ballI, goal_cases)
  case (1 keyptr)
  then show ?case using HASH_FIND_mem_ok [OF assms(1,3)] .
next
  case (2 keyptr add tp')
  then have a: "hash_room ho" "add \<noteq> NULL" "el_live h add" "add \<notin> set (hash_elts ho)"
    and tp': "tp' = (if ho = None then tbl_brk h else tp)" by blast+
  from HASH_ADD_KEYPTR_ok [OF assms(1,2,3) a, of keyptr] show ?case
    unfolding tp' by (blast intro: keeps_others)
next
  case (3 delptr)
  then obtain t hh where t: "ho = Some t" "hh \<in> set (app t)" "delptr = hh_elt hh" "hash_elts ho = elts (app t)"
    by (auto simp: hash_elts_def split: option.splits)
  then have "tbl_rep h tp head t" "table_ok t" using assms by (simp_all add: hash_rep_def hash_ok_def)
  from HASH_DELETE_mem_ok [OF this(1) assms(2) this(2) t(2)] show ?case
    unfolding t(3,4) unfolding t(1) by (blast intro: keeps_others)
qed

text \<open>A memory with no table in it and a table with one element in it.\<close>

definition demo_heap :: uheap where
  "demo_heap = \<lparr>el_live = (\<lambda>a. a < 10), el_next = (\<lambda>_. 0), el_prev = (\<lambda>_. 0), el_hh_next = (\<lambda>_. 0), el_hh_prev = (\<lambda>_. 0),
     el_key = (\<lambda>_. []), el_hashv = (\<lambda>_. 0), el_tbl = (\<lambda>_. 0), tbls = Map.empty, tbl_brk = 1\<rparr>"

theorem uthash_refines_witness:
  "\<exists>h head. HASH_ADD_KEYPTR demo_heap NULL [7, 0, 0, 0] 5 = Some (Inr (h, head))
    \<and> HASH_FIND_mem h head [7, 0, 0, 0] = Some (Inr 5) \<and> (\<exists>h' head'. HASH_DELETE_mem h head 5 = Inr (h', head'))"
proof -
  let ?ho = "HASH_ADD None [7, 0, 0, 0] 5"
  have "hash_rep demo_heap 1 NULL None" "heap_ok demo_heap" by (simp_all add: hash_rep_def heap_ok_def demo_heap_def)
  from HASH_ADD_KEYPTR_ok [OF this, of 5 "[7, 0, 0, 0]"]
  obtain h head where h: "HASH_ADD_KEYPTR demo_heap NULL [7, 0, 0, 0] 5 = Some (Inr (h, head))" "heap_ok h" "hash_rep h 1 head ?ho"
    by (auto simp: demo_heap_def hash_ok_def hash_room_def hash_elts_def)
  have ho: "hash_ok ?ho" "hash_entries ?ho = [([7, 0, 0, 0], 5)]"
    using HASH_ADD_ok [of None 5 "[7, 0, 0, 0]"] by (simp_all add: hash_ok_def hash_room_def hash_entries_def)
  then have "HASH_FIND ?ho [7, 0, 0, 0] = Some 5" "5 \<in> set (hash_elts ?ho)"
    using ut.find_map_of [OF ho(1)] by (simp_all add: hash_elts_entries)
  with uthash_refines [OF h(3,2) ho(1)] h(1) show ?thesis by fastforce
qed

end
