(* ===== verification/Fsck.thy ===== *)
theory Fsck
  imports Uthash_Mem
begin

text \<open>
  \<^verbatim>\<open>HASH_FSCK\<close>, the integrity check that a build with \<^verbatim>\<open>HASH_DEBUG\<close> makes after every change of a table: it walks every
  chain and the list of all items, compares every back pointer with the element it came from, and
  compares what it counted with the counters.
\<close>

section \<open>The check\<close>

text \<open>
  The two \<^verbatim>\<open>while (_thh)\<close> loops, over the fields \<open>nx\<close> and \<open>pv\<close>.  The result \<open>None\<close> stands for \<^verbatim>\<open>HASH_OOPS\<close>, which
  ends the process.
\<close>

partial_function (option) fsck_walk ::
  "uheap \<Rightarrow> (addr \<Rightarrow> addr) \<Rightarrow> (addr \<Rightarrow> addr) \<Rightarrow> addr \<Rightarrow> addr \<Rightarrow> u32 \<Rightarrow> u32 option res option" where
  "fsck_walk h nx pv prev thh n =
     (if thh = NULL then Some (Inr (Some n))
      else case elt h thh (pv thh) of
        Inl e \<Rightarrow> Some (Inl e)
      | Inr p \<Rightarrow> if prev \<noteq> p then Some (Inr None) else fsck_walk h nx pv thh (nx thh) (n + 1))"

fun fsck_buckets :: "uheap \<Rightarrow> ptable \<Rightarrow> nat list \<Rightarrow> u32 \<Rightarrow> u32 option res option" where
  "fsck_buckets h t [] n = Some (Inr (Some n))"
| "fsck_buckets h t (i # is) n =
     obind (Some (bucket_at t i)) (\<lambda>b.
     obind (fsck_walk h (el_hh_next h) (el_hh_prev h) NULL (hh_head b) 0) (\<lambda>r. case r of
       None \<Rightarrow> Some (Inr None)
     | Some bkt_count \<Rightarrow>
         if pb_count b \<noteq> bkt_count then Some (Inr None) else fsck_buckets h t is (n + bkt_count)))"

definition HASH_FSCK :: "uheap \<Rightarrow> addr \<Rightarrow> bool res option" where
  "HASH_FSCK h head =
     (if head = NULL then Some (Inr True)
      else obind (Some (tbl_of h head)) (\<lambda>(tp, t).
           obind (fsck_buckets h t [0..<unat (pt_num_buckets t)] 0) (\<lambda>r. case r of
             None \<Rightarrow> Some (Inr False)
           | Some n \<Rightarrow> if n \<noteq> pt_num_items t then Some (Inr False)
             else obind (fsck_walk h (el_next h) (el_prev h) NULL head 0) (\<lambda>r. case r of
                    None \<Rightarrow> Some (Inr False)
                  | Some n \<Rightarrow> Some (Inr (n = pt_num_items t))))))"

section \<open>Walking a list\<close>

definition live_seg :: "uheap \<Rightarrow> (addr \<Rightarrow> addr) \<Rightarrow> (addr \<Rightarrow> addr) \<Rightarrow> addr \<Rightarrow> addr \<Rightarrow> addr list \<Rightarrow> addr \<Rightarrow> bool" where
  "live_seg h nx pv r p as q \<longleftrightarrow> dseg nx pv r p as q \<and> (\<forall>a \<in> set as. el_live h a)"

lemma walk_complete:
  "live_seg h nx pv r p as NULL \<Longrightarrow> fsck_walk h nx pv r p n = Some (Inr (Some (n + of_nat (length as))))"
proof (induction as arbitrary: r p n)
  case Nil
  then show ?case by (simp add: fsck_walk.simps live_seg_def)
next
  case (Cons a as)
  then show ?case by (simp add: fsck_walk.simps [of h nx pv r] live_seg_def elt_def add.assoc)
qed

lemma walk_sound:
  assumes "fsck_walk h nx pv r p n = Some (Inr (Some m))"
  shows "\<exists>as. live_seg h nx pv r p as NULL \<and> m = n + of_nat (length as)"
proof -
  define P where "P = (\<lambda>h nx pv r p n (res :: u32 option res). \<forall>m. res = Inr (Some m) \<longrightarrow>
    (\<exists>as. live_seg h nx pv r p as NULL \<and> m = n + of_nat (length as)))"
  have "P h nx pv r p n (Inr (Some m))"
  proof (rule fsck_walk.raw_induct [where P = P, OF _ assms])
    fix walk h nx pv r p n res
    assume IH: "\<And>h nx pv r p n res. walk h nx pv r p n = Some res \<Longrightarrow> P h nx pv r p n res"
      and run: "(if p = NULL then Some (Inr (Some n)) else case elt h p (pv p) of Inl e \<Rightarrow> Some (Inl e)
        | Inr q \<Rightarrow> if r \<noteq> q then Some (Inr None) else walk h nx pv p (nx p) (n + 1)) = Some res"
    show "P h nx pv r p n res"
      unfolding P_def
    proof (intro allI impI)
      fix m assume res: "res = Inr (Some m)"
      show "\<exists>as. live_seg h nx pv r p as NULL \<and> m = n + of_nat (length as)"
      proof (cases "p = NULL")
        case True
        then show ?thesis using run res by (intro exI [of _ "[]"]) (simp add: live_seg_def)
      next
        case False
        then have step: "el_live h p" "pv p = r" "walk h nx pv p (nx p) (n + 1) = Some res"
          using run res by (auto simp: elt_def split: if_splits)
        from IH [OF step(3)] res obtain as where "live_seg h nx pv p (nx p) as NULL" "m = n + 1 + of_nat (length as)"
          unfolding P_def by blast
        then show ?thesis using False step(1,2) by (intro exI [of _ "p # as"]) (simp add: live_seg_def)
      qed
    qed
  qed
  then show ?thesis unfolding P_def by blast
qed

text \<open>
  A list whose back pointers are right up to some point has no element twice up to there: the walk
  cannot go round in circles, so it ends on every memory.
\<close>

lemma dseg_snoc_distinct: "dseg nx pv NULL p as q \<Longrightarrow> distinct as"
proof (induction as arbitrary: q rule: rev_induct)
  case Nil
  then show ?case by simp
next
  case (snoc b as)
  then have seg: "dseg nx pv NULL p as b" and b: "pv b = last (NULL # as)" by (simp_all add: dseg_last)
  then have d: "distinct as" using snoc.IH by blast
  have "b \<notin> set as"
  proof
    assume "b \<in> set as"
    then obtain us vs where as: "as = us @ b # vs" by (auto simp: in_set_conv_decomp)
    then have "pv b = last (NULL # us)" using seg by (simp add: dseg_middle)
    then have eq: "last (NULL # us) = last (b # vs)" using b as by simp
    have "last (b # vs) \<in> set (b # vs)" by (rule last_in_set) simp
    moreover have "last (NULL # us) \<in> insert NULL (set us)" using last_in_set [of "NULL # us"] by simp
    moreover have "NULL \<notin> set as" using dseg_nonnull [OF seg] .
    ultimately show False using eq d as by auto
  qed
  then show ?case using d by simp
qed

lemma walk_returns:
  assumes "finite {a. el_live h a}" and "live_seg h nx pv NULL p0 as p"
  shows "\<exists>r. fsck_walk h nx pv (last (NULL # as)) p n = Some r"
  using assms(2)
proof (induction "card {a. el_live h a} - length as" arbitrary: as p n rule: less_induct)
  case less
  show ?case
  proof (cases "p \<noteq> NULL \<and> el_live h p \<and> pv p = last (NULL # as)")
    case True
    then have seg: "live_seg h nx pv NULL p0 (as @ [p]) (nx p)" using less.prems by (simp add: live_seg_def dseg_last)
    have "distinct (as @ [p])" using seg unfolding live_seg_def by (blast intro: dseg_snoc_distinct)
    moreover have "set (as @ [p]) \<subseteq> {a. el_live h a}" using seg by (auto simp: live_seg_def)
    ultimately have "length (as @ [p]) \<le> card {a. el_live h a}" using assms(1) by (metis card_mono distinct_card)
    then have "\<exists>r. fsck_walk h nx pv (last (NULL # as @ [p])) (nx p) (n + 1) = Some r"
      using less.hyps [OF _ seg] by simp
    then show ?thesis using True by (simp add: fsck_walk.simps [of h nx pv _ p] elt_def)
  next
    case False
    then show ?thesis by (auto simp: fsck_walk.simps [of h nx pv _ p] elt_def)
  qed
qed

section \<open>All chains\<close>

definition bucket_wf :: "uheap \<Rightarrow> pbucket \<Rightarrow> addr list \<Rightarrow> bool" where
  "bucket_wf h b cs \<longleftrightarrow> live_seg h (el_hh_next h) (el_hh_prev h) NULL (hh_head b) cs NULL \<and> pb_count b = of_nat (length cs)"

lemma buckets_iff:
  assumes "distinct is" and "\<forall>i \<in> set is. i < length (pt_buckets t)"
  shows "fsck_buckets h t is n = Some (Inr (Some m)) \<longleftrightarrow>
    (\<exists>css. (\<forall>i \<in> set is. bucket_wf h (pt_buckets t ! i) (css i)) \<and> m = n + (\<Sum>i\<leftarrow>is. of_nat (length (css i))))"
  using assms
proof (induction "is" arbitrary: n)
  case Nil
  then show ?case by auto
next
  case (Cons i "is")
  let ?b = "pt_buckets t ! i"
  let ?w = "fsck_walk h (el_hh_next h) (el_hh_prev h) NULL (hh_head ?b) 0"
  have i: "bucket_at t i = Inr ?b" using Cons.prems(2) by (simp add: bucket_at_def)
  have IH: "fsck_buckets h t is k = Some (Inr (Some m)) \<longleftrightarrow>
    (\<exists>css. (\<forall>i \<in> set is. bucket_wf h (pt_buckets t ! i) (css i)) \<and> m = k + (\<Sum>i\<leftarrow>is. of_nat (length (css i))))" for k
    using Cons by simp
  have "fsck_buckets h t (i # is) n = Some (Inr (Some m)) \<longleftrightarrow>
      ?w = Some (Inr (Some (pb_count ?b))) \<and> fsck_buckets h t is (n + pb_count ?b) = Some (Inr (Some m))"
    by (auto simp: i obind_def split: option.splits sum.splits)
  also have "?w = Some (Inr (Some (pb_count ?b))) \<longleftrightarrow> (\<exists>cs. bucket_wf h ?b cs)"
    using walk_sound [of h "el_hh_next h" "el_hh_prev h" NULL "hh_head ?b" 0 "pb_count ?b"]
      walk_complete [of h "el_hh_next h" "el_hh_prev h" NULL "hh_head ?b" _ 0] by (auto simp: bucket_wf_def)
  finally show ?case unfolding IH
  proof (rule trans, intro iffI)
    assume "(\<exists>cs. bucket_wf h ?b cs) \<and> (\<exists>css. (\<forall>i \<in> set is. bucket_wf h (pt_buckets t ! i) (css i))
        \<and> m = n + pb_count ?b + (\<Sum>i\<leftarrow>is. of_nat (length (css i))))"
    then obtain cs css where c: "bucket_wf h ?b cs" "\<forall>i \<in> set is. bucket_wf h (pt_buckets t ! i) (css i)"
      "m = n + pb_count ?b + (\<Sum>i\<leftarrow>is. of_nat (length (css i)))" by blast
    have ni: "i \<notin> set is" using Cons.prems(1) by simp
    then have "(\<Sum>j\<leftarrow>is. of_nat (length (if j = i then cs else css j)) :: u32) = (\<Sum>j\<leftarrow>is. of_nat (length (css j)))"
      by (intro arg_cong [where f = sum_list] map_cong) auto
    then show "\<exists>css. (\<forall>i \<in> set (i # is). bucket_wf h (pt_buckets t ! i) (css i)) \<and> m = n + (\<Sum>i\<leftarrow>i # is. of_nat (length (css i)))"
      using c ni by (intro exI [of _ "css(i := cs)"]) (auto simp: bucket_wf_def add.assoc)
  next
    assume "\<exists>css. (\<forall>i \<in> set (i # is). bucket_wf h (pt_buckets t ! i) (css i)) \<and> m = n + (\<Sum>i\<leftarrow>i # is. of_nat (length (css i)))"
    then obtain css where "bucket_wf h ?b (css i)" "\<forall>i \<in> set is. bucket_wf h (pt_buckets t ! i) (css i)"
        "m = n + (of_nat (length (css i)) + (\<Sum>i\<leftarrow>is. of_nat (length (css i))))" by auto
    then show "(\<exists>cs. bucket_wf h ?b cs) \<and> (\<exists>css. (\<forall>i \<in> set is. bucket_wf h (pt_buckets t ! i) (css i))
        \<and> m = n + pb_count ?b + (\<Sum>i\<leftarrow>is. of_nat (length (css i))))"
      by (auto simp: bucket_wf_def add.assoc)
  qed
qed

lemma buckets_return:
  assumes "finite {a. el_live h a}"
  shows "\<exists>r. fsck_buckets h t is n = Some r"
proof (induction "is" arbitrary: n)
  case (Cons i "is")
  have w: "fsck_walk h (el_hh_next h) (el_hh_prev h) NULL p 0 \<noteq> None" for p
    using walk_returns [OF assms, of "el_hh_next h" "el_hh_prev h" p "[]" p 0] by (auto simp: live_seg_def)
  then show ?case using Cons by (auto simp: obind_def split: option.splits sum.splits dest: w [THEN notE])
qed simp

section \<open>What the check decides\<close>

text \<open>A table as \<^verbatim>\<open>HASH_FSCK\<close> wants it: every chain and the list of all items, with live elements and the right counts.\<close>

definition fsck_wf :: "uheap \<Rightarrow> addr \<Rightarrow> ptable \<Rightarrow> bool" where
  "fsck_wf h head t \<longleftrightarrow>
     (\<exists>css as. (\<forall>i < length (pt_buckets t). bucket_wf h (pt_buckets t ! i) (css i))
        \<and> (\<Sum>i\<leftarrow>[0..<length (pt_buckets t)]. of_nat (length (css i))) = pt_num_items t
        \<and> live_seg h (el_next h) (el_prev h) NULL head as NULL \<and> of_nat (length as) = pt_num_items t)"

lemma fsck_iff:
  assumes "head \<noteq> NULL" and "tbl_of h head = Inr (tp, t)" and "unat (pt_num_buckets t) = length (pt_buckets t)"
  shows "HASH_FSCK h head = Some (Inr True) \<longleftrightarrow> fsck_wf h head t"
proof -
  let ?is = "[0..<length (pt_buckets t)]" and ?w = "fsck_walk h (el_next h) (el_prev h) NULL head 0"
  have "HASH_FSCK h head = Some (Inr True) \<longleftrightarrow>
      fsck_buckets h t ?is 0 = Some (Inr (Some (pt_num_items t))) \<and> ?w = Some (Inr (Some (pt_num_items t)))"
    using assms by (auto simp: HASH_FSCK_def obind_def split: option.splits sum.splits)
  also have "fsck_buckets h t ?is 0 = Some (Inr (Some (pt_num_items t))) \<longleftrightarrow>
      (\<exists>css. (\<forall>i < length (pt_buckets t). bucket_wf h (pt_buckets t ! i) (css i)) \<and> (\<Sum>i\<leftarrow>?is. of_nat (length (css i))) = pt_num_items t)"
    by (subst buckets_iff) (simp_all add: Ball_def eq_commute [of "pt_num_items t"])
  also have "?w = Some (Inr (Some (pt_num_items t))) \<longleftrightarrow>
      (\<exists>as. live_seg h (el_next h) (el_prev h) NULL head as NULL \<and> of_nat (length as) = pt_num_items t)"
  proof
    assume "?w = Some (Inr (Some (pt_num_items t)))"
    from walk_sound [OF this] show "\<exists>as. live_seg h (el_next h) (el_prev h) NULL head as NULL \<and> of_nat (length as) = pt_num_items t"
      by auto
  next
    assume "\<exists>as. live_seg h (el_next h) (el_prev h) NULL head as NULL \<and> of_nat (length as) = pt_num_items t"
    then show "?w = Some (Inr (Some (pt_num_items t)))" using walk_complete [where n = 0] by fastforce
  qed
  finally show ?thesis unfolding fsck_wf_def by blast
qed

lemma fsck_returns:
  assumes "finite {a. el_live h a}"
  shows "\<exists>r. HASH_FSCK h head = Some r"
proof -
  have w: "fsck_walk h (el_next h) (el_prev h) NULL head 0 \<noteq> None"
    using walk_returns [OF assms, of "el_next h" "el_prev h" head "[]" head 0] by (auto simp: live_seg_def)
  have b: "fsck_buckets h t is 0 \<noteq> None" for t "is" using buckets_return [OF assms, of t "is" 0] by auto
  show ?thesis using w b by (auto simp: HASH_FSCK_def obind_def split: option.splits sum.splits dest: b [THEN notE])
qed

text \<open>The tables that insertion and deletion leave in memory pass.\<close>

lemma of_nat_sum_list: "of_nat (sum_list xs) = sum_list (map of_nat xs)"
  by (induction xs) simp_all

lemma table_chains:
  assumes "tbl_at h tp t tle" and "table_ok t" and "tbls h tp = Some pt"
  shows "fsck_buckets h pt [0..<unat (pt_num_buckets pt)] 0 = Some (Inr (Some (pt_num_items pt)))"
    and "pt_num_items pt = of_nat (length (app t))"
proof -
  have R: "list_all2 (chain_rep (el_hh_next h) (el_hh_prev h)) (pt_buckets pt) (buckets t)" and C: "counters_rep pt t"
    and live: "\<forall>a \<in> set (elts (app t)). el_live h a"
    using assms by (auto simp: tbl_at_def stored_def)
  have ok: "chains_ok (buckets t) (num_buckets t) (mset (app t))" "num_items t = of_nat (length (app t))"
    using assms(2) by (simp_all add: table_ok_def)
  have len: "length (pt_buckets pt) = length (buckets t)" using R by (rule list_all2_lengthD)
  let ?css = "\<lambda>i. elts (bk_chain (buckets t ! i))"
  have "bucket_wf h (pt_buckets pt ! i) (?css i)" if i: "i < length (pt_buckets pt)" for i
  proof -
    have "set (?css i) \<subseteq> set (elts (app t))"
      using chain_elts_nth [of i "buckets t"] table_ok_chain_elts [OF assms(2)] i len by auto
    then show ?thesis using list_all2_nthD [OF R i] live ok(1) i len
      by (auto simp: bucket_wf_def live_seg_def chain_rep_def chains_ok_def)
  qed
  moreover have "(\<Sum>i\<leftarrow>[0..<length (pt_buckets pt)]. of_nat (length (?css i))) = pt_num_items pt"
  proof -
    have "(\<Sum>i\<leftarrow>[0..<length (pt_buckets pt)]. length (?css i)) = sum_list (map (\<lambda>b. length (bk_chain b)) (buckets t))"
      unfolding len by (metis (no_types, lifting) length_map map_nth map_map o_def map_eq_conv)
    also have "\<dots> = length (concat (map bk_chain (buckets t)))" by (simp add: length_concat o_def)
    also have "\<dots> = length (app t)" using ok(1) by (metis chains_ok_def size_mset)
    finally have "(of_nat (\<Sum>i\<leftarrow>[0..<length (pt_buckets pt)]. length (?css i)) :: u32) = of_nat (length (app t))" by simp
    then show ?thesis using ok(2) C by (simp add: counters_rep_def of_nat_sum_list o_def)
  qed
  ultimately have "fsck_buckets h pt [0..<length (pt_buckets pt)] 0 = Some (Inr (Some (pt_num_items pt)))"
    by (subst buckets_iff) (auto intro!: exI [of _ ?css])
  moreover have "unat (pt_num_buckets pt) = length (pt_buckets pt)" using len ok(1) C by (simp add: chains_ok_def counters_rep_def)
  ultimately show "fsck_buckets h pt [0..<unat (pt_num_buckets pt)] 0 = Some (Inr (Some (pt_num_items pt)))" by simp
  show "pt_num_items pt = of_nat (length (app t))" using ok(2) C by (simp add: counters_rep_def)
qed

lemma tbl_at_of:
  assumes "tbl_at h tp t tle" and "head \<in> set (elts (app t))"
  obtains pt where "tbls h tp = Some pt" "tbl_of h head = Inr (tp, pt)" "counters_rep pt t" "pt_tail pt = tle" "head \<noteq> NULL"
proof -
  obtain pt where pt: "tbls h tp = Some pt" "tp \<noteq> NULL" "counters_rep pt t" "pt_tail pt = tle"
    using assms(1) by (auto simp: tbl_at_def split: option.splits)
  have head: "head \<noteq> NULL" "el_live h head" "el_tbl h head = tp" using assms by (auto simp: tbl_at_def stored_def)
  then have "tbl_of h head = Inr (tp, pt)" using pt by (intro tbl_of_ok)
  with that pt(1,3,4) head(1) show thesis by blast
qed

text \<open>With intact chains the verdict is about the list alone.\<close>

lemma fsck_list:
  assumes "tbl_at h tp t tle" and "table_ok t" and "head \<in> set (elts (app t))"
    and "live_seg h (el_next h) (el_prev h) NULL head as NULL"
  shows "HASH_FSCK h head = Some (Inr ((of_nat (length as) :: u32) = of_nat (length (app t))))"
proof -
  from tbl_at_of [OF assms(1,3)] obtain pt where pt: "tbls h tp = Some pt" "tbl_of h head = Inr (tp, pt)" "head \<noteq> NULL" .
  then show ?thesis using table_chains [OF assms(1,2) pt(1)] walk_complete [OF assms(4), of 0]
    by (simp add: HASH_FSCK_def)
qed

lemma fsck_accepts_at:
  assumes "tbl_at h tp t tle" and "table_ok t" and app: "dseg (el_next h) (el_prev h) NULL head (elts (app t)) NULL"
  shows "HASH_FSCK h head = Some (Inr True)"
proof -
  have t: "app t \<noteq> []" "\<forall>a \<in> set (elts (app t)). el_live h a" using assms(1) by (auto simp: tbl_at_def stored_def)
  then have "head \<in> set (elts (app t))" using app by (cases "app t") auto
  from fsck_list [OF assms(1,2) this, of "elts (app t)"] app t(2) show ?thesis by (simp add: live_seg_def)
qed

lemma fsck_accepts:
  assumes "hash_rep h tp head ho" and "hash_ok ho"
  shows "HASH_FSCK h head = Some (Inr True)"
proof (cases ho)
  case None
  then show ?thesis using assms by (simp add: hash_rep_def HASH_FSCK_def)
next
  case (Some t)
  then show ?thesis using assms fsck_accepts_at [of h tp t "last (elts (app t))" head] by (simp add: hash_rep_def hash_ok_def tbl_rep_at)
qed

text \<open>
  C11: \<^verbatim>\<open>HASH_FSCK\<close> decides whether a table is well-formed.  On any memory with finitely many elements, however damaged,
  it returns; it passes exactly if every chain and the list of all items are doubly linked lists of live elements that
  end, each bucket's count is the length of its chain, and the lengths add up to the number of items.  And
  it passes on every table that insertions and deletions leave in the memory.
\<close>

theorem fsck_decides:
  assumes "finite {a. el_live h a}"
  shows "(\<exists>r. HASH_FSCK h head = Some r)
    \<and> (head \<noteq> NULL \<and> tbl_of h head = Inr (tp, t) \<and> unat (pt_num_buckets t) = length (pt_buckets t) \<longrightarrow>
         (HASH_FSCK h head = Some (Inr True) \<longleftrightarrow> fsck_wf h head t))
    \<and> (hash_rep h tp head ho \<and> hash_ok ho \<longrightarrow> HASH_FSCK h head = Some (Inr True))"
  using fsck_returns [OF assms] fsck_iff fsck_accepts by blast

theorem fsck_decides_witness:
  "\<exists>h head. HASH_ADD_KEYPTR demo_heap NULL [7, 0, 0, 0] 5 = Some (Inr (h, head)) \<and> HASH_FSCK h head = Some (Inr True)"
proof -
  let ?ho = "HASH_ADD None [7, 0, 0, 0] 5"
  have "hash_rep demo_heap 1 NULL None" "heap_ok demo_heap" by (simp_all add: hash_rep_def heap_ok_def demo_heap_def)
  from HASH_ADD_KEYPTR_ok [OF this, of 5 "[7, 0, 0, 0]"]
  obtain h head where h: "HASH_ADD_KEYPTR demo_heap NULL [7, 0, 0, 0] 5 = Some (Inr (h, head))" "hash_rep h 1 head ?ho" "el_live h = el_live demo_heap"
    by (auto simp: demo_heap_def hash_ok_def hash_room_def hash_elts_def keeps_def)
  have "hash_ok ?ho" using HASH_ADD_ok [of None 5 "[7, 0, 0, 0]"] by (simp add: hash_ok_def hash_room_def hash_entries_def)
  moreover have "finite {a. el_live h a}" using h(3) by (simp add: demo_heap_def)
  ultimately show ?thesis using fsck_decides [of h head 1 _ ?ho] h(1,2) by blast
qed

end
