(* ===== verification/Merge_Sort.thy ===== *)
theory Merge_Sort
  imports Dlists "HOL-Library.Sorting_Algorithms"
begin

text \<open>
  The bottom-up merge sort that \<^verbatim>\<open>LL_SORT2\<close>, \<^verbatim>\<open>DL_SORT2\<close> and \<^verbatim>\<open>CDL_SORT2\<close> of \<^verbatim>\<open>utlist.h\<close> and \<^verbatim>\<open>HASH_SRT\<close> of
  \<^verbatim>\<open>uthash.h\<close> have in common.  The four macros are the same text up to how the successor is read, how an
  element is linked behind the last one, what is written when a pass is over, and the type of the
  run length; these four are the fields of \<open>sort_ops\<close>.  The comparison function is a comparator: \<open>Greater\<close>
  stands for a positive result.
\<close>

section \<open>The template\<close>

record 'm sort_ops =
  so_next :: "addr \<Rightarrow> 'm \<Rightarrow> addr \<Rightarrow> addr res"
  so_link :: "'m \<Rightarrow> addr \<Rightarrow> addr \<Rightarrow> 'm res"
  so_finish :: "'m \<Rightarrow> addr \<Rightarrow> addr \<Rightarrow> 'm res"
  so_double :: "nat \<Rightarrow> nat res"

text \<open>\<^verbatim>\<open>for (i = 0; i < insize; i++) { psize++; q = q->next; if (!q) break; }\<close>\<close>

fun count_run :: "'m sort_ops \<Rightarrow> addr \<Rightarrow> 'm \<Rightarrow> nat \<Rightarrow> addr \<Rightarrow> nat \<Rightarrow> (addr \<times> nat) res" where
  "count_run ops oldhead m 0 q psize = Inr (q, psize)"
| "count_run ops oldhead m (Suc i) q psize =
     rbind (so_next ops oldhead m q) (\<lambda>q.
       if q = NULL then Inr (q, Suc psize) else count_run ops oldhead m i q (Suc psize))"

text \<open>\<^verbatim>\<open>while (psize > 0 || (qsize > 0 && q))\<close>: the element that comes next is taken from one of the runs.\<close>

function merge_runs :: "'m sort_ops \<Rightarrow> addr comparator \<Rightarrow> addr \<Rightarrow> 'm \<Rightarrow> addr \<Rightarrow> nat \<Rightarrow> addr \<Rightarrow> nat \<Rightarrow> addr \<Rightarrow> addr
    \<Rightarrow> ('m \<times> addr \<times> addr \<times> addr) res" where
  "merge_runs ops cmp oldhead m p psize q qsize lst tail =
     (if psize = 0 \<and> (qsize = 0 \<or> q = NULL) then Inr (m, q, lst, tail)
      else let from_q = (if psize = 0 then True else if qsize = 0 \<or> q = NULL then False else compare cmp p q = Greater);
               e = (if from_q then q else p)
           in rbind (so_next ops oldhead m e) (\<lambda>n.
              rbind (so_link ops m tail e) (\<lambda>m.
                let lst = (if tail = NULL then e else lst)
                in if from_q then merge_runs ops cmp oldhead m p psize n (qsize - 1) lst e
                   else merge_runs ops cmp oldhead m n (psize - 1) q qsize lst e)))"
  by pat_completeness auto
termination
  by (relation "measure (\<lambda>(ops, cmp, oldhead, m, p, psize, q, qsize, lst, tail). psize + qsize)")
    (auto split: if_splits)

declare merge_runs.simps [simp del]

text \<open>\<^verbatim>\<open>while (p)\<close>: one pass over the list.\<close>

partial_function (option) pass_loop :: "'m sort_ops \<Rightarrow> addr comparator \<Rightarrow> addr \<Rightarrow> nat \<Rightarrow> 'm \<Rightarrow> addr \<Rightarrow> addr \<Rightarrow> addr \<Rightarrow> nat
    \<Rightarrow> ('m \<times> addr \<times> addr \<times> nat) res option" where
  "pass_loop ops cmp oldhead insize m p lst tail nmerges =
     (if p = NULL then Some (Inr (m, lst, tail, nmerges))
      else case rbind (count_run ops oldhead m insize p 0) (\<lambda>(q, psize).
                  merge_runs ops cmp oldhead m p psize q insize lst tail) of
        Inl e \<Rightarrow> Some (Inl e)
      | Inr (m', q, lst', tail') \<Rightarrow> pass_loop ops cmp oldhead insize m' q lst' tail' (Suc nmerges))"

text \<open>\<^verbatim>\<open>while (looping)\<close>: passes with runs of doubled length.\<close>

partial_function (option) sort_loop :: "'m sort_ops \<Rightarrow> addr comparator \<Rightarrow> 'm \<Rightarrow> addr \<Rightarrow> nat \<Rightarrow> ('m \<times> addr \<times> addr) res option" where
  "sort_loop ops cmp m lst insize =
     (case pass_loop ops cmp lst insize m lst NULL NULL 0 of
        None \<Rightarrow> None
      | Some (Inl e) \<Rightarrow> Some (Inl e)
      | Some (Inr (m', lst', tail, nmerges)) \<Rightarrow>
          (case rbind (so_finish ops m' lst' tail) (\<lambda>m''. rbind (so_double ops insize) (\<lambda>n. Inr (m'', n))) of
             Inl e \<Rightarrow> Some (Inl e)
           | Inr (m'', insize') \<Rightarrow>
               if nmerges \<le> 1 then Some (Inr (m'', lst', tail)) else sort_loop ops cmp m'' lst' insize'))"

text \<open>The memory, the first and the last element of the sorted list.\<close>

definition list_sort :: "'m sort_ops \<Rightarrow> addr comparator \<Rightarrow> 'm \<Rightarrow> addr \<Rightarrow> ('m \<times> addr \<times> addr) res option" where
  "list_sort ops cmp m lst = (if lst = NULL then Some (Inr (m, lst, NULL)) else sort_loop ops cmp m lst 1)"

section \<open>Passes over lists\<close>

abbreviation merge_by :: "addr comparator \<Rightarrow> addr list \<Rightarrow> addr list \<Rightarrow> addr list" where
  "merge_by \<equiv> Sorting_Algorithms.merge"

function pass :: "addr comparator \<Rightarrow> nat \<Rightarrow> addr list \<Rightarrow> addr list" where
  "pass cmp k xs = (if xs = [] \<or> k = 0 then xs
     else merge_by cmp (take k xs) (take k (drop k xs)) @ pass cmp k (drop (2 * k) xs))"
  by pat_completeness auto
termination by (relation "measure (\<lambda>(cmp, k, xs). length xs)") auto

declare pass.simps [simp del]

definition runs :: "addr comparator \<Rightarrow> nat \<Rightarrow> addr list \<Rightarrow> bool" where
  "runs cmp k xs \<longleftrightarrow> (\<forall>i. Sorting_Algorithms.sorted cmp (take k (drop (i * k) xs)))"

lemma runs_step: "runs cmp k xs \<longleftrightarrow> Sorting_Algorithms.sorted cmp (take k xs) \<and> runs cmp k (drop k xs)"
proof
  assume r: "runs cmp k xs"
  have "Sorting_Algorithms.sorted cmp (take k (drop (Suc i * k) xs))" for i using r unfolding runs_def ..
  moreover have "Sorting_Algorithms.sorted cmp (take k (drop (0 * k) xs))" using r unfolding runs_def ..
  ultimately show "Sorting_Algorithms.sorted cmp (take k xs) \<and> runs cmp k (drop k xs)" by (simp add: runs_def add.commute)
next
  assume r: "Sorting_Algorithms.sorted cmp (take k xs) \<and> runs cmp k (drop k xs)"
  have "Sorting_Algorithms.sorted cmp (take k (drop (i * k) xs))" for i
    using r by (cases i) (simp_all add: runs_def add.commute)
  then show "runs cmp k xs" by (simp add: runs_def)
qed

lemma runs_one: "runs cmp 1 xs"
  unfolding runs_def
proof
  fix i
  show "Sorting_Algorithms.sorted cmp (take 1 (drop (i * 1) xs))" by (cases "drop i xs") auto
qed

lemma length_merge_by: "length (merge_by cmp xs ys) = length xs + length ys"
  by (metis mset_append mset_merge size_mset length_append)

lemma mset_pass: "mset (pass cmp k xs) = mset xs"
proof (induction cmp k xs rule: pass.induct)
  case (1 cmp k xs)
  show ?case
  proof (cases "xs = [] \<or> k = 0")
    case True
    then show ?thesis by (simp add: pass.simps [of cmp k xs])
  next
    case False
    have "xs = take k xs @ take k (drop k xs) @ drop (2 * k) xs"
      by (metis append_take_drop_id drop_drop mult_2)
    then have "mset xs = mset (take k xs) + mset (take k (drop k xs)) + mset (drop (2 * k) xs)" by (metis mset_append union_assoc)
    then show ?thesis using 1 False by (simp add: pass.simps [of cmp k xs] mset_merge)
  qed
qed

lemma length_pass: "length (pass cmp k xs) = length xs"
  using mset_pass by (metis size_mset)

lemma pass_runs: "0 < k \<Longrightarrow> runs cmp k xs \<Longrightarrow> runs cmp (2 * k) (pass cmp k xs)"
proof (induction "length xs" arbitrary: xs rule: less_induct)
  case less
  show ?case
  proof (cases "xs = []")
    case True
    then show ?thesis by (simp add: pass.simps runs_def)
  next
    case False
    let ?a = "take k xs" and ?b = "take k (drop k xs)"
    have s: "Sorting_Algorithms.sorted cmp ?a" "Sorting_Algorithms.sorted cmp ?b" "runs cmp k (drop (2 * k) xs)"
      using less.prems runs_step [of cmp k xs] runs_step [of cmp k "drop k xs"] by (simp_all add: mult_2)
    have p: "pass cmp k xs = merge_by cmp ?a ?b @ pass cmp k (drop (2 * k) xs)" using False less.prems(1) by (simp add: pass.simps [of cmp k xs])
    have IH: "runs cmp (2 * k) (pass cmp k (drop (2 * k) xs))" using less False s(3) by simp
    have len: "length (merge_by cmp ?a ?b) = min (2 * k) (length xs)" by (simp add: length_merge_by)
    show ?thesis
    proof (cases "2 * k \<le> length xs")
      case True
      then have "take (2 * k) (pass cmp k xs) = merge_by cmp ?a ?b" "drop (2 * k) (pass cmp k xs) = pass cmp k (drop (2 * k) xs)"
        using p len by simp_all
      then show ?thesis using runs_step [of cmp "2 * k" "pass cmp k xs"] IH sorted_merge [OF s(1,2)] by simp
    next
      case short: False
      then have "pass cmp k xs = merge_by cmp ?a ?b" using p by (simp add: pass.simps)
      then show ?thesis
        using runs_step [of cmp "2 * k" "pass cmp k xs"] sorted_merge [OF s(1,2)] len short by (simp add: runs_def)
    qed
  qed
qed

lemma pass_stable: "0 < k \<Longrightarrow> runs cmp k xs \<Longrightarrow> stable_segment cmp x (pass cmp k xs) = stable_segment cmp x xs"
proof (induction "length xs" arbitrary: xs rule: less_induct)
  case less
  show ?case
  proof (cases "xs = []")
    case True
    then show ?thesis by (simp add: pass.simps)
  next
    case False
    let ?a = "take k xs" and ?b = "take k (drop k xs)"
    have s: "Sorting_Algorithms.sorted cmp ?a" "Sorting_Algorithms.sorted cmp ?b" "runs cmp k (drop (2 * k) xs)"
      using less.prems runs_step [of cmp k xs] runs_step [of cmp k "drop k xs"] by (simp_all add: mult_2)
    have p: "pass cmp k xs = merge_by cmp ?a ?b @ pass cmp k (drop (2 * k) xs)" using False less.prems(1) by (simp add: pass.simps [of cmp k xs])
    have "xs = ?a @ ?b @ drop (2 * k) xs" by (metis append_take_drop_id drop_drop mult_2)
    then have "stable_segment cmp x xs = stable_segment cmp x ?a @ stable_segment cmp x ?b @ stable_segment cmp x (drop (2 * k) xs)"
      by (metis filter_append)
    moreover have "stable_segment cmp x (merge_by cmp ?a ?b) = stable_segment cmp x ?a @ stable_segment cmp x ?b"
      using filter_merge [OF s(1,2)] merge_stable_segments by metis
    moreover have "stable_segment cmp x (pass cmp k (drop (2 * k) xs)) = stable_segment cmp x (drop (2 * k) xs)"
      using less False s(3) by simp
    ultimately show ?thesis using p by simp
  qed
qed

lemma pass_sort: "0 < k \<Longrightarrow> runs cmp k xs \<Longrightarrow> Sorting_Algorithms.sort cmp (pass cmp k xs) = Sorting_Algorithms.sort cmp xs"
  by (rule sort_eqI [symmetric, THEN sym]) (auto simp: mset_pass pass_stable stable_sort)

lemma pass_done:
  assumes "0 < k" and "runs cmp k xs" and "length xs \<le> 2 * k"
  shows "pass cmp k xs = Sorting_Algorithms.sort cmp xs"
proof -
  have "runs cmp (2 * k) (pass cmp k xs)" using assms(1,2) by (rule pass_runs)
  then have "Sorting_Algorithms.sorted cmp (pass cmp k xs)" using runs_step [of cmp "2 * k" "pass cmp k xs"] assms(3) by (simp add: length_pass)
  then have "Sorting_Algorithms.sort cmp xs = pass cmp k xs" by (intro sort_eqI) (simp_all add: mset_pass pass_stable [OF assms(1,2)])
  then show ?thesis by simp
qed

section \<open>The interface of a memory that can be sorted\<close>

text \<open>
  \<open>nx oh m\<close> are the successors the template reads in a pass that started at \<open>oh\<close>; \<open>out m os\<close>: the elements
  \<open>os\<close> are linked, except for what follows the last one; \<open>rep m head xs\<close>: a list as the user sees it.
\<close>

locale sort_memory =
  fixes ops :: "'m sort_ops"
    and live :: "'m \<Rightarrow> addr \<Rightarrow> bool"
    and nx :: "addr \<Rightarrow> 'm \<Rightarrow> addr \<Rightarrow> addr"
    and out :: "'m \<Rightarrow> addr list \<Rightarrow> bool"
    and rep :: "'m \<Rightarrow> addr \<Rightarrow> addr list \<Rightarrow> bool"
  assumes next_ok: "a \<noteq> NULL \<Longrightarrow> live m a \<Longrightarrow> so_next ops oh m a = Inr (nx oh m a)"
    and link_ok: "out m os \<Longrightarrow> distinct (os @ [e]) \<Longrightarrow> NULL \<notin> set (os @ [e]) \<Longrightarrow> \<forall>x \<in> set (os @ [e]). live m x \<Longrightarrow>
      \<exists>m'. so_link ops m (last (NULL # os)) e = Inr m' \<and> out m' (os @ [e]) \<and> live m' = live m
        \<and> (\<forall>oh x. x \<notin> set os \<longrightarrow> nx oh m' x = nx oh m x)"
    and finish_ok: "out m os \<Longrightarrow> os \<noteq> [] \<Longrightarrow> distinct os \<Longrightarrow> NULL \<notin> set os \<Longrightarrow> \<forall>x \<in> set os. live m x \<Longrightarrow>
      \<exists>m'. so_finish ops m (hd os) (last os) = Inr m' \<and> rep m' (hd os) os \<and> live m' = live m"
    and rep_ok: "rep m head xs \<Longrightarrow> sseg (nx head m) head xs NULL \<and> (\<forall>x \<in> set xs. live m x) \<and> out m []"
    and double_ok: "n < 2 ^ 30 \<Longrightarrow> so_double ops n = Inr (2 * n)"
begin

lemma count_run_ok:
  "sseg (nx oh m) q xs NULL \<Longrightarrow> \<forall>x \<in> set xs. live m x \<Longrightarrow> xs \<noteq> [] \<Longrightarrow>
     \<exists>q'. count_run ops oh m k q n = Inr (q', n + min k (length xs)) \<and> sseg (nx oh m) q (take k xs) q'
       \<and> sseg (nx oh m) q' (drop k xs) NULL"
proof (induction k arbitrary: q xs n)
  case 0
  then show ?case by simp
next
  case (Suc k)
  then obtain x ys where xs: "xs = x # ys" by (cases xs) auto
  then have x: "q = x" "x \<noteq> NULL" "live m x" "sseg (nx oh m) (nx oh m x) ys NULL" using Suc.prems by auto
  show ?case
  proof (cases ys)
    case Nil
    then show ?thesis using x xs next_ok by simp
  next
    case (Cons y zs)
    then have "nx oh m x \<noteq> NULL" using x(4) by auto
    moreover obtain q' where "count_run ops oh m k (nx oh m x) (Suc n) = Inr (q', Suc n + min k (length ys))"
        "sseg (nx oh m) (nx oh m x) (take k ys) q'" "sseg (nx oh m) q' (drop k ys) NULL"
      using Suc.IH [OF x(4), of "Suc n"] Suc.prems(2) xs Cons by auto
    ultimately show ?thesis using x xs next_ok by simp
  qed
qed

text \<open>One element moves from a run to the output.\<close>

lemma move_ok:
  assumes "out m os" and "distinct (os @ e # xs)" and "NULL \<notin> set (os @ e # xs)" and "\<forall>x \<in> set (os @ e # xs). live m x"
  shows "\<exists>m'. so_link ops m (last (NULL # os)) e = Inr m' \<and> out m' (os @ [e]) \<and> live m' = live m
    \<and> (\<forall>p ys r. set ys \<inter> set os = {} \<longrightarrow> sseg (nx oh m') p ys r = sseg (nx oh m) p ys r)"
proof -
  obtain m' where m': "so_link ops m (last (NULL # os)) e = Inr m'" "out m' (os @ [e])" "live m' = live m"
      "\<And>x. x \<notin> set os \<Longrightarrow> nx oh m' x = nx oh m x"
    using link_ok [OF assms(1), of e] assms(2-4) by auto
  have "sseg (nx oh m') p ys r = sseg (nx oh m) p ys r" if "set ys \<inter> set os = {}" for p ys r
    using that by (intro sseg_cong m'(4)) auto
  then show ?thesis using m' by blast
qed

lemma merge_runs_ok:
  assumes "out m os" and "distinct (os @ ps @ qs @ rs)" and "NULL \<notin> set (os @ ps @ qs @ rs)"
    and "\<forall>x \<in> set (os @ ps @ qs @ rs). live m x"
    and "sseg (nx oh m) p ps r" and "sseg (nx oh m) q (qs @ rs) NULL"
    and "length qs \<le> qsize" and "rs \<noteq> [] \<Longrightarrow> length qs = qsize" and "os \<noteq> [] \<Longrightarrow> lst = hd os"
  shows "\<exists>m' q'. merge_runs ops cmp oh m p (length ps) q qsize lst (last (NULL # os))
        = Inr (m', q', hd (os @ merge_by cmp ps qs @ [lst]), last (NULL # os @ merge_by cmp ps qs))
      \<and> out m' (os @ merge_by cmp ps qs) \<and> sseg (nx oh m') q' rs NULL \<and> live m' = live m"
  using assms
proof (induction "length ps + length qs" arbitrary: m os ps qs p q r qsize lst)
  case 0
  then have "ps = []" "qs = []" by simp_all
  then show ?case using "0.prems" by (cases rs; cases os; auto simp: merge_runs.simps)
next
  case (Suc n)
  have tail: "last (NULL # os) = NULL \<longleftrightarrow> os = []" using Suc.prems(3) by (cases os rule: rev_cases) auto
  have go: "qs \<noteq> [] \<Longrightarrow> q \<noteq> NULL \<and> 0 < qsize" using Suc.prems(6,7) by (cases qs) auto
  let ?from_q = "ps = [] \<or> (qs \<noteq> [] \<and> compare cmp (hd ps) (hd qs) = Greater)"
  have code: "merge_runs ops cmp oh m p (length ps) q qsize lst (last (NULL # os)) =
     rbind (so_next ops oh m (if ?from_q then q else p)) (\<lambda>n.
       rbind (so_link ops m (last (NULL # os)) (if ?from_q then q else p)) (\<lambda>m.
         let lst = (if os = [] then (if ?from_q then q else p) else lst)
         in if ?from_q then merge_runs ops cmp oh m p (length ps) n (qsize - 1) lst q
            else merge_runs ops cmp oh m n (length ps - 1) q qsize lst p))"
  proof -
    have "qs = [] \<Longrightarrow> qsize = 0 \<or> q = NULL" using Suc.prems(6,8) by (cases rs) auto
    moreover have "ps \<noteq> [] \<Longrightarrow> p = hd ps" "qs \<noteq> [] \<Longrightarrow> q = hd qs" using Suc.prems(5,6) by (cases ps; cases qs; auto)+
    moreover have "ps \<noteq> [] \<or> qs \<noteq> []" using Suc.hyps(2) by auto
    ultimately show ?thesis using go tail by (subst merge_runs.simps) (auto simp: Let_def)
  qed
  show ?case
  proof (cases ?from_q)
    case True
    then obtain e qs' where qs: "qs = e # qs'" using Suc.hyps(2) by (cases qs) auto
    then have e: "q = e" "e \<noteq> NULL" "live m e" "sseg (nx oh m) (nx oh m e) (qs' @ rs) NULL" using Suc.prems by auto
    have mrg: "merge_by cmp ps qs = e # merge_by cmp ps qs'" using True qs by (cases ps) auto
    obtain m1 where m1: "so_link ops m (last (NULL # os)) e = Inr m1" "out m1 (os @ [e])" "live m1 = live m"
        "\<And>p ys r. set ys \<inter> set os = {} \<Longrightarrow> sseg (nx oh m1) p ys r = sseg (nx oh m) p ys r"
      using move_ok [OF Suc.prems(1), of e "ps @ qs' @ rs" oh] Suc.prems(2,3,4) qs by auto
    have "\<exists>m' q'. merge_runs ops cmp oh m1 p (length ps) (nx oh m e) (qsize - 1) (if os = [] then e else lst) (last (NULL # os @ [e]))
        = Inr (m', q', hd ((os @ [e]) @ merge_by cmp ps qs' @ [if os = [] then e else lst]), last (NULL # (os @ [e]) @ merge_by cmp ps qs'))
      \<and> out m' ((os @ [e]) @ merge_by cmp ps qs') \<and> sseg (nx oh m') q' rs NULL \<and> live m' = live m1"
    proof (rule Suc.hyps(1))
      show "n = length ps + length qs'" using Suc.hyps(2) qs by simp
      show "out m1 (os @ [e])" by (rule m1(2))
      show "distinct ((os @ [e]) @ ps @ qs' @ rs)" "NULL \<notin> set ((os @ [e]) @ ps @ qs' @ rs)" using Suc.prems(2,3) qs by auto
      show "\<forall>x \<in> set ((os @ [e]) @ ps @ qs' @ rs). live m1 x" using Suc.prems(4) qs m1(3) by auto
      have dj: "set ps \<inter> set os = {}" "set (qs' @ rs) \<inter> set os = {}" using Suc.prems(2) qs by auto
      show "sseg (nx oh m1) p ps r" unfolding m1(4) [OF dj(1)] by (rule Suc.prems(5))
      show "sseg (nx oh m1) (nx oh m e) (qs' @ rs) NULL" unfolding m1(4) [OF dj(2)] by (rule e(4))
      show "length qs' \<le> qsize - 1" "rs \<noteq> [] \<Longrightarrow> length qs' = qsize - 1" using Suc.prems(7,8) qs by auto
      show "(if os = [] then e else lst) = hd (os @ [e])" using Suc.prems(9) by auto
    qed
    moreover have "merge_runs ops cmp oh m p (length ps) q qsize lst (last (NULL # os))
        = merge_runs ops cmp oh m1 p (length ps) (nx oh m e) (qsize - 1) (if os = [] then e else lst) e"
      unfolding code using True e m1(1) next_ok [OF e(2,3)] by (simp add: Let_def)
    ultimately show ?thesis using mrg m1(3) Suc.prems(9) by auto
  next
    case False
    then obtain e ps' where ps: "ps = e # ps'" by (cases ps) auto
    then have e: "p = e" "e \<noteq> NULL" "live m e" "sseg (nx oh m) (nx oh m e) ps' r" using Suc.prems by auto
    have mrg: "merge_by cmp ps qs = e # merge_by cmp ps' qs" using False ps by (cases qs) auto
    obtain m1 where m1: "so_link ops m (last (NULL # os)) e = Inr m1" "out m1 (os @ [e])" "live m1 = live m"
        "\<And>p ys r. set ys \<inter> set os = {} \<Longrightarrow> sseg (nx oh m1) p ys r = sseg (nx oh m) p ys r"
      using move_ok [OF Suc.prems(1), of e "ps' @ qs @ rs" oh] Suc.prems(2,3,4) ps by auto
    have "\<exists>m' q'. merge_runs ops cmp oh m1 (nx oh m e) (length ps') q qsize (if os = [] then e else lst) (last (NULL # os @ [e]))
        = Inr (m', q', hd ((os @ [e]) @ merge_by cmp ps' qs @ [if os = [] then e else lst]), last (NULL # (os @ [e]) @ merge_by cmp ps' qs))
      \<and> out m' ((os @ [e]) @ merge_by cmp ps' qs) \<and> sseg (nx oh m') q' rs NULL \<and> live m' = live m1"
    proof (rule Suc.hyps(1))
      show "n = length ps' + length qs" using Suc.hyps(2) ps by simp
      show "out m1 (os @ [e])" by (rule m1(2))
      show "distinct ((os @ [e]) @ ps' @ qs @ rs)" "NULL \<notin> set ((os @ [e]) @ ps' @ qs @ rs)" using Suc.prems(2,3) ps by auto
      show "\<forall>x \<in> set ((os @ [e]) @ ps' @ qs @ rs). live m1 x" using Suc.prems(4) ps m1(3) by auto
      have dj: "set ps' \<inter> set os = {}" "set (qs @ rs) \<inter> set os = {}" using Suc.prems(2) ps by auto
      show "sseg (nx oh m1) (nx oh m e) ps' r" unfolding m1(4) [OF dj(1)] by (rule e(4))
      show "sseg (nx oh m1) q (qs @ rs) NULL" unfolding m1(4) [OF dj(2)] by (rule Suc.prems(6))
      show "length qs \<le> qsize" "rs \<noteq> [] \<Longrightarrow> length qs = qsize" using Suc.prems(7,8) by auto
      show "(if os = [] then e else lst) = hd (os @ [e])" using Suc.prems(9) by auto
    qed
    moreover have "merge_runs ops cmp oh m p (length ps) q qsize lst (last (NULL # os))
        = merge_runs ops cmp oh m1 (nx oh m e) (length ps') q qsize (if os = [] then e else lst) e"
      unfolding code if_not_P [OF False] using e(1) m1(1) next_ok [OF e(2,3)] ps by (simp add: Let_def)
    ultimately show ?thesis using mrg m1(3) Suc.prems(9) by auto
  qed
qed

lemma pass_loop_ok:
  assumes "0 < k" and "out m os" and "distinct (os @ xs)" and "NULL \<notin> set (os @ xs)" and "\<forall>x \<in> set (os @ xs). live m x"
    and "sseg (nx oh m) p xs NULL" and "os \<noteq> [] \<Longrightarrow> lst = hd os"
  shows "\<exists>m' j. pass_loop ops cmp oh k m p lst (last (NULL # os)) n
        = Some (Inr (m', hd (os @ pass cmp k xs @ [lst]), last (NULL # os @ pass cmp k xs), n + j))
      \<and> out m' (os @ pass cmp k xs) \<and> live m' = live m \<and> (j = 0 \<longleftrightarrow> xs = []) \<and> (j \<le> 1 \<longleftrightarrow> length xs \<le> 2 * k)"
  using assms
proof (induction "length xs" arbitrary: m os xs p lst n rule: less_induct)
  case less
  show ?case
  proof (cases "xs = []")
    case True
    have "pass_loop ops cmp oh k m p lst (last (NULL # os)) n = Some (Inr (m, hd (os @ pass cmp k xs @ [lst]), last (NULL # os @ pass cmp k xs), n + 0))"
      using less.prems(6,7) True by (cases os) (simp_all add: pass_loop.simps pass.simps)
    moreover have "out m (os @ pass cmp k xs)" using less.prems(2) True by (simp add: pass.simps)
    ultimately show ?thesis using True by (intro exI [of _ m] exI [of _ "0::nat"]) simp
  next
    case False
    let ?ps = "take k xs" and ?qs = "take k (drop k xs)" and ?rs = "drop (2 * k) xs"
    let ?ys = "merge_by cmp ?ps ?qs"
    have xs: "xs = ?ps @ ?qs @ ?rs" "drop k xs = ?qs @ ?rs" by (metis append_take_drop_id drop_drop mult_2)+
    have pn: "p \<noteq> NULL" using less.prems(6) False by (cases xs) auto
    obtain q where q: "count_run ops oh m k p 0 = Inr (q, length ?ps)" "sseg (nx oh m) p ?ps q" "sseg (nx oh m) q (?qs @ ?rs) NULL"
      using count_run_ok [OF less.prems(6), of k 0] less.prems(5) False xs(2) by (auto simp: min.commute)
    have "\<exists>m' q'. merge_runs ops cmp oh m p (length ?ps) q k lst (last (NULL # os))
        = Inr (m', q', hd (os @ ?ys @ [lst]), last (NULL # os @ ?ys))
      \<and> out m' (os @ ?ys) \<and> sseg (nx oh m') q' ?rs NULL \<and> live m' = live m"
    proof (rule merge_runs_ok [OF less.prems(2) _ _ _ q(2,3)])
      show "distinct (os @ ?ps @ ?qs @ ?rs)" "NULL \<notin> set (os @ ?ps @ ?qs @ ?rs)" "\<forall>x \<in> set (os @ ?ps @ ?qs @ ?rs). live m x"
        using less.prems(3,4,5) xs(1) by metis+
      show "length ?qs \<le> k" "?rs \<noteq> [] \<Longrightarrow> length ?qs = k" "os \<noteq> [] \<Longrightarrow> lst = hd os" using less.prems(7) by auto
    qed
    then obtain m1 q1 where 1: "merge_runs ops cmp oh m p (length ?ps) q k lst (last (NULL # os))
        = Inr (m1, q1, hd (os @ ?ys @ [lst]), last (NULL # os @ ?ys))"
      "out m1 (os @ ?ys)" "sseg (nx oh m1) q1 ?rs NULL" "live m1 = live m" by blast
    have my: "mset ?ys = mset ?ps + mset ?qs" by (rule mset_merge)
    have yne: "?ys \<noteq> []" using False less.prems(1) length_merge_by [of cmp ?ps ?qs] by auto
    have mm: "mset (os @ ?ys @ ?rs) = mset (os @ xs)" using my xs(1) by (metis mset_append union_assoc)
    have inv: "distinct ((os @ ?ys) @ ?rs)" "NULL \<notin> set ((os @ ?ys) @ ?rs)" "\<forall>x \<in> set ((os @ ?ys) @ ?rs). live m1 x"
      using less.prems(3,4,5) 1(4) mset_eq_imp_distinct_iff [OF mm] mset_eq_setD [OF mm] by auto
    have hd: "os @ ?ys \<noteq> [] \<Longrightarrow> hd (os @ ?ys @ [lst]) = hd (os @ ?ys)" by (metis append_assoc hd_append2)
    have shorter: "length ?rs < length xs" using False less.prems(1) by simp
    obtain m2 j where 2: "pass_loop ops cmp oh k m1 q1 (hd (os @ ?ys @ [lst])) (last (NULL # os @ ?ys)) (Suc n)
        = Some (Inr (m2, hd ((os @ ?ys) @ pass cmp k ?rs @ [hd (os @ ?ys @ [lst])]), last (NULL # (os @ ?ys) @ pass cmp k ?rs), Suc n + j))"
      "out m2 ((os @ ?ys) @ pass cmp k ?rs)" "live m2 = live m1" "j = 0 \<longleftrightarrow> ?rs = []"
      using less.hyps [OF shorter less.prems(1) 1(2) inv 1(3) hd, of "Suc n"] by blast
    have p: "pass cmp k xs = ?ys @ pass cmp k ?rs" using False less.prems(1) by (simp add: pass.simps [of cmp k xs])
    have "pass_loop ops cmp oh k m p lst (last (NULL # os)) n
        = Some (Inr (m2, hd (os @ pass cmp k xs @ [lst]), last (NULL # os @ pass cmp k xs), n + Suc j))"
      using pn q(1) 1(1) 2(1) yne unfolding p by (subst pass_loop.simps) (simp add: hd_append)
    moreover have "Suc j \<le> 1 \<longleftrightarrow> length xs \<le> 2 * k" using 2(4) by simp
    ultimately show ?thesis using 2(2,3) 1(4) p False by (intro exI [of _ m2] exI [of _ "Suc j"]) auto
  qed
qed

lemma sort_loop_ok:
  assumes "rep m head xs" and "xs \<noteq> []" and "0 < k" and "k < 2 ^ 30" and "length xs \<le> 2 ^ 30" and "runs cmp k xs"
  shows "\<exists>m' head'. sort_loop ops cmp m head k = Some (Inr (m', head', last (Sorting_Algorithms.sort cmp xs))) \<and> rep m' head' (Sorting_Algorithms.sort cmp xs) \<and> live m' = live m"
  using assms
proof (induction "length xs - k" arbitrary: m head xs k rule: less_induct)
  case less
  let ?ys = "pass cmp k xs"
  have r: "sseg (nx head m) head xs NULL" "\<forall>x \<in> set xs. live m x" "out m []" using rep_ok [OF less.prems(1)] by simp_all
  have d: "distinct xs" "NULL \<notin> set xs" using r(1) sseg_distinct sseg_nonnull by blast+
  obtain m1 j where 1: "pass_loop ops cmp head k m head NULL NULL 0 = Some (Inr (m1, hd (?ys @ [NULL]), last (NULL # ?ys), j))"
      "out m1 ?ys" "live m1 = live m" "j \<le> 1 \<longleftrightarrow> length xs \<le> 2 * k"
    using pass_loop_ok [OF less.prems(3) r(3), of xs head head NULL cmp 0] d r by auto
  have ne: "?ys \<noteq> []" using less.prems(2) length_pass [of cmp k xs] by auto
  have my: "mset ?ys = mset xs" by (rule mset_pass)
  have "distinct ?ys" "NULL \<notin> set ?ys" "\<forall>x \<in> set ?ys. live m1 x"
    using d r(2) 1(3) mset_eq_imp_distinct_iff [OF my] mset_eq_setD [OF my] by auto
  then obtain m2 where 2: "so_finish ops m1 (hd ?ys) (last ?ys) = Inr m2" "rep m2 (hd ?ys) ?ys" "live m2 = live m1"
    using finish_ok [OF 1(2) ne] by blast
  have code: "sort_loop ops cmp m head k = (if j \<le> 1 then Some (Inr (m2, hd ?ys, last ?ys)) else sort_loop ops cmp m2 (hd ?ys) (2 * k))"
    using 1(1) 2(1) ne double_ok [OF less.prems(4)] by (subst sort_loop.simps) simp
  show ?case
  proof (cases "length xs \<le> 2 * k")
    case True
    then show ?thesis using code 1(3,4) 2(2,3) pass_done [OF less.prems(3,6)] by auto
  next
    case False
    have "\<exists>m' head'. sort_loop ops cmp m2 (hd ?ys) (2 * k) = Some (Inr (m', head', last (Sorting_Algorithms.sort cmp ?ys)))
        \<and> rep m' head' (Sorting_Algorithms.sort cmp ?ys) \<and> live m' = live m2"
      using False less.prems ne pass_runs [OF less.prems(3,6)] by (intro less.hyps [OF _ 2(2)]) (auto simp: length_pass)
    then show ?thesis using False code 1(3,4) 2(3) pass_sort [OF less.prems(3,6)] by auto
  qed
qed

lemma list_sort_ok:
  assumes "rep m head xs" and "length xs \<le> 2 ^ 30"
  shows "\<exists>m' head'. list_sort ops cmp m head = Some (Inr (m', head', last (NULL # Sorting_Algorithms.sort cmp xs)))
    \<and> (if xs = [] then m' = m \<and> head' = head else rep m' head' (Sorting_Algorithms.sort cmp xs)) \<and> live m' = live m"
proof (cases xs)
  case Nil
  then show ?thesis using rep_ok [OF assms(1)] by (simp add: list_sort_def)
next
  case (Cons x ys)
  then have "head \<noteq> NULL" using rep_ok [OF assms(1)] by auto
  moreover have "Sorting_Algorithms.sort cmp xs \<noteq> []" using Cons by (metis mset_sort mset_zero_iff list.distinct(1))
  ultimately show ?thesis using sort_loop_ok [OF assms(1) _ _ _ assms(2) runs_one, where cmp = cmp] Cons by (simp add: list_sort_def)
qed

end

end
