(* ===== verification/Uthash_Ops.thy ===== *)
theory Uthash_Ops
  imports Fsck Merge_Sort
begin

text \<open>
  The operations of \<^verbatim>\<open>uthash.h\<close> on whole tables, on pointers: sorting the items (\<^verbatim>\<open>HASH_SRT\<close>, an instance of the merge
  sort template), putting an item in the place of the one with its key (\<^verbatim>\<open>HASH_REPLACE\<close>), and
  releasing the table (\<^verbatim>\<open>HASH_CLEAR\<close>).
\<close>

section \<open>The operations\<close>

text \<open>\<^verbatim>\<open>_hs_insize\<close> is unsigned and wraps.\<close>

definition hash_sort_ops :: "uheap sort_ops" where
  "hash_sort_ops = \<lparr>
     so_next = \<lambda>oldhead h q. elt h q (el_next h q),
     so_link = \<lambda>h tail e.
       rbind (if tail = NULL then Inr h else elt h tail (h\<lparr>el_next := (el_next h)(tail := e)\<rparr>)) (\<lambda>h.
       elt h e (h\<lparr>el_prev := (el_prev h)(e := tail)\<rparr>)),
     so_finish = \<lambda>h lst tail. if tail = NULL then Inr h else elt h tail (h\<lparr>el_next := (el_next h)(tail := NULL)\<rparr>),
     so_double = \<lambda>n. Inr (2 * n mod 2 ^ 32)\<rparr>"

definition HASH_SRT :: "addr comparator \<Rightarrow> uheap \<Rightarrow> addr \<Rightarrow> (uheap \<times> addr) res option" where
  "HASH_SRT cmpfcn h head =
     (if head = NULL then Some (Inr (h, head))
      else obind (list_sort hash_sort_ops cmpfcn h head) (\<lambda>(h, lst, tail).
           obind (Some (tbl_of h head)) (\<lambda>(tp, t).
             Some (Inr (set_tbl h tp (t\<lparr>pt_tail := tail\<rparr>), lst)))))"

definition HASH_REPLACE :: "uheap \<Rightarrow> addr \<Rightarrow> u8 list \<Rightarrow> addr \<Rightarrow> (uheap \<times> addr \<times> addr) res option" where
  "HASH_REPLACE h head keyptr add =
     obind (HASH_FIND_mem h head keyptr) (\<lambda>replaced.
     obind (if replaced \<noteq> NULL then Some (HASH_DELETE_mem h head replaced) else Some (Inr (h, head))) (\<lambda>(h, head).
     obind (HASH_ADD_KEYPTR h head keyptr add) (\<lambda>(h, head).
       Some (Inr (h, head, replaced)))))"

definition HASH_CLEAR :: "uheap \<Rightarrow> addr \<Rightarrow> (uheap \<times> addr) res" where
  "HASH_CLEAR h head =
     (if head = NULL then Inr (h, head)
      else rbind (tbl_of h head) (\<lambda>(tp, t). Inr (h\<lparr>tbls := (tbls h)(tp := None)\<rparr>, NULL)))"

section \<open>The items of a table can be sorted\<close>

text \<open>\<open>srt_base h0 S h\<close>: only the order of the items \<open>S\<close> differs from \<open>h0\<close>.\<close>

definition srt_base :: "uheap \<Rightarrow> addr set \<Rightarrow> uheap \<Rightarrow> bool" where
  "srt_base h0 S h \<longleftrightarrow> (\<exists>nx pv. h = h0\<lparr>el_next := nx, el_prev := pv\<rparr>
     \<and> (\<forall>x. x \<notin> S \<longrightarrow> nx x = el_next h0 x \<and> pv x = el_prev h0 x))"

definition srt_live :: "addr set \<Rightarrow> uheap \<Rightarrow> addr \<Rightarrow> bool" where
  "srt_live S h a \<longleftrightarrow> el_live h a \<and> a \<in> S"

definition srt_out :: "uheap \<Rightarrow> addr set \<Rightarrow> uheap \<Rightarrow> addr list \<Rightarrow> bool" where
  "srt_out h0 S h os \<longleftrightarrow> srt_base h0 S h \<and> (os \<noteq> [] \<longrightarrow> (\<exists>q. dseg (el_next h) (el_prev h) NULL (hd os) os q))"

definition srt_rep :: "uheap \<Rightarrow> addr set \<Rightarrow> uheap \<Rightarrow> addr \<Rightarrow> addr list \<Rightarrow> bool" where
  "srt_rep h0 S h head xs \<longleftrightarrow> srt_base h0 S h \<and> dseg (el_next h) (el_prev h) NULL head xs NULL \<and> (\<forall>x \<in> set xs. srt_live S h x)"

lemma srt_base_refl: "srt_base h S h"
  unfolding srt_base_def by (intro exI [of _ "el_next h"] exI [of _ "el_prev h"]) simp

lemma srt_base_upd:
  assumes "srt_base h0 S h" and "a \<in> S"
  shows "srt_base h0 S (h\<lparr>el_next := (el_next h)(a := v)\<rparr>)" "srt_base h0 S (h\<lparr>el_prev := (el_prev h)(a := v)\<rparr>)"
proof -
  obtain nx pv where h: "h = h0\<lparr>el_next := nx, el_prev := pv\<rparr>" "\<And>x. x \<notin> S \<Longrightarrow> nx x = el_next h0 x \<and> pv x = el_prev h0 x"
    using assms(1) unfolding srt_base_def by blast
  show "srt_base h0 S (h\<lparr>el_next := (el_next h)(a := v)\<rparr>)"
    unfolding srt_base_def using h assms(2) by (intro exI [of _ "nx(a := v)"] exI [of _ pv]) auto
  show "srt_base h0 S (h\<lparr>el_prev := (el_prev h)(a := v)\<rparr>)"
    unfolding srt_base_def using h assms(2) by (intro exI [of _ nx] exI [of _ "pv(a := v)"]) auto
qed

lemma dseg_sseg: "dseg nx pv r p as q \<Longrightarrow> sseg nx p as q"
  by (induction as arbitrary: r p) auto

lemma srt_out_seg: "srt_out h0 S h os \<Longrightarrow> os \<noteq> [] \<Longrightarrow> \<exists>q. dseg (el_next h) (el_prev h) NULL (hd os) os q"
  by (auto simp: srt_out_def)

lemma srt_link_ok:
  assumes "srt_out h0 S h os" and "distinct (os @ [e])" and "NULL \<notin> set (os @ [e])" and "\<forall>x \<in> set (os @ [e]). srt_live S h x"
  shows "\<exists>h'. so_link hash_sort_ops h (last (NULL # os)) e = Inr h' \<and> srt_out h0 S h' (os @ [e])
    \<and> srt_live S h' = srt_live S h \<and> (\<forall>(oh :: addr) x. x \<notin> set os \<longrightarrow> el_next h' x = el_next h x)"
proof (cases os rule: rev_cases)
  case Nil
  then show ?thesis using assms srt_base_upd(2) [of h0 S h e NULL]
    by (auto simp: hash_sort_ops_def elt_def srt_live_def srt_out_def fun_eq_iff)
next
  case (snoc us u)
  let ?h1 = "h\<lparr>el_next := (el_next h)(u := e)\<rparr>"
  let ?h = "?h1\<lparr>el_prev := (el_prev ?h1)(e := u)\<rparr>"
  obtain q where seg: "dseg (el_next h) (el_prev h) NULL (hd os) os q" using srt_out_seg [OF assms(1)] snoc by auto
  have "so_link hash_sort_ops h (last (NULL # os)) e = Inr ?h"
    using assms(3,4) snoc by (simp add: hash_sort_ops_def elt_def srt_live_def)
  moreover have "dseg (el_next ?h1) (el_prev ?h1) NULL (hd os) os e"
    using dseg_relink_last [of "el_next h" "el_prev h" NULL "hd os" us u q e] seg assms(2) snoc by simp
  then have "dseg (el_next ?h) (el_prev ?h) NULL (hd os) os e" using assms(2) by simp
  then have "dseg (el_next ?h) (el_prev ?h) NULL (hd (os @ [e])) (os @ [e]) (el_next ?h e)"
    using assms(3) snoc unfolding dseg_last by (cases us) simp_all
  then have "srt_out h0 S ?h (os @ [e])"
    using srt_base_upd(2) [OF srt_base_upd(1), of h0 S h u e e u] assms(1,4) snoc unfolding srt_out_def
    by (intro conjI impI exI [of _ "el_next ?h e"]) (simp_all add: srt_live_def)
  ultimately show ?thesis using snoc by (intro exI [of _ ?h]) (simp add: srt_live_def fun_eq_iff)
qed

lemma srt_finish_ok:
  assumes "srt_out h0 S h os" and "os \<noteq> []" and "distinct os" and "NULL \<notin> set os" and "\<forall>x \<in> set os. srt_live S h x"
  shows "\<exists>h'. so_finish hash_sort_ops h (hd os) (last os) = Inr h' \<and> srt_rep h0 S h' (hd os) os \<and> srt_live S h' = srt_live S h"
proof (cases os rule: rev_cases)
  case Nil
  then show ?thesis using assms(2) by simp
next
  case (snoc us u)
  let ?h = "h\<lparr>el_next := (el_next h)(u := NULL)\<rparr>"
  obtain q where seg: "dseg (el_next h) (el_prev h) NULL (hd os) os q" using srt_out_seg [OF assms(1)] snoc by auto
  have "so_finish hash_sort_ops h (hd os) (last os) = Inr ?h"
    using assms(4,5) snoc by (simp add: hash_sort_ops_def elt_def srt_live_def)
  moreover have "dseg (el_next ?h) (el_prev ?h) NULL (hd os) os NULL"
    using dseg_relink_last [of "el_next h" "el_prev h" NULL "hd os" us u q NULL] seg assms(3) snoc by simp
  then have "srt_rep h0 S ?h (hd os) os"
    using srt_base_upd(1) [of h0 S h u NULL] assms(1,5) snoc by (auto simp: srt_rep_def srt_out_def srt_live_def)
  ultimately show ?thesis by (intro exI [of _ ?h]) (simp add: srt_live_def fun_eq_iff)
qed

interpretation hsort: sort_memory hash_sort_ops "srt_live S" "\<lambda>oh. el_next" "srt_out h0 S" "srt_rep h0 S" for h0 S
proof (unfold_locales, goal_cases)
  case (1 a m oh)
  then show ?case by (simp add: hash_sort_ops_def elt_def srt_live_def)
next
  case (2 m os e)
  then show ?case by (rule srt_link_ok)
next
  case (3 m os)
  then show ?case by (rule srt_finish_ok)
next
  case (4 m head xs)
  then show ?case using dseg_sseg by (auto simp: srt_rep_def srt_out_def)
next
  case (5 n)
  then show ?case by (simp add: hash_sort_ops_def)
qed

section \<open>Sorting keeps the table\<close>

lemma reorder:
  assumes "distinct (map f xs)" and "mset ys = mset (map f xs)"
  obtains xs' where "map f xs' = ys" "mset xs' = mset xs"
proof
  let ?g = "the_inv_into (set xs) f"
  have inj: "inj_on f (set xs)" using assms(1) by (simp add: distinct_map)
  have "set ys = f ` set xs" using mset_eq_setD [OF assms(2)] by simp
  then show "map f (map ?g ys) = ys" using inj by (auto simp: o_def f_the_inv_into_f intro!: map_idI)
  have "mset (map ?g ys) = image_mset ?g (mset (map f xs))" using assms(2) by simp
  also have "\<dots> = mset (map (\<lambda>x. ?g (f x)) xs)" by (simp add: o_def image_mset.compositionality)
  also have "map (\<lambda>x. ?g (f x)) xs = xs" using inj by (auto simp: the_inv_into_f_f intro!: map_idI)
  finally show "mset (map ?g ys) = mset xs" .
qed

lemma table_ok_reorder:
  assumes "table_ok t" and "mset hs = mset (app t)"
  shows "table_ok (t\<lparr>app := hs\<rparr>)"
proof -
  have "length hs = length (app t)" "set hs = set (app t)" using assms(2) by (metis size_mset, metis set_mset_mset)
  moreover have "distinct (map hh_elt hs)"
    using assms by (metis distinct_map mset_eq_imp_distinct_iff mset_map table_ok_def)
  ultimately show ?thesis using assms by (simp add: table_ok_def)
qed

lemma HASH_SRT_ok:
  assumes "tbl_rep h tp head t" and "table_ok t" and "heap_ok h" and "length (app t) \<le> 2 ^ 30"
  shows "\<exists>h' head' hs. HASH_SRT cmp h head = Some (Inr (h', head')) \<and> tbl_rep h' tp head' (t\<lparr>app := hs\<rparr>)
    \<and> elts hs = Sorting_Algorithms.sort cmp (elts (app t)) \<and> mset hs = mset (app t) \<and> heap_ok h'
    \<and> keeps (set (elts (app t))) tp h h'"
proof -
  let ?S = "set (elts (app t))" and ?ys = "Sorting_Algorithms.sort cmp (elts (app t))"
  obtain pt where pt: "tbls h tp = Some pt" "tp \<noteq> NULL" using assms(1) by (auto simp: tbl_rep_def split: option.splits)
  have below: "tp < tbl_brk h" using assms(3) pt(1) unfolding heap_ok_def by (metis not_le option.distinct(1))
  have live: "\<forall>a \<in> ?S. el_live h a \<and> el_tbl h a = tp" and ne: "app t \<noteq> []"
    using assms(1) by (auto simp: tbl_rep_def stored_def)
  have seg: "dseg (el_next h) (el_prev h) NULL head (elts (app t)) NULL" using assms(1) by (simp add: tbl_rep_def)
  then have head: "head \<in> ?S" "head \<noteq> NULL" using ne by (cases "app t"; auto)+
  have "srt_rep h ?S h head (elts (app t))" using seg live by (simp add: srt_rep_def srt_base_refl srt_live_def)
  from hsort.list_sort_ok [OF this, of cmp] assms(4) ne obtain h1 head'
    where 1: "list_sort hash_sort_ops cmp h head = Some (Inr (h1, head', last (NULL # ?ys)))" "srt_rep h ?S h1 head' ?ys" by auto
  obtain nx pv where h1: "h1 = h\<lparr>el_next := nx, el_prev := pv\<rparr>" "\<And>x. x \<notin> ?S \<Longrightarrow> nx x = el_next h x \<and> pv x = el_prev h x"
    using 1(2) unfolding srt_rep_def srt_base_def by blast
  have my: "mset ?ys = mset (elts (app t))" by simp
  then have yne: "?ys \<noteq> []" using ne by (metis map_is_Nil_conv mset_zero_iff)
  obtain hs where hs: "elts hs = ?ys" "mset hs = mset (app t)" using reorder [OF tbl_rep_distinct [OF assms(1)] my] by metis
  let ?h = "set_tbl h1 tp (pt\<lparr>pt_tail := last ?ys\<rparr>)"
  have "tbl_of h1 head = Inr (tp, pt)" using head live pt h1(1) by (intro tbl_of_ok) auto
  then have "HASH_SRT cmp h head = Some (Inr (?h, head'))" using 1(1) head(2) yne by (simp add: HASH_SRT_def)
  moreover have "tbl_rep ?h tp head' (t\<lparr>app := hs\<rparr>)"
  proof -
    have "hs \<noteq> []" using hs(2) ne by auto
    moreover have "dseg (el_next ?h) (el_prev ?h) NULL head' (elts hs) NULL" using 1(2) hs(1) by (simp add: srt_rep_def set_tbl_def)
    moreover have "\<forall>hh \<in> set hs. stored ?h tp hh"
      using assms(1) mset_eq_setD [OF hs(2)] h1(1) by (simp add: tbl_rep_def stored_def set_tbl_def)
    ultimately show ?thesis using assms(1) pt hs(1) h1(1) by (simp add: tbl_rep_def set_tbl_def counters_rep_def)
  qed
  moreover have "keeps ?S tp h ?h" using h1 by (simp add: keeps_def set_tbl_def)
  moreover have "heap_ok ?h" using assms(3) below h1(1) by (simp add: heap_ok_def set_tbl_def)
  ultimately show ?thesis using hs by blast
qed

section \<open>Replacing and clearing\<close>

lemma hash_delete_room:
  assumes "hash_room ho" and "HASH_DELETE ho a = Inr ho'"
  shows "hash_room ho'"
proof -
  obtain t hh where t: "ho = Some t" "find (\<lambda>h. hh_elt h = a) (app t) = Some hh"
    using assms(2) by (auto simp: HASH_DELETE_def split: option.splits)
  have "length (remove1 hh (app t)) \<le> length (app t)" by (simp add: length_remove1)
  then show ?thesis using assms t by (auto simp: HASH_DELETE_def hash_room_def Let_def split: if_splits)
qed

lemma hash_find_elt: "hash_ok ho \<Longrightarrow> HASH_FIND ho k = Some a \<Longrightarrow> a \<in> set (hash_elts ho)"
  using HASH_FIND_Some by (force simp: hash_elts_entries)

lemma hash_elts_nonnull: "hash_rep h tp head ho \<Longrightarrow> NULL \<notin> set (hash_elts ho)"
  using dseg_nonnull [of "el_next h" "el_prev h" NULL head "hash_elts ho" NULL]
  by (cases ho) (auto simp: hash_rep_def hash_elts_def tbl_rep_def)

lemma DELETE_rep:
  assumes "hash_rep h tp head ho" and "heap_ok h" and "hash_ok ho" and "a \<in> set (hash_elts ho)"
  shows "\<exists>h' head' ho'. HASH_DELETE_mem h head a = Inr (h', head') \<and> HASH_DELETE ho a = Inr ho' \<and> heap_ok h'
    \<and> hash_rep h' tp head' ho' \<and> keeps (set (hash_elts ho)) tp h h'"
proof -
  obtain t hh where t: "ho = Some t" "hh \<in> set (app t)" "a = hh_elt hh" using assms(4) by (auto simp: hash_elts_def split: option.splits)
  then have "tbl_rep h tp head t" "table_ok t" using assms by (simp_all add: hash_rep_def hash_ok_def)
  from HASH_DELETE_mem_ok [OF this(1) assms(2) this(2) t(2)] show ?thesis unfolding t(1,3) by (simp add: hash_elts_def)
qed

text \<open>Two operations in a row leave other tables alone, also when the second one works on a table it has just made.\<close>

lemma others_kept_trans:
  assumes "others_kept S tp h h1" and "others_kept T tp' h1 h2" and "heap_ok h1"
    and "S \<subseteq> U" and "T \<subseteq> U" and "tp' = tp \<or> tp' = tbl_brk h1"
  shows "others_kept U tp h h2"
  unfolding others_kept_def
proof (intro allI impI, elim conjE)
  fix tp2 head2 ho2
  assume o: "tp2 \<noteq> tp" "hash_ok ho2" "set (hash_elts ho2) \<inter> U = {}" "hash_rep h tp2 head2 ho2"
  have disj: "set (hash_elts ho2) \<inter> S = {}" "set (hash_elts ho2) \<inter> T = {}" using o(3) assms(4,5) by blast+
  have 1: "hash_rep h1 tp2 head2 ho2" using assms(1) o disj(1) unfolding others_kept_def by blast
  show "hash_rep h2 tp2 head2 ho2"
  proof (cases "tp2 = tp'")
    case True
    then have "tbls h1 tp2 = None" using assms(3,6) o(1) by (simp add: heap_ok_def)
    then have "ho2 = None" using 1 by (cases ho2) (simp_all add: hash_rep_def tbl_rep_def)
    then show ?thesis using 1 by (simp add: hash_rep_def)
  next
    case False
    then show ?thesis using assms(2) o(2) 1 disj(2) unfolding others_kept_def by blast
  qed
qed

lemma HASH_REPLACE_ok:
  assumes "hash_rep h tp head ho" and "heap_ok h" and "hash_ok ho" and "hash_room ho" and "distinct (map fst (hash_entries ho))"
    and "add \<noteq> NULL" and "el_live h add" and "add \<notin> set (hash_elts ho)"
  shows "\<exists>h' head' tp' ho'. HASH_REPLACE h head keyptr add = Some (Inr (h', head', case HASH_FIND ho keyptr of None \<Rightarrow> NULL | Some a \<Rightarrow> a))
    \<and> heap_ok h' \<and> hash_rep h' tp' head' ho' \<and> hash_ok ho' \<and> distinct (map fst (hash_entries ho'))
    \<and> (\<forall>k. HASH_FIND ho' k = (if k = keyptr then Some add else HASH_FIND ho k))
    \<and> el_live h' = el_live h \<and> others_kept (insert add (set (hash_elts ho))) tp h h'"
proof -
  have f: "HASH_FIND_mem h head keyptr = Some (Inr (case HASH_FIND ho keyptr of None \<Rightarrow> NULL | Some a \<Rightarrow> a))"
    using HASH_FIND_mem_ok [OF assms(1,3)] .
  have "\<exists>h1 head1 ho1. (if (case HASH_FIND ho keyptr of None \<Rightarrow> NULL | Some a \<Rightarrow> a) \<noteq> NULL
        then Some (HASH_DELETE_mem h head (case HASH_FIND ho keyptr of None \<Rightarrow> NULL | Some a \<Rightarrow> a)) else Some (Inr (h, head))) = Some (Inr (h1, head1))
      \<and> hash_rep h1 tp head1 ho1 \<and> heap_ok h1 \<and> hash_ok ho1 \<and> hash_room ho1 \<and> distinct (map fst (hash_entries ho1))
      \<and> el_live h1 = el_live h \<and> others_kept (set (hash_elts ho)) tp h h1 \<and> set (hash_elts ho1) \<subseteq> set (hash_elts ho)
      \<and> (\<forall>k. HASH_FIND ho1 k = (if k = keyptr then None else HASH_FIND ho k))"
  proof (cases "HASH_FIND ho keyptr")
    case None
    then show ?thesis using assms by (auto simp: others_kept_def)
  next
    case (Some a)
    have a: "a \<in> set (hash_elts ho)" using hash_find_elt [OF assms(3) Some] .
    then have nn: "a \<noteq> NULL" using hash_elts_nonnull [OF assms(1)] by metis
    obtain h1 head1 ho1 where 1: "HASH_DELETE_mem h head a = Inr (h1, head1)" "HASH_DELETE ho a = Inr ho1" "heap_ok h1"
      "hash_rep h1 tp head1 ho1" "keeps (set (hash_elts ho)) tp h h1" using DELETE_rep [OF assms(1-3) a] by blast
    obtain e where "(keyptr, a) \<in> set (hash_entries ho)" using HASH_FIND_Some [OF assms(3) Some] by blast
    then have "set (hash_elts ho1) \<subseteq> set (hash_elts ho)"
      using HASH_DELETE_ok [OF assms(3)] 1(2) by (fastforce simp: hash_elts_entries)
    moreover have "hash_ok ho1 \<and> distinct (map fst (hash_entries ho1)) \<and> (\<forall>k. HASH_FIND ho1 k = (if k = keyptr then None else HASH_FIND ho k))"
      using ut.find_delete [OF assms(3,5) hash_entries_distinct_elts [OF assms(3)] Some] 1(2) by auto
    moreover have "hash_room ho1" using hash_delete_room [OF assms(4) 1(2)] .
    ultimately show ?thesis using 1 keeps_others [OF 1(5)] Some nn by (intro exI [of _ h1] exI [of _ head1] exI [of _ ho1]) (simp add: keeps_def)
  qed
  then obtain h1 head1 ho1 where 1: "HASH_REPLACE h head keyptr add = obind (HASH_ADD_KEYPTR h1 head1 keyptr add) (\<lambda>(h, head).
        Some (Inr (h, head, case HASH_FIND ho keyptr of None \<Rightarrow> NULL | Some a \<Rightarrow> a)))"
      "hash_rep h1 tp head1 ho1" "heap_ok h1" "hash_ok ho1" "hash_room ho1" "distinct (map fst (hash_entries ho1))"
      "el_live h1 = el_live h" "set (hash_elts ho1) \<subseteq> set (hash_elts ho)" "others_kept (set (hash_elts ho)) tp h h1"
      "\<And>k. HASH_FIND ho1 k = (if k = keyptr then None else HASH_FIND ho k)"
    unfolding HASH_REPLACE_def f by auto
  have add: "el_live h1 add" "add \<notin> set (hash_elts ho1)" "add \<notin> snd ` set (hash_entries ho1)"
    using assms(7,8) 1(7,8) by (auto simp: hash_elts_entries)
  obtain h2 head2 where 2: "HASH_ADD_KEYPTR h1 head1 keyptr add = Some (Inr (h2, head2))" "heap_ok h2"
      "hash_rep h2 (if ho1 = None then tbl_brk h1 else tp) head2 (HASH_ADD ho1 keyptr add)"
      "keeps (insert add (set (hash_elts ho1))) (if ho1 = None then tbl_brk h1 else tp) h1 h2"
    using HASH_ADD_KEYPTR_ok [OF 1(2,3,4,5) assms(6) add(1,2), of keyptr] by blast
  have new: "keyptr \<notin> fst ` set (hash_entries ho1)" using HASH_FIND_None [OF 1(4)] 1(10) [of keyptr] by simp
  have "hash_ok (HASH_ADD ho1 keyptr add)" "distinct (map fst (hash_entries (HASH_ADD ho1 keyptr add)))"
      "\<And>k. HASH_FIND (HASH_ADD ho1 keyptr add) k = (if k = keyptr then Some add else HASH_FIND ho k)"
    using HASH_ADD_ok [OF 1(4,5) add(3)] ut.find_add [OF 1(4,5) add(3) 1(6) new] 1(6,10) new by auto
  moreover have "others_kept (insert add (set (hash_elts ho))) tp h h2"
    by (rule others_kept_trans [OF 1(9) keeps_others [OF 2(4)] 1(3)]) (use 1(8) in auto)
  moreover have "el_live h2 = el_live h" using 2(4) 1(7) by (simp add: keeps_def)
  ultimately show ?thesis using 1(1) 2(1-3)
    by (intro exI [of _ h2] exI [of _ head2] exI [of _ "if ho1 = None then tbl_brk h1 else tp"]
        exI [of _ "HASH_ADD ho1 keyptr add"] conjI) auto
qed

text \<open>Clearing releases the table structure of a table that has items, and writes nothing else.\<close>

definition cleared :: "hash_head \<Rightarrow> addr \<Rightarrow> uheap \<Rightarrow> uheap" where
  "cleared ho tp h = (if ho = None then h else h\<lparr>tbls := (tbls h)(tp := None)\<rparr>)"

lemma HASH_CLEAR_ok:
  assumes "hash_rep h tp head ho"
  shows "HASH_CLEAR h head = Inr (cleared ho tp h, NULL)"
proof (cases ho)
  case None
  then show ?thesis using assms by (simp add: hash_rep_def HASH_CLEAR_def cleared_def)
next
  case (Some t)
  then have R: "tbl_rep h tp head t" using assms by (simp add: hash_rep_def)
  then obtain pt where pt: "tbls h tp = Some pt" "tp \<noteq> NULL" by (auto simp: tbl_rep_def split: option.splits)
  obtain hh hs where "app t = hh # hs" using R by (cases "app t") (auto simp: tbl_rep_def)
  then have "head \<noteq> NULL" "el_live h head" "el_tbl h head = tp" using R by (auto simp: tbl_rep_def stored_def)
  then show ?thesis using tbl_of_ok [OF pt] Some by (simp add: HASH_CLEAR_def cleared_def)
qed

lemma cleared_ok: "heap_ok h \<Longrightarrow> heap_ok (cleared ho tp h)" and cleared_keeps: "keeps {} tp h (cleared ho tp h)"
  by (auto simp: cleared_def heap_ok_def keeps_def)

text \<open>
  C12: the operations on whole tables.  On an intact table of at most 2^30 items in memory, \<^verbatim>\<open>HASH_SORT\<close> returns and
  leaves the memory of an intact table in which every key finds what it found before and whose items come in the
  stable sorted order; with distinct keys, \<^verbatim>\<open>HASH_REPLACE\<close> returns the element that had the key of the new one (or
  \<^verbatim>\<open>NULL\<close>), and afterwards that key, and only that key, finds the new one; \<^verbatim>\<open>HASH_CLEAR\<close> returns \<^verbatim>\<open>NULL\<close> and
  releases the table structure, and nothing else in memory changes: no element is released and none of its fields is
  written.  Sorting writes only to the elements of the table; none of the operations releases an
  element, and every other table stays what it was.
\<close>

theorem uthash_whole_table:
  assumes "hash_rep h tp head ho" and "heap_ok h" and "hash_ok ho"
  shows "(length (hash_elts ho) \<le> 2 ^ 30 \<longrightarrow>
        (\<exists>h' head' ho'. HASH_SRT cmp h head = Some (Inr (h', head')) \<and> heap_ok h' \<and> hash_rep h' tp head' ho' \<and> hash_ok ho'
          \<and> hash_elts ho' = Sorting_Algorithms.sort cmp (hash_elts ho) \<and> HASH_FIND ho' = HASH_FIND ho
          \<and> keeps (set (hash_elts ho)) tp h h' \<and> others_kept (set (hash_elts ho)) tp h h'))
    \<and> (hash_room ho \<and> distinct (map fst (hash_entries ho)) \<and> add \<noteq> NULL \<and> el_live h add \<and> add \<notin> set (hash_elts ho) \<longrightarrow>
        (\<exists>h' head' tp' ho'. HASH_REPLACE h head keyptr add = Some (Inr (h', head', case HASH_FIND ho keyptr of None \<Rightarrow> NULL | Some a \<Rightarrow> a))
          \<and> heap_ok h' \<and> hash_rep h' tp' head' ho' \<and> hash_ok ho' \<and> distinct (map fst (hash_entries ho'))
          \<and> (\<forall>k. HASH_FIND ho' k = (if k = keyptr then Some add else HASH_FIND ho k))
          \<and> el_live h' = el_live h \<and> others_kept (insert add (set (hash_elts ho))) tp h h'))
    \<and> (\<exists>h'. HASH_CLEAR h head = Inr (h', NULL) \<and> h' = (if ho = None then h else h\<lparr>tbls := (tbls h)(tp := None)\<rparr>)
          \<and> heap_ok h' \<and> others_kept {} tp h h')"
proof (intro conjI impI, goal_cases)
  case 1
  show ?case
  proof (cases ho)
    case None
    then show ?thesis using assms by (intro exI [of _ h] exI [of _ head] exI [of _ None]) (simp add: HASH_SRT_def hash_rep_def hash_elts_def others_kept_def keeps_def)
  next
    case (Some t)
    then have t: "tbl_rep h tp head t" "table_ok t" "length (app t) \<le> 2 ^ 30"
      using assms 1 by (simp_all add: hash_rep_def hash_ok_def hash_elts_def)
    obtain h' head' hs where r: "HASH_SRT cmp h head = Some (Inr (h', head'))" "tbl_rep h' tp head' (t\<lparr>app := hs\<rparr>)"
        "elts hs = Sorting_Algorithms.sort cmp (elts (app t))" "mset hs = mset (app t)" "heap_ok h'" "keeps (set (elts (app t))) tp h h'"
      using HASH_SRT_ok [OF t(1,2) assms(2) t(3), of cmp] by blast
    have "hash_ok (Some (t\<lparr>app := hs\<rparr>))"
      using table_ok_reorder [OF t(2) r(4)] r(4) assms(3) Some by (auto simp: hash_ok_def)
    moreover have "HASH_FIND (Some (t\<lparr>app := hs\<rparr>)) = HASH_FIND ho" using Some by (simp add: HASH_FIND_def fun_eq_iff)
    ultimately show ?thesis using r keeps_others [OF r(6)] Some
      by (intro exI [of _ h'] exI [of _ head'] exI [of _ "Some (t\<lparr>app := hs\<rparr>)"]) (simp add: hash_rep_def hash_elts_def)
  qed
next
  case 2
  then show ?case using HASH_REPLACE_ok [OF assms, of add keyptr] by blast
next
  case 3
  show ?case using HASH_CLEAR_ok [OF assms(1)] cleared_ok [OF assms(2)] keeps_others [OF cleared_keeps]
    by (auto simp: cleared_def)
qed

theorem uthash_whole_table_witness:
  "\<exists>h head. HASH_REPLACE demo_heap NULL [7, 0, 0, 0] 5 = Some (Inr (h, head, NULL))
    \<and> (\<exists>h' head'. HASH_SRT default h head = Some (Inr (h', head'))) \<and> (\<exists>h'. HASH_CLEAR h head = Inr (h', NULL))"
proof -
  have "hash_rep demo_heap 1 NULL None" "heap_ok demo_heap" "hash_ok None"
    by (simp_all add: hash_rep_def heap_ok_def demo_heap_def hash_ok_def)
  from HASH_REPLACE_ok [OF this, of 5 "[7, 0, 0, 0]"] obtain h head tp ho
    where h: "HASH_REPLACE demo_heap NULL [7, 0, 0, 0] 5 = Some (Inr (h, head, NULL))" "hash_rep h tp head ho" "heap_ok h" "hash_ok ho"
      "distinct (map fst (hash_entries ho))" "\<And>k. HASH_FIND ho k = (if k = [7, 0, 0, 0] then Some 5 else None)"
    by (fastforce simp: demo_heap_def hash_room_def hash_entries_def hash_elts_def HASH_FIND_def)
  have "length (hash_elts ho) \<le> 2 ^ 30"
  proof -
    have "set (map fst (hash_entries ho)) \<subseteq> {[7, 0, 0, 0]}"
    proof
      fix k assume "k \<in> set (map fst (hash_entries ho))"
      then have "\<exists>a. HASH_FIND ho k = Some a" using ut.find_iff [OF h(4)] by simp
      then show "k \<in> {[7, 0, 0, 0]}" using h(6) [of k] by (auto split: if_splits)
    qed
    from card_mono [OF _ this] have "card (set (map fst (hash_entries ho))) \<le> 1" by simp
    then show ?thesis using distinct_card [OF h(5)] by (simp add: hash_elts_entries)
  qed
  with uthash_whole_table [OF h(2-4), of default] h(1) show ?thesis by blast
qed

end
