(* ===== verification/Uthash_Select.thy ===== *)
theory Uthash_Select
  imports Fsck
begin

text \<open>
  \<^verbatim>\<open>HASH_SELECT\<close>, which puts the items of one table that satisfy a condition into a second table, through a second
  handle in the same elements.  The two handles of an element are two memories with the same addresses: \<open>s\<close>
  has the handles \<^verbatim>\<open>hh_src\<close> and the source table, \<open>d\<close> the handles \<^verbatim>\<open>hh_dst\<close> and the destination.  The second half
  of the theory shows what the macro leaves wrong: it never moves the tail of the new table.
\<close>

section \<open>The macro\<close>

text \<open>The body of \<^verbatim>\<open>if (cond(_elt))\<close>, on the memory, \<^verbatim>\<open>dst\<close> and \<^verbatim>\<open>_last_elt\<close>.\<close>

type_synonym select_state = "uheap \<times> addr \<times> addr"

definition select_elt :: "uheap \<Rightarrow> addr \<Rightarrow> select_state \<Rightarrow> select_state res option" where
  "select_elt s e st = (case st of (d, dst, last_elt) \<Rightarrow>
     obind (Some (elt s e (el_key s e, el_hashv s e))) (\<lambda>(keyptr, hashv).
     obind (Some (elt d e (d\<lparr>el_key := (el_key d)(e := keyptr), el_hashv := (el_hashv d)(e := hashv),
                             el_prev := (el_prev d)(e := last_elt), el_next := (el_next d)(e := NULL)\<rparr>))) (\<lambda>d.
     obind (Some (if last_elt = NULL then Inr d
                  else elt d last_elt (d\<lparr>el_next := (el_next d)(last_elt := e)\<rparr>))) (\<lambda>d.
     obind (Some (if dst = NULL then rbind (HASH_MAKE_TABLE_mem d e) (\<lambda>d. Inr (d, e))
                  else rbind (elt d dst (el_tbl d dst)) (\<lambda>tp. Inr (d\<lparr>el_tbl := (el_tbl d)(e := tp)\<rparr>, dst)))) (\<lambda>(d, dst).
     obind (Some (tbl_of d e)) (\<lambda>(tp, t).
     obind (HASH_ADD_TO_BKT_mem d tp (HASH_TO_BKT (el_hashv d e) (pt_num_buckets t)) e) (\<lambda>d.
     obind (Some (tbl_of d dst)) (\<lambda>(tp, t).
       Some (Inr (set_tbl d tp (t\<lparr>pt_num_items := pt_num_items t + 1\<rparr>), dst, e))))))))))"

partial_function (option) select_chain ::
  "uheap \<Rightarrow> (addr \<Rightarrow> bool) \<Rightarrow> addr \<Rightarrow> select_state \<Rightarrow> select_state res option" where
  "select_chain s cond src_hh st =
     (if src_hh = NULL then Some (Inr st)
      else case elt s src_hh (el_hh_next s src_hh) of
        Inl e \<Rightarrow> Some (Inl e)
      | Inr nxt \<Rightarrow> (case (if cond src_hh then select_elt s src_hh st else Some (Inr st)) of
          None \<Rightarrow> None
        | Some r \<Rightarrow> (case r of Inl e \<Rightarrow> Some (Inl e) | Inr st \<Rightarrow> select_chain s cond nxt st)))"

fun select_buckets :: "uheap \<Rightarrow> (addr \<Rightarrow> bool) \<Rightarrow> ptable \<Rightarrow> nat list \<Rightarrow> select_state \<Rightarrow> select_state res option" where
  "select_buckets s cond t [] st = Some (Inr st)"
| "select_buckets s cond t (i # is) st =
     obind (Some (bucket_at t i)) (\<lambda>b.
     obind (select_chain s cond (hh_head b) st) (select_buckets s cond t is))"

text \<open>The memory of the second handles and the new value of \<^verbatim>\<open>dst\<close>.\<close>

definition HASH_SELECT :: "uheap \<Rightarrow> addr \<Rightarrow> (addr \<Rightarrow> bool) \<Rightarrow> uheap \<Rightarrow> addr \<Rightarrow> (uheap \<times> addr) res option" where
  "HASH_SELECT s src cond d dst =
     (if src = NULL then Some (Inr (d, dst))
      else obind (Some (tbl_of s src)) (\<lambda>(tp, t).
           obind (select_buckets s cond t [0..<unat (pt_num_buckets t)] (d, dst, NULL)) (\<lambda>(d, dst, last_elt).
             Some (Inr (d, dst)))))"

section \<open>The table it builds\<close>

text \<open>
  What is done to the table for one item: as \<open>HASH_ADD\<close>, but the counter comes after the bucket, so that a
  doubling on the way sees the number without the new item.  \<open>room_for\<close>: the bucket numbers do not wrap on the way.
\<close>

definition select_add :: "hash_head \<Rightarrow> UT_hash_handle \<Rightarrow> hash_head" where
  "select_add ho hh =
     (let t = (case ho of None \<Rightarrow> HASH_MAKE_TABLE | Some t \<Rightarrow> t);
          t = HASH_ADD_TO_BKT (t\<lparr>app := app t @ [hh]\<rparr>) (HASH_TO_BKT (hh_hashv hh) (num_buckets t)) hh
      in Some (t\<lparr>num_items := num_items t + 1\<rparr>))"

fun room_for :: "hash_head \<Rightarrow> UT_hash_handle list \<Rightarrow> bool" where
  "room_for ho [] = True"
| "room_for ho (hh # hs) = (hash_room ho \<and> room_for (select_add ho hh) hs)"

lemma room_for_append: "room_for ho (us @ vs) \<longleftrightarrow> room_for ho us \<and> room_for (foldl select_add ho us) vs"
  by (induction us arbitrary: ho) auto

definition tbl_or_new :: "hash_head \<Rightarrow> UT_hash_table" where
  "tbl_or_new ho = (case ho of None \<Rightarrow> HASH_MAKE_TABLE | Some t \<Rightarrow> t)"

lemma tbl_or_new:
  assumes "hash_ok ho"
  shows "table_ok (tbl_or_new ho)" "hash_elts ho = elts (app (tbl_or_new ho))" "(app (tbl_or_new ho) = []) = (ho = None)"
    "hash_room ho \<Longrightarrow> length (app (tbl_or_new ho)) + 1 < 2 ^ 32 \<and> unat (log2_num_buckets (tbl_or_new ho)) < 30"
  using assms HASH_MAKE_TABLE_ok
  by (auto simp: tbl_or_new_def hash_ok_def hash_elts_def hash_room_def HASH_MAKE_TABLE_def split: option.splits)

lemma select_add_ok:
  assumes ok: "hash_ok ho" and room: "hash_room ho" and new: "hh_elt hh \<notin> set (hash_elts ho)" and jen: "hh_hashv hh = HASH_JEN (hh_key hh)"
  shows "\<exists>t. select_add ho hh = Some t \<and> table_ok t \<and> app t = app (tbl_or_new ho) @ [hh]"
proof -
  define t where "t = tbl_or_new ho"
  define t1 where "t1 = t\<lparr>app := app t @ [hh]\<rparr>"
  define t2 where "t2 = HASH_ADD_TO_BKT t1 (HASH_TO_BKT (hh_hashv hh) (num_buckets t1)) hh"
  note t = tbl_or_new [OF ok, folded t_def]
  have "chains_ok (buckets t1) (num_buckets t1) (mset (app t))" "unat (num_buckets t1) = 2 ^ unat (log2_num_buckets t1)"
    "unat (log2_num_buckets t1) < 30" using t(1) t(4) [OF room] by (auto simp: t1_def table_ok_def)
  note 2 = HASH_ADD_TO_BKT_ok [OF this(1) refl this(2,3), of hh, folded t2_def]
  have eq: "select_add ho hh = Some (t2\<lparr>num_items := num_items t2 + 1\<rparr>)"
    by (simp add: select_add_def t2_def t1_def t_def tbl_or_new_def Let_def)
  have "table_ok (t2\<lparr>num_items := num_items t2 + 1\<rparr>)"
    using 2 t(1) t(4) [OF room] new jen unfolding t(2) by (auto simp: table_ok_def t1_def add.commute)
  then show ?thesis using eq 2(3) by (simp add: t1_def t_def)
qed

section \<open>The memory follows the table\<close>

text \<open>
  \<open>sel_inv d0 ho\<close>: after the items of \<open>ho\<close> were selected into a destination that was empty, in a memory that was \<open>d0\<close>.
  The items are linked in the order they came; but the tail of the table is the first of them.
\<close>

fun sel_inv :: "uheap \<Rightarrow> hash_head \<Rightarrow> select_state \<Rightarrow> bool" where
  "sel_inv d0 ho (d, dst, last_elt) \<longleftrightarrow> heap_ok d \<and> hash_ok ho \<and> keeps (set (hash_elts ho)) (tbl_brk d0) d0 d
     \<and> (case ho of
          None \<Rightarrow> dst = NULL \<and> last_elt = NULL \<and> tbl_brk d = tbl_brk d0
        | Some t \<Rightarrow> tbl_at d (tbl_brk d0) t (hd (elts (app t))) \<and> last_elt = last (elts (app t))
            \<and> dseg (el_next d) (el_prev d) NULL dst (elts (app t)) NULL)"

declare sel_inv.simps [simp del]

definition add_selected :: "uheap \<Rightarrow> addr \<Rightarrow> u32 \<Rightarrow> u32 \<Rightarrow> addr \<Rightarrow> addr \<Rightarrow> select_state res option" where
  "add_selected d tp hashv n e dst = obind (HASH_ADD_TO_BKT_mem d tp (HASH_TO_BKT hashv n) e) (\<lambda>d.
     obind (Some (tbl_of d dst)) (\<lambda>(tp, t). Some (Inr (set_tbl d tp (t\<lparr>pt_num_items := pt_num_items t + 1\<rparr>), dst, e))))"

lemma select_elt_link:
  fixes d0 d g ho
  defines "t \<equiv> tbl_or_new ho"
  defines "t1 \<equiv> t\<lparr>app := app t @ [g]\<rparr>"
  assumes I: "sel_inv d0 ho (d, dst, l)" and g: "stored s tps g" "hh_elt g \<notin> set (hash_elts ho)" "hh_elt g \<noteq> NULL" "el_live d (hh_elt g)"
  shows "\<exists>d1 dst1. select_elt s (hh_elt g) (d, dst, l) = add_selected d1 (tbl_brk d0) (hh_hashv g) (num_buckets t) (hh_elt g) dst1
    \<and> tbl_at d1 (tbl_brk d0) t1 (hd (elts (app t1))) \<and> dseg (el_next d1) (el_prev d1) NULL dst1 (elts (app t1)) NULL
    \<and> keeps (set (elts (app t1))) (tbl_brk d0) d d1 \<and> heap_ok d1"
proof (cases ho)
  case None
  let ?e = "hh_elt g" and ?tp = "tbl_brk d0"
  have i: "dst = NULL" "l = NULL" "tbl_brk d = ?tp" "heap_ok d" and t: "t = HASH_MAKE_TABLE" "app t1 = [g]"
    using I None by (simp_all add: sel_inv.simps t_def t1_def tbl_or_new_def HASH_MAKE_TABLE_def)
  have src: "el_live s ?e" "el_key s ?e = hh_key g" "el_hashv s ?e = hh_hashv g" using g(1) by (simp_all add: stored_def)
  define d1 where "d1 = d\<lparr>el_key := (el_key d)(?e := hh_key g), el_hashv := (el_hashv d)(?e := hh_hashv g),
     el_prev := (el_prev d)(?e := NULL), el_next := (el_next d)(?e := NULL), el_tbl := (el_tbl d)(?e := ?tp),
     tbls := (tbls d)(?tp \<mapsto> \<lparr>pt_buckets = replicate 32 empty_pbucket, pt_num_buckets = 32, pt_log2 = 5, pt_num_items = 0,
       pt_tail = ?e, pt_ideal = 0, pt_nonideal = 0, pt_ineff = 0, pt_noexpand = 0\<rparr>), tbl_brk := Suc ?tp\<rparr>"
  have pos: "?tp \<noteq> NULL" using i(3,4) by (simp add: heap_ok_def)
  have "select_elt s ?e (d, dst, l) = add_selected d1 ?tp (hh_hashv g) (num_buckets t) ?e ?e"
    using g src pos by (simp add: select_elt_def add_selected_def i(1-3) elt_def HASH_MAKE_TABLE_mem_def tbl_of_def d1_def t(1) HASH_MAKE_TABLE_def)
  moreover have "tbl_at d1 ?tp t1 (hd (elts (app t1)))"
    using g pos all_reps_empty [of d1 32]
    by (simp add: tbl_at_def t t1_def HASH_MAKE_TABLE_def d1_def stored_def counters_rep_def all_reps_def)
  moreover have "dseg (el_next d1) (el_prev d1) NULL ?e (elts (app t1)) NULL" using g(3) by (simp add: t d1_def)
  moreover have "keeps (set (elts (app t1))) ?tp d d1" "heap_ok d1" using i(3,4) by (simp_all add: keeps_def t d1_def heap_ok_def)
  ultimately show ?thesis by blast
next
  case (Some u)
  let ?e = "hh_elt g" and ?tp = "tbl_brk d0"
  have t: "t = u" "hash_elts ho = elts (app u)" using Some by (simp_all add: t_def tbl_or_new_def hash_elts_def)
  have i: "heap_ok d" "tbl_at d ?tp u (hd (elts (app u)))" "l = last (elts (app u))"
    "dseg (el_next d) (el_prev d) NULL dst (elts (app u)) NULL" using I Some by (simp_all add: sel_inv.simps)
  obtain as b where as: "elts (app u) = as @ [b]" using i(2) by (metis list.map_disc_iff rev_exhaust tbl_at_def)
  have ne: "app u \<noteq> []" using as by auto
  have live: "x \<noteq> NULL" "el_live d x" "x \<noteq> ?e" "el_tbl d x = ?tp" if "x \<in> set (elts (app u))" for x
    using that i(2) g(2) unfolding t(2) by (force simp: tbl_at_def stored_def)+
  have b: "l = b" "b \<in> set (elts (app u))" using as i(3) by simp_all
  have dst: "dst \<in> set (elts (app u))" using i(4) ne by (cases "app u") auto
  obtain pt where pt: "tbls d ?tp = Some pt" "counters_rep pt u" using tbl_at_of [OF i(2) dst] .
  have src: "el_live s ?e" "el_key s ?e = hh_key g" "el_hashv s ?e = hh_hashv g" using g(1) by (simp_all add: stored_def)
  define d1 where "d1 = d\<lparr>el_key := (el_key d)(?e := hh_key g), el_hashv := (el_hashv d)(?e := hh_hashv g),
     el_prev := (el_prev d)(?e := b), el_next := ((el_next d)(?e := NULL))(b := ?e), el_tbl := (el_tbl d)(?e := ?tp)\<rparr>"
  have pos: "?tp \<noteq> NULL" using i(2) by (simp add: tbl_at_def)
  have "select_elt s ?e (d, dst, l) = add_selected d1 ?tp (hh_hashv g) (num_buckets t) ?e dst"
    using g src pos b live [OF b(2)] live [OF dst] pt
    by (simp add: select_elt_def add_selected_def elt_def tbl_of_def d1_def t(1) counters_rep_def)
  moreover have "tbl_at d1 ?tp t1 (hd (elts (app t1)))"
  proof -
    have "\<forall>hh \<in> set (app t1). stored d1 ?tp hh"
      using i(2) g(4) live(3) by (force simp: tbl_at_def t(1) t1_def d1_def stored_def)
    then show ?thesis using i(2) g(2,3) ne pt(1) unfolding t(2) by (simp add: tbl_at_def t(1) t1_def d1_def counters_rep_def)
  qed
  moreover have "dseg (el_next d1) (el_prev d1) NULL dst (elts (app t1)) NULL"
    using dseg_push_back [of "el_next d" "el_prev d" NULL dst as b ?e] i(4) g(2,3) as t(2) by (simp add: t(1) t1_def d1_def)
  moreover have "keeps (set (elts (app t1))) ?tp d d1" using b(2) by (auto simp: keeps_def t(1) t1_def d1_def)
  moreover have "heap_ok d1" using i(1) by (simp add: heap_ok_def d1_def)
  ultimately show ?thesis by blast
qed

lemma select_elt_ok:
  assumes I: "sel_inv d0 ho st" and room: "hash_room ho" and jen: "hh_hashv g = HASH_JEN (hh_key g)"
    and g: "stored s tps g" "hh_elt g \<notin> set (hash_elts ho)" "hh_elt g \<noteq> NULL" "el_live d0 (hh_elt g)"
  shows "\<exists>st'. select_elt s (hh_elt g) st = Some (Inr st') \<and> sel_inv d0 (select_add ho g) st'"
proof -
  obtain d dst l where st: "st = (d, dst, l)" by (cases st)
  let ?tp = "tbl_brk d0" and ?e = "hh_elt g"
  define t where "t = tbl_or_new ho"
  define t1 where "t1 = t\<lparr>app := app t @ [g]\<rparr>"
  define t2 where "t2 = HASH_ADD_TO_BKT t1 (HASH_TO_BKT (hh_hashv g) (num_buckets t)) g"
  have ok: "hash_ok ho" and k0: "keeps (set (hash_elts ho)) ?tp d0 d" using I st by (simp_all add: sel_inv.simps)
  note t = tbl_or_new [OF ok, folded t_def]
  have live: "el_live d ?e" using k0 g(4) by (simp add: keeps_def)
  obtain d1 dst1 where 1: "select_elt s ?e st = add_selected d1 ?tp (hh_hashv g) (num_buckets t) ?e dst1"
    "tbl_at d1 ?tp t1 (hd (elts (app t1)))" "dseg (el_next d1) (el_prev d1) NULL dst1 (elts (app t1)) NULL"
    "keeps (set (elts (app t1))) ?tp d d1" "heap_ok d1"
    using select_elt_link [OF I [unfolded st] g(1-3) live] unfolding t1_def t_def st by blast
  have n: "num_buckets t * 2 \<noteq> 0"
    using doubling_no_wrap(2) [of "num_buckets t" "log2_num_buckets t"] t(1) t(4) [OF room] by (simp add: table_ok_def)
  have "add_mset g (mset (concat (map bk_chain (buckets t1)))) \<subseteq># mset (app t1)"
    using t(1) by (simp add: t1_def table_ok_def chains_ok_def)
  moreover have "HASH_TO_BKT (hh_hashv g) (num_buckets t) < length (buckets t1)" using bucket_in_range [OF t(1)] by (simp add: t1_def)
  ultimately obtain d2 where 2: "HASH_ADD_TO_BKT_mem d1 ?tp (HASH_TO_BKT (hh_hashv g) (num_buckets t)) ?e = Some (Inr d2)"
    "tbl_at d2 ?tp t2 (hd (elts (app t1)))" "keeps (set (elts (app t1))) ?tp d1 d2"
    "tbl_brk d2 = tbl_brk d1" "el_next d2 = el_next d1" "el_prev d2 = el_prev d1"
    using HASH_ADD_TO_BKT_mem_at [OF 1(2), of g] n unfolding t2_def by (fastforce simp: t1_def)
  have app: "app t2 = app t @ [g]" by (simp add: t2_def HASH_ADD_TO_BKT_app t1_def)
  have "dst1 \<in> set (elts (app t2))" using 1(3) dseg_start [OF 1(3)] unfolding app by (cases "app t") (auto simp: t1_def)
  from tbl_at_of [OF 2(2) this] obtain pt where pt: "tbls d2 ?tp = Some pt" "tbl_of d2 dst1 = Inr (?tp, pt)" .
  define d3 where "d3 = set_tbl d2 ?tp (pt\<lparr>pt_num_items := pt_num_items pt + 1\<rparr>)"
  let ?t3 = "t2\<lparr>num_items := num_items t2 + 1\<rparr>"
  have run: "select_elt s ?e st = Some (Inr (d3, dst1, ?e))" using 1(1) 2(1) pt(2) by (simp add: add_selected_def d3_def)
  have t3: "select_add ho g = Some ?t3" by (simp add: select_add_def t2_def t1_def t_def tbl_or_new_def Let_def)
  have "table_ok ?t3" using select_add_ok [OF ok room g(2) jen] t3 by auto
  moreover have "tbl_at d3 ?tp ?t3 (hd (elts (app ?t3)))"
    using 2(2) pt(1) by (simp add: tbl_at_def d3_def set_tbl_def stored_def counters_rep_def app t1_def)
  moreover have "dseg (el_next d3) (el_prev d3) NULL dst1 (elts (app ?t3)) NULL"
    using 1(3) 2(5,6) by (simp add: d3_def set_tbl_def app t1_def)
  moreover have "keeps (set (elts (app ?t3))) ?tp d0 d3"
  proof -
    have "keeps (set (elts (app t1))) ?tp d d3" unfolding d3_def
      using keeps_trans [OF keeps_trans [OF 1(4) 2(3)] keeps_set_tbl [where S = "{}"]] by blast
    from keeps_trans [OF k0 this, of "set (elts (app ?t3))"] show ?thesis by (simp add: app t1_def t(2) subset_insertI)
  qed
  moreover have "heap_ok d3"
  proof -
    have "tbls d1 ?tp \<noteq> None" using 1(2) by (simp add: tbl_at_def split: option.splits)
    then have "?tp < tbl_brk d1" using 1(5) unfolding heap_ok_def by (metis not_le)
    then show ?thesis using 1(5) 2(3,4) by (simp add: heap_ok_def keeps_def d3_def set_tbl_def)
  qed
  ultimately show ?thesis using run by (simp add: sel_inv.simps t3 hash_ok_def hash_elts_def app)
qed

section \<open>The loops\<close>

definition selectable :: "uheap \<Rightarrow> addr \<Rightarrow> uheap \<Rightarrow> UT_hash_handle list \<Rightarrow> bool" where
  "selectable s tps d0 gs \<longleftrightarrow> distinct (elts gs)
     \<and> (\<forall>g \<in> set gs. stored s tps g \<and> hh_hashv g = HASH_JEN (hh_key g) \<and> hh_elt g \<noteq> NULL \<and> el_live d0 (hh_elt g))"

lemma selectable_append:
  "selectable s tps d0 (us @ vs) \<longleftrightarrow> selectable s tps d0 us \<and> selectable s tps d0 vs \<and> set (elts us) \<inter> set (elts vs) = {}"
  by (auto simp: selectable_def)

lemma select_app: "app (tbl_or_new (foldl select_add ho gs)) = app (tbl_or_new ho) @ gs"
  by (induction gs arbitrary: ho) (simp_all add: select_add_def tbl_or_new_def Let_def HASH_ADD_TO_BKT_app)

lemma select_elts: "hash_elts (foldl select_add ho gs) = hash_elts ho @ elts gs"
proof -
  have "hash_elts h = elts (app (tbl_or_new h))" for h
    by (simp add: hash_elts_def tbl_or_new_def HASH_MAKE_TABLE_def split: option.splits)
  then show ?thesis by (simp add: select_app)
qed

lemma select_entries: "hash_entries (foldl select_add None gs) = map (\<lambda>hh. (hh_key hh, hh_elt hh)) gs"
proof -
  have "hash_entries h = map (\<lambda>hh. (hh_key hh, hh_elt hh)) (app (tbl_or_new h))" for h
    by (simp add: hash_entries_def tbl_or_new_def HASH_MAKE_TABLE_def split: option.splits)
  moreover have "app (tbl_or_new None) = []" by (simp add: tbl_or_new_def HASH_MAKE_TABLE_def)
  ultimately show ?thesis by (simp add: select_app)
qed

lemma select_Some: "gs \<noteq> [] \<Longrightarrow> \<exists>t. foldl select_add None gs = Some t \<and> app t = gs"
proof -
  assume "gs \<noteq> []"
  then obtain us u where gs: "gs = us @ [u]" by (cases gs rule: rev_cases) auto
  then have "\<exists>t. foldl select_add None gs = Some t" by (simp add: select_add_def Let_def)
  then show ?thesis using select_app [of None gs] by (auto simp: tbl_or_new_def HASH_MAKE_TABLE_def)
qed

lemma select_chain_ok:
  assumes "dseg (el_hh_next s) (el_hh_prev s) r p (elts gs) NULL" and "selectable s tps d0 gs"
    and "set (elts gs) \<inter> set (hash_elts ho) = {}" and "room_for ho (filter (\<lambda>g. cond (hh_elt g)) gs)" and "sel_inv d0 ho st"
  shows "\<exists>st'. select_chain s cond p st = Some (Inr st') \<and> sel_inv d0 (foldl select_add ho (filter (\<lambda>g. cond (hh_elt g)) gs)) st'"
  using assms
proof (induction gs arbitrary: r p ho st)
  case Nil
  then show ?case by (simp add: select_chain.simps)
next
  case (Cons g gs)
  let ?ho = "if cond (hh_elt g) then select_add ho g else ho"
  have g: "stored s tps g" "hh_hashv g = HASH_JEN (hh_key g)" "hh_elt g \<noteq> NULL" "el_live d0 (hh_elt g)"
    "hh_elt g \<notin> set (elts gs)" "selectable s tps d0 gs" "hh_elt g \<notin> set (hash_elts ho)" "p = hh_elt g"
    using Cons.prems(1-3) by (auto simp: selectable_def)
  have "\<exists>st1. (if cond (hh_elt g) then select_elt s (hh_elt g) st else Some (Inr st)) = Some (Inr st1) \<and> sel_inv d0 ?ho st1"
    using select_elt_ok [OF Cons.prems(5) _ g(2,1,7,3,4)] Cons.prems(4,5) by (cases "cond (hh_elt g)") simp_all
  then obtain st1 where 1: "(if cond (hh_elt g) then select_elt s (hh_elt g) st else Some (Inr st)) = Some (Inr st1)" "sel_inv d0 ?ho st1"
    by blast
  have "set (elts gs) \<inter> set (hash_elts ?ho) = {}"
    using Cons.prems(3) g(5) select_elts [of ho "[g]"] by auto
  moreover have "room_for ?ho (filter (\<lambda>g. cond (hh_elt g)) gs)" using Cons.prems(4) by auto
  ultimately obtain st' where "select_chain s cond (el_hh_next s (hh_elt g)) st1 = Some (Inr st')"
      "sel_inv d0 (foldl select_add ?ho (filter (\<lambda>g. cond (hh_elt g)) gs)) st'"
    using Cons.IH [of "hh_elt g" "el_hh_next s (hh_elt g)", OF _ g(6) _ _ 1(2)] Cons.prems(1) by (simp del: split_paired_Ex) blast
  then show ?case using 1(1) g(1,3,8) by (auto simp: select_chain.simps [of s cond "hh_elt g"] elt_def stored_def)
qed

lemma select_buckets_ok:
  assumes reps: "list_all2 (chain_rep (el_hh_next s) (el_hh_prev s)) (pt_buckets pt) bs" and "\<forall>i \<in> set is. i < length bs"
    and "selectable s tps d0 (concat (map (\<lambda>i. bk_chain (bs ! i)) is))"
    and "set (elts (concat (map (\<lambda>i. bk_chain (bs ! i)) is))) \<inter> set (hash_elts ho) = {}"
    and "room_for ho (filter (\<lambda>g. cond (hh_elt g)) (concat (map (\<lambda>i. bk_chain (bs ! i)) is)))" and "sel_inv d0 ho st"
  shows "\<exists>st'. select_buckets s cond pt is st = Some (Inr st')
    \<and> sel_inv d0 (foldl select_add ho (filter (\<lambda>g. cond (hh_elt g)) (concat (map (\<lambda>i. bk_chain (bs ! i)) is)))) st'"
  using assms(2-)
proof (induction "is" arbitrary: ho st)
  case Nil
  then show ?case by simp
next
  case (Cons i "is")
  let ?gs = "bk_chain (bs ! i)" and ?rest = "concat (map (\<lambda>i. bk_chain (bs ! i)) is)"
  let ?sel = "filter (\<lambda>g. cond (hh_elt g))"
  have i: "bucket_at pt i = Inr (pt_buckets pt ! i)" "dseg (el_hh_next s) (el_hh_prev s) NULL (hh_head (pt_buckets pt ! i)) (elts ?gs) NULL"
    using Cons.prems(1) list_all2_nthD2 [OF reps, of i] list_all2_lengthD [OF reps] by (simp_all add: bucket_at_def chain_rep_def)
  have sel: "selectable s tps d0 ?gs" "selectable s tps d0 ?rest" "set (elts ?gs) \<inter> set (elts ?rest) = {}"
    using Cons.prems(2) unfolding list.map concat.simps selectable_append by blast+
  have room: "room_for ho (?sel ?gs)" "room_for (foldl select_add ho (?sel ?gs)) (?sel ?rest)"
    using Cons.prems(4) by (simp_all add: room_for_append)
  have "set (elts ?gs) \<inter> set (hash_elts ho) = {}" using Cons.prems(3) by auto
  from select_chain_ok [OF i(2) sel(1) this room(1) Cons.prems(5)] obtain st1
    where 1: "select_chain s cond (hh_head (pt_buckets pt ! i)) st = Some (Inr st1)" "sel_inv d0 (foldl select_add ho (?sel ?gs)) st1" by blast
  have "set (elts ?rest) \<inter> set (hash_elts (foldl select_add ho (?sel ?gs))) = {}"
    using Cons.prems(3) sel(3) unfolding select_elts by auto
  from Cons.IH [OF _ sel(2) this room(2) 1(2)] Cons.prems(1) obtain st' where "select_buckets s cond pt is st1 = Some (Inr st')"
    "sel_inv d0 (foldl select_add (foldl select_add ho (?sel ?gs)) (?sel ?rest)) st'" by auto
  then show ?case using i(1) 1(1) by simp
qed

text \<open>The items of a table in the order in which the buckets have them.\<close>

definition chained :: "hash_head \<Rightarrow> UT_hash_handle list" where
  "chained ho = (case ho of None \<Rightarrow> [] | Some t \<Rightarrow> concat (map bk_chain (buckets t)))"

lemma chained_elts: "hash_ok ho \<Longrightarrow> mset (map (\<lambda>hh. (hh_key hh, hh_elt hh)) (chained ho)) = mset (hash_entries ho)"
  by (simp add: chained_def hash_entries_def hash_ok_def table_ok_def chains_ok_def split: option.splits)

lemma chained_set: "hash_ok ho \<Longrightarrow> set (elts (chained ho)) = set (hash_elts ho)"
  using arg_cong [OF chained_elts, of ho "\<lambda>m. snd ` set_mset m"] by (simp add: hash_elts_entries image_image)

lemma HASH_SELECT_ok:
  assumes R: "hash_rep s tps src ho" and ok: "hash_ok ho" and d: "heap_ok d" "\<forall>a \<in> set (hash_elts ho). el_live d a"
    and room: "room_for None (filter (\<lambda>g. cond (hh_elt g)) (chained ho))"
  shows "\<exists>d' dst l. HASH_SELECT s src cond d NULL = Some (Inr (d', dst))
    \<and> sel_inv d (foldl select_add None (filter (\<lambda>g. cond (hh_elt g)) (chained ho))) (d', dst, l)"
proof -
  have inv: "sel_inv d None (d, NULL, NULL)" using d(1) by (simp add: sel_inv.simps hash_ok_def keeps_def)
  show ?thesis
  proof (cases ho)
    case None
    then show ?thesis using R inv by (auto simp: HASH_SELECT_def hash_rep_def chained_def)
  next
    case (Some t)
    then have t: "tbl_rep s tps src t" "table_ok t" "app t \<noteq> []" using R ok by (simp_all add: hash_rep_def hash_ok_def)
    then have "src \<in> set (elts (app t))" by (cases "app t") (auto simp: tbl_rep_def)
    then obtain pt where pt: "tbls s tps = Some pt" "tbl_of s src = Inr (tps, pt)" "counters_rep pt t" "src \<noteq> NULL"
      using t(1) unfolding tbl_rep_at by (blast elim: tbl_at_of)
    have reps: "list_all2 (chain_rep (el_hh_next s) (el_hh_prev s)) (pt_buckets pt) (buckets t)"
      using t(1) pt(1) by (simp add: tbl_rep_def)
    have n: "unat (pt_num_buckets pt) = length (buckets t)" using t(2) pt(3) by (simp add: table_ok_def chains_ok_def counters_rep_def)
    have all: "concat (map (\<lambda>i. bk_chain (buckets t ! i)) [0..<length (buckets t)]) = chained ho"
      unfolding chained_def Some by (simp add: map_nth comp_def flip: map_map [of bk_chain "\<lambda>i. buckets t ! i", unfolded comp_def])
    note c = chains_subD [OF table_ok_chains_sub [OF t(2)] tbl_rep_distinct [OF t(1)]]
    have "selectable s tps d (chained ho)"
      unfolding selectable_def
    proof (intro conjI ballI)
      show "distinct (elts (chained ho))" using c(1) by (simp add: chained_def Some)
      fix g assume "g \<in> set (chained ho)"
      then have g: "g \<in> set (app t)" using c(3) by (auto simp: chained_def Some)
      then show "stored s tps g" "hh_hashv g = HASH_JEN (hh_key g)" using t(1,2) by (auto simp: tbl_rep_def table_ok_def)
      show "hh_elt g \<noteq> NULL" using g t(1) unfolding tbl_rep_at tbl_at_def by fastforce
      show "el_live d (hh_elt g)" using g d(2) Some by (simp add: hash_elts_def)
    qed
    then have "\<exists>st'. select_buckets s cond pt [0..<length (buckets t)] (d, NULL, NULL) = Some (Inr st')
        \<and> sel_inv d (foldl select_add None (filter (\<lambda>g. cond (hh_elt g)) (chained ho))) st'"
      using select_buckets_ok [OF reps, of "[0..<length (buckets t)]" tps d None cond "(d, NULL, NULL)"] room inv
      unfolding all by (simp add: hash_elts_def)
    then show ?thesis using pt(2,4) n by (fastforce simp: HASH_SELECT_def)
  qed
qed

section \<open>The stale tail\<close>

text \<open>\<^verbatim>\<open>HASH_ADD\<close> on a table whose tail is any item of it: the items in the chains are right, but the new item is linked behind the tail.\<close>

lemma HASH_ADD_KEYPTR_at:
  assumes R: "tbl_at h tp t tle" and tok: "table_ok t" and room: "hash_room (Some t)"
    and head: "head \<in> set (elts (app t))" and tle: "tle \<in> set (elts (app t))"
    and add: "add \<noteq> NULL" "el_live h add" "add \<notin> set (elts (app t))"
  shows "\<exists>h' t'. HASH_ADD_KEYPTR h head keyptr add = Some (Inr (h', head)) \<and> HASH_ADD (Some t) keyptr add = Some t'
    \<and> tbl_at h' tp t' add \<and> el_next h' = (el_next h)(add := NULL, tle := add) \<and> el_prev h' = (el_prev h)(add := tle)"
proof -
  define hh where "hh = \<lparr>hh_elt = add, hh_key = keyptr, hh_hashv = HASH_JEN keyptr\<rparr>"
  define t1 where "t1 = t\<lparr>app := app t @ [hh], num_items := num_items t + 1\<rparr>"
  let ?i = "HASH_TO_BKT (HASH_JEN keyptr) (num_buckets t)"
  obtain pt where pt: "tbls h tp = Some pt" "tbl_of h head = Inr (tp, pt)" "counters_rep pt t" "pt_tail pt = tle"
    using tbl_at_of [OF R head] .
  have live: "x \<noteq> NULL" "el_live h x" "x \<noteq> add" "el_tbl h x = tp" if "x \<in> set (elts (app t))" for x
    using that R add(3) by (force simp: tbl_at_def stored_def)+
  have tp: "tp \<noteq> NULL" using R by (simp add: tbl_at_def)
  define h1 where "h1 = h\<lparr>el_key := (el_key h)(add := keyptr), el_next := (el_next h)(add := NULL, tle := add),
     el_prev := (el_prev h)(add := tle), tbls := (tbls h)(tp \<mapsto> pt\<lparr>pt_tail := add, pt_num_items := pt_num_items pt + 1\<rparr>),
     el_tbl := (el_tbl h)(add := tp), el_hashv := (el_hashv h)(add := HASH_JEN keyptr)\<rparr>"
  have run: "HASH_ADD_KEYPTR h head keyptr add = obind (HASH_ADD_TO_BKT_mem h1 tp ?i add) (\<lambda>h. Some (Inr (h, head)))"
    using add pt(1,3,4) tp live [OF tle] live [OF head]
    by (simp add: HASH_ADD_KEYPTR_def elt_def tbl_of_def set_tbl_def h1_def Let_def counters_rep_def)
  have st: "\<forall>g \<in> set (app t1). stored h1 tp g"
    using R live(3) add(2) by (force simp: tbl_at_def t1_def hh_def h1_def stored_def)
  have R1: "tbl_at h1 tp t1 add"
    using st R add pt(1) by (simp add: tbl_at_def t1_def hh_def h1_def counters_rep_def)
  have n: "num_buckets t * 2 \<noteq> 0"
    using doubling_no_wrap(2) [of "num_buckets t" "log2_num_buckets t"] tok room by (simp add: table_ok_def hash_room_def)
  have "add_mset hh (mset (concat (map bk_chain (buckets t1)))) \<subseteq># mset (app t1)"
    using tok by (simp add: t1_def table_ok_def chains_ok_def)
  moreover have "?i < length (buckets t1)" using bucket_in_range [OF tok] by (simp add: t1_def)
  ultimately obtain h' where h': "HASH_ADD_TO_BKT_mem h1 tp ?i add = Some (Inr h')" "tbl_at h' tp (HASH_ADD_TO_BKT t1 ?i hh) add"
    "el_next h' = el_next h1" "el_prev h' = el_prev h1"
    using HASH_ADD_TO_BKT_mem_at [OF R1, of hh ?i] n by (auto simp: t1_def hh_def)
  have "HASH_ADD (Some t) keyptr add = Some (HASH_ADD_TO_BKT t1 ?i hh)" by (simp add: HASH_ADD_def t1_def hh_def Let_def)
  with run h' show ?thesis by (intro exI [of _ h'] exI [of _ "HASH_ADD_TO_BKT t1 ?i hh"]) (simp add: h1_def)
qed

section \<open>Properties\<close>

lemma sel_inv_reads:
  assumes "sel_inv d0 ho (d, dst, l)"
  shows "HASH_FIND_mem d dst k = Some (Inr (case HASH_FIND ho k of None \<Rightarrow> NULL | Some a \<Rightarrow> a))" "HASH_FSCK d dst = Some (Inr True)"
proof (atomize (full), cases ho)
  case None
  then show "HASH_FIND_mem d dst k = Some (Inr (case HASH_FIND ho k of None \<Rightarrow> NULL | Some a \<Rightarrow> a)) \<and> HASH_FSCK d dst = Some (Inr True)"
    using assms by (simp add: sel_inv.simps HASH_FIND_mem_def HASH_FIND_def HASH_FSCK_def)
next
  case (Some t)
  then have t: "tbl_at d (tbl_brk d0) t (hd (elts (app t)))" "table_ok t" "app t \<noteq> []" "dseg (el_next d) (el_prev d) NULL dst (elts (app t)) NULL"
    using assms by (simp_all add: sel_inv.simps hash_ok_def)
  then have "dst \<in> set (elts (app t))" by (cases "app t") auto
  then show "HASH_FIND_mem d dst k = Some (Inr (case HASH_FIND ho k of None \<Rightarrow> NULL | Some a \<Rightarrow> a)) \<and> HASH_FSCK d dst = Some (Inr True)"
    using HASH_FIND_mem_at [OF t(1,2)] fsck_accepts_at [OF t(1,2,4)] Some by simp
qed

text \<open>A few items always fit.\<close>

lemma room_for_few:
  "unat (log2_num_buckets (tbl_or_new ho)) + length gs \<le> 30 \<Longrightarrow> length (app (tbl_or_new ho)) + length gs < 2 ^ 32 \<Longrightarrow> room_for ho gs"
proof (induction gs arbitrary: ho)
  case Nil
  then show ?case by simp
next
  case (Cons g gs)
  let ?t = "tbl_or_new ho" and ?u = "tbl_or_new (select_add ho g)"
  have "log2_num_buckets ?u = log2_num_buckets ?t \<or> log2_num_buckets ?u = log2_num_buckets ?t + 1"
    by (simp add: select_add_def tbl_or_new_def Let_def HASH_ADD_TO_BKT_def HASH_EXPAND_BUCKETS_simps)
  moreover have "unat (log2_num_buckets ?t + 1) \<le> unat (log2_num_buckets ?t) + 1" by (simp add: unat_word_ariths mod_less_eq_dividend [THEN order_trans])
  moreover have "app ?u = app ?t @ [g]" using select_app [of ho "[g]"] by simp
  ultimately have "room_for (select_add ho g) gs" using Cons.prems by (intro Cons.IH) auto
  moreover have "hash_room ho" using Cons.prems by (auto simp: hash_room_def tbl_or_new_def split: option.splits)
  ultimately show ?case by simp
qed

lemma demo_source:
  "\<exists>s tps src ho. hash_rep s tps src ho \<and> hash_ok ho \<and> hash_entries ho = [([7, 0, 0, 0], 5), ([8, 0, 0, 0], 6)]"
proof -
  let ?h1 = "HASH_ADD None [7, 0, 0, 0] 5" and ?k2 = "[8, 0, 0, 0] :: u8 list"
  have "hash_rep demo_heap 1 NULL None" "heap_ok demo_heap" by (simp_all add: hash_rep_def heap_ok_def demo_heap_def)
  from HASH_ADD_KEYPTR_ok [OF this, of 5 "[7, 0, 0, 0]"]
  obtain h head where h: "heap_ok h" "hash_rep h 1 head ?h1" "el_live h = el_live demo_heap"
    by (auto simp: demo_heap_def hash_ok_def hash_room_def hash_elts_def keeps_def)
  have 1: "hash_ok ?h1" "hash_entries ?h1 = [([7, 0, 0, 0], 5)]"
    using HASH_ADD_ok [of None 5 "[7, 0, 0, 0]"] by (simp_all add: hash_ok_def hash_room_def hash_entries_def)
  have room: "hash_room ?h1"
    using room_for_few [of None "[g, g]" for g]
    by (simp add: hash_room_def HASH_ADD_def HASH_MAKE_TABLE_def HASH_ADD_TO_BKT_def empty_bucket_def HASH_EXPAND_BUCKETS_simps Let_def)
  have el: "hash_elts ?h1 = [5]" using 1(2) by (simp add: hash_elts_entries)
  have 2: "hash_ok (HASH_ADD ?h1 ?k2 6)" "hash_entries (HASH_ADD ?h1 ?k2 6) = [([7, 0, 0, 0], 5), (?k2, 6)]"
    using HASH_ADD_ok [OF 1(1) room, of 6 ?k2] 1(2) by simp_all
  from HASH_ADD_KEYPTR_ok [OF h(2,1) 1(1) room, of 6 ?k2] h(3) el
  have "\<exists>h' tp head'. hash_rep h' tp head' (HASH_ADD ?h1 ?k2 6)" by (auto simp: demo_heap_def)
  with 2 show ?thesis by blast
qed

lemma demo_chained:
  assumes "hash_ok ho" and "hash_entries ho = [([7, 0, 0, 0], 5), ([8, 0, 0, 0], 6)]"
  shows "hash_elts ho = [5, 6]" "length (chained ho) = 2" "room_for None (chained ho @ [g])"
proof -
  show "hash_elts ho = [5, 6]" using assms(2) by (simp add: hash_elts_entries)
  show 2: "length (chained ho) = 2" using arg_cong [OF chained_elts [OF assms(1)], of size] assms(2) by simp
  show "room_for None (chained ho @ [g])" by (rule room_for_few) (simp_all add: 2 tbl_or_new_def HASH_MAKE_TABLE_def)
qed

text \<open>The table of the items of a source that satisfy a condition.\<close>

definition selected :: "(addr \<Rightarrow> bool) \<Rightarrow> hash_head \<Rightarrow> hash_head" where
  "selected cond ho = foldl select_add None (filter (\<lambda>g. cond (hh_elt g)) (chained ho))"

text \<open>After a selection of two or more items, the next insertion goes behind the first one.\<close>

lemma stale_tail_add:
  assumes I: "sel_inv d (foldl select_add None sel) (d', dst, l)" and "hash_room (foldl select_add None sel)"
    and "2 \<le> length sel" and "add \<noteq> NULL" and "el_live d add" and "add \<notin> set (elts sel)"
  shows "\<exists>d''. HASH_ADD_KEYPTR d' dst keyptr add = Some (Inr (d'', dst))
    \<and> dseg (el_next d'') (el_prev d'') NULL dst [dst, add] NULL \<and> HASH_FSCK d'' dst = Some (Inr False)"
proof -
  have ne: "sel \<noteq> []" using assms(3) by auto
  then obtain t where t: "foldl select_add None sel = Some t" "app t = sel" using select_Some by blast
  have i: "tbl_at d' (tbl_brk d) t (hd (elts sel))" "table_ok t" "dseg (el_next d') (el_prev d') NULL dst (elts sel) NULL"
      "keeps (set (hash_elts (Some t))) (tbl_brk d) d d'"
    using I t by (simp_all add: sel_inv.simps hash_ok_def)
  have dst: "hd (elts sel) = dst" "dst \<in> set (elts sel)" "dst \<noteq> NULL" "el_prev d' dst = NULL"
    using i(3) ne by (cases sel; simp)+
  have new: "add \<notin> set (elts (app t))" "el_live d' add" using assms(5,6) i(4) by (auto simp: t(2) keeps_def)
  obtain d'' t' where a: "HASH_ADD_KEYPTR d' dst keyptr add = Some (Inr (d'', dst))" "HASH_ADD (Some t) keyptr add = Some t'"
    "tbl_at d'' (tbl_brk d) t' add" "el_next d'' = (el_next d')(add := NULL, dst := add)" "el_prev d'' = (el_prev d')(add := dst)"
    using HASH_ADD_KEYPTR_at [OF i(1,2) _ _ _ assms(4) new(2,1), of dst keyptr] assms(2) dst t by auto
  have ok': "table_ok t'" "map (\<lambda>h. (hh_key h, hh_elt h)) (app t') = map (\<lambda>h. (hh_key h, hh_elt h)) sel @ [(keyptr, add)]"
    using HASH_ADD_ok [of "Some t" add keyptr] a(2) i(2) assms(2) new(1) t ne
    by (auto simp: hash_ok_def hash_entries_def image_image)
  have len: "length (app t') = Suc (length sel)" using arg_cong [OF ok'(2), of length] by simp
  have seg: "dseg (el_next d'') (el_prev d'') NULL dst [dst, add] NULL" using a(4,5) dst new(1) assms(4) t(2) by auto
  have mem: "set (elts (app t')) = insert add (set (elts sel))"
    using arg_cong [OF ok'(2), of "\<lambda>xs. snd ` set xs"] by (simp add: image_image)
  have "\<forall>x \<in> set (elts (app t')). el_live d'' x" using a(3) by (auto simp: tbl_at_def stored_def)
  then have live: "el_live d'' dst" "el_live d'' add" using mem dst(2) by blast+
  have "unat (of_nat (length (app t')) :: u32) = length (app t')" using ok'(1) by (intro unat_of_nat_small) (simp add: table_ok_def)
  then have "unat (of_nat (length (app t')) :: u32) \<noteq> unat (2 :: u32)" using len assms(3) by simp
  then have "(of_nat (length [dst, add]) :: u32) \<noteq> of_nat (length (app t'))" by auto
  then have "HASH_FSCK d'' dst = Some (Inr False)"
    using fsck_list [OF a(3) ok'(1), of dst "[dst, add]"] seg live mem dst(2) by (simp add: live_seg_def)
  with a(1) seg show ?thesis by blast
qed

text \<open>
  C13: \<^verbatim>\<open>HASH_SELECT\<close> into an empty destination.  From an intact source table it returns, with a destination
  that holds exactly the items that satisfy the condition: there, every key finds what a table of these items has under
  it, and the integrity check passes; every other table of the second handles stays what it was.  But it never moves the
  tail of the new table from the first item.  If it has selected two or more items, the next \<^verbatim>\<open>HASH_ADD\<close> to the
  destination links the new item behind the first: \<^verbatim>\<open>HASH_ITER\<close> sees these two only, and the integrity check fails.
\<close>

theorem select_builds:
  assumes "hash_rep s tps src ho" and "hash_ok ho" and "heap_ok d" and "\<forall>a \<in> set (hash_elts ho). el_live d a"
    and "room_for None (filter (\<lambda>g. cond (hh_elt g)) (chained ho))" and "ho' = selected cond ho"
  shows "mset (hash_entries ho') = filter_mset (\<lambda>e. cond (snd e)) (mset (hash_entries ho)) \<and> hash_ok ho'
    \<and> (\<exists>d' dst. HASH_SELECT s src cond d NULL = Some (Inr (d', dst))
      \<and> (\<forall>k. HASH_FIND_mem d' dst k = Some (Inr (case HASH_FIND ho' k of None \<Rightarrow> NULL | Some a \<Rightarrow> a)))
      \<and> HASH_FSCK d' dst = Some (Inr True) \<and> others_kept (set (hash_elts ho')) (tbl_brk d) d d'
      \<and> (\<forall>keyptr add. 2 \<le> length (hash_entries ho') \<and> hash_room ho' \<and> add \<noteq> NULL \<and> el_live d add \<and> add \<notin> set (hash_elts ho') \<longrightarrow>
           (\<exists>d''. HASH_ADD_KEYPTR d' dst keyptr add = Some (Inr (d'', dst))
             \<and> dseg (el_next d'') (el_prev d'') NULL dst [dst, add] NULL \<and> HASH_FSCK d'' dst = Some (Inr False))))"
proof -
  define sel where "sel = filter (\<lambda>g. cond (hh_elt g)) (chained ho)"
  have ho': "ho' = foldl select_add None sel" by (simp add: assms(6) selected_def sel_def)
  obtain d' dst l where r: "HASH_SELECT s src cond d NULL = Some (Inr (d', dst))" "sel_inv d ho' (d', dst, l)"
    using HASH_SELECT_ok [OF assms(1-5)] unfolding ho' sel_def by blast
  have ok: "hash_ok ho'" "keeps (set (hash_elts ho')) (tbl_brk d) d d'" using r(2) by (simp_all add: sel_inv.simps)
  have e: "hash_entries ho' = map (\<lambda>hh. (hh_key hh, hh_elt hh)) sel" unfolding ho' by (rule select_entries)
  have m: "mset (hash_entries ho') = filter_mset (\<lambda>e. cond (snd e)) (mset (hash_entries ho))"
    unfolding chained_elts [OF assms(2), symmetric] e by (simp add: sel_def filter_mset_image_mset comp_def flip: mset_filter)
  have "\<exists>d''. HASH_ADD_KEYPTR d' dst keyptr add = Some (Inr (d'', dst))
      \<and> dseg (el_next d'') (el_prev d'') NULL dst [dst, add] NULL \<and> HASH_FSCK d'' dst = Some (Inr False)"
    if "2 \<le> length (hash_entries ho') \<and> hash_room ho' \<and> add \<noteq> NULL \<and> el_live d add \<and> add \<notin> set (hash_elts ho')" for keyptr add
    using that stale_tail_add [OF r(2) [unfolded ho'], of add keyptr] unfolding hash_elts_entries e ho' [symmetric] by (simp add: comp_def)
  then show ?thesis using r(1) ok(1) m sel_inv_reads [OF r(2)] keeps_others [OF ok(2)] by blast
qed

theorem select_builds_witness:
  "\<exists>s src d dst d'. HASH_SELECT s src (\<lambda>_. True) demo_heap NULL = Some (Inr (d, dst)) \<and> HASH_FSCK d dst = Some (Inr True)
    \<and> HASH_ADD_KEYPTR d dst [9, 0, 0, 0] 7 = Some (Inr (d', dst)) \<and> HASH_FSCK d' dst = Some (Inr False)"
proof -
  obtain s tps src ho where s: "hash_rep s tps src ho" "hash_ok ho" "hash_entries ho = [([7, 0, 0, 0], 5), ([8, 0, 0, 0], 6)]"
    using demo_source by blast
  note c = demo_chained [OF s(2,3)]
  let ?ho = "selected (\<lambda>_. True) ho"
  have mem: "heap_ok demo_heap" "\<forall>a \<in> set (hash_elts ho). el_live demo_heap a" using c(1) by (simp_all add: heap_ok_def demo_heap_def)
  have room: "room_for None (filter (\<lambda>g. True) (chained ho))" "hash_room ?ho"
    using c(3) by (simp_all add: selected_def room_for_append)
  note b = select_builds [OF s(1,2) mem room(1) refl]
  have "mset (hash_entries ?ho) = mset (hash_entries ho)" using b by simp
  then have n: "length (hash_entries ?ho) = 2" "set (hash_elts ?ho) = {5, 6}"
    using mset_eq_length [of "hash_entries ?ho" "hash_entries ho"] mset_eq_setD [of "hash_entries ?ho" "hash_entries ho"] s(3)
    by (simp_all add: hash_elts_entries)
  obtain d dst where r: "HASH_SELECT s src (\<lambda>_. True) demo_heap NULL = Some (Inr (d, dst))" "HASH_FSCK d dst = Some (Inr True)"
      "\<forall>keyptr add. 2 \<le> length (hash_entries ?ho) \<and> hash_room ?ho \<and> add \<noteq> NULL \<and> el_live demo_heap add \<and> add \<notin> set (hash_elts ?ho) \<longrightarrow>
           (\<exists>d''. HASH_ADD_KEYPTR d dst keyptr add = Some (Inr (d'', dst))
             \<and> dseg (el_next d'') (el_prev d'') NULL dst [dst, add] NULL \<and> HASH_FSCK d'' dst = Some (Inr False))"
    using b by (elim conjE exE)
  have "2 \<le> length (hash_entries ?ho) \<and> hash_room ?ho \<and> 7 \<noteq> NULL \<and> el_live demo_heap 7 \<and> 7 \<notin> set (hash_elts ?ho)"
    using room(2) by (simp add: n demo_heap_def)
  with r show ?thesis by blast
qed

end
