(* ===== verification/Utlist.thy ===== *)
theory Utlist
  imports Dlists
begin

text \<open>
  The list macros of \<^verbatim>\<open>utlist.h\<close>: singly linked lists (\<^verbatim>\<open>LL_\<close>), doubly linked lists whose first element
  has the last one as its predecessor (\<^verbatim>\<open>DL_\<close>), and circular lists (\<^verbatim>\<open>CDL_\<close>).  The memory keeps one
  function per pointer field.  Every macro is an operation on the memory and the head; the theory shows
  that all three kinds do to the list of elements what the operation is named after.
\<close>

section \<open>The memory\<close>

record lmem =
  lm_live :: "addr \<Rightarrow> bool"
  lm_next :: "addr \<Rightarrow> addr"
  lm_prev :: "addr \<Rightarrow> addr"

text \<open>An access through a pointer: \<open>x\<close> is what it gives if the element is there.\<close>

definition at :: "lmem \<Rightarrow> addr \<Rightarrow> 'a \<Rightarrow> 'a res" where
  "at m a x = (if a = NULL then Inl Null_deref else if lm_live m a then Inr x else Inl Use_after_free)"

definition set_nxt :: "lmem \<Rightarrow> addr \<Rightarrow> addr \<Rightarrow> lmem res" where
  "set_nxt m a v = at m a (m\<lparr>lm_next := (lm_next m)(a := v)\<rparr>)"

definition set_prv :: "lmem \<Rightarrow> addr \<Rightarrow> addr \<Rightarrow> lmem res" where
  "set_prv m a v = at m a (m\<lparr>lm_prev := (lm_prev m)(a := v)\<rparr>)"

definition assert_all :: "bool list \<Rightarrow> 'a res \<Rightarrow> 'a res" where
  "assert_all bs r = (if list_all id bs then r else Inl Assert_failed)"

text \<open>A macro leaves a memory and a head.\<close>

type_synonym lres = "(lmem \<times> addr) res"

section \<open>Singly linked lists\<close>

definition LL_PREPEND2 :: "lmem \<Rightarrow> addr \<Rightarrow> addr \<Rightarrow> lres" where
  "LL_PREPEND2 m head add = rbind (set_nxt m add head) (\<lambda>m. Inr (m, add))"

text \<open>\<^verbatim>\<open>while (_tmp->next) { _tmp = _tmp->next; }\<close>\<close>

partial_function (option) last_loop :: "lmem \<Rightarrow> addr \<Rightarrow> addr res option" where
  "last_loop m tmp = (case at m tmp (lm_next m tmp) of
     Inl e \<Rightarrow> Some (Inl e)
   | Inr n \<Rightarrow> if n = NULL then Some (Inr tmp) else last_loop m n)"

definition LL_CONCAT2 :: "lmem \<Rightarrow> addr \<Rightarrow> addr \<Rightarrow> lres option" where
  "LL_CONCAT2 m head1 head2 =
     (if head1 = NULL then Some (Inr (m, head2))
      else obind (last_loop m head1) (\<lambda>tmp.
           obind (Some (set_nxt m tmp head2)) (\<lambda>m. Some (Inr (m, head1)))))"

definition LL_APPEND2 :: "lmem \<Rightarrow> addr \<Rightarrow> addr \<Rightarrow> lres option" where
  "LL_APPEND2 m head add = obind (Some (set_nxt m add NULL)) (\<lambda>m.
     if head = NULL then Some (Inr (m, add))
     else obind (last_loop m head) (\<lambda>tmp.
          obind (Some (set_nxt m tmp add)) (\<lambda>m. Some (Inr (m, head)))))"

text \<open>\<^verbatim>\<open>while (_tmp->next && (_tmp->next != (del))) { _tmp = _tmp->next; }\<close>\<close>

partial_function (option) seek_loop :: "lmem \<Rightarrow> addr \<Rightarrow> addr \<Rightarrow> addr res option" where
  "seek_loop m del tmp = (case at m tmp (lm_next m tmp) of
     Inl e \<Rightarrow> Some (Inl e)
   | Inr n \<Rightarrow> if n = NULL \<or> n = del then Some (Inr tmp) else seek_loop m del n)"

definition LL_DELETE2 :: "lmem \<Rightarrow> addr \<Rightarrow> addr \<Rightarrow> lres option" where
  "LL_DELETE2 m head del =
     (if head = del then obind (Some (at m head (lm_next m head))) (\<lambda>n. Some (Inr (m, n)))
      else obind (seek_loop m del head) (\<lambda>tmp.
           if lm_next m tmp = NULL then Some (Inr (m, head))
           else obind (Some (at m del (lm_next m del))) (\<lambda>n.
                obind (Some (set_nxt m tmp n)) (\<lambda>m. Some (Inr (m, head))))))"

text \<open>
  The variants for compilers without \<^verbatim>\<open>decltype\<close> have no variable of the element's type: appending uses
  \<^verbatim>\<open>add->next\<close> to walk along the list, deleting uses \<^verbatim>\<open>head\<close> and restores it.
\<close>

partial_function (option) append_loop :: "lmem \<Rightarrow> addr \<Rightarrow> lmem res option" where
  "append_loop m add = (case at m add (lm_next m add) of
     Inl e \<Rightarrow> Some (Inl e)
   | Inr n \<Rightarrow> (case at m n (lm_next m n) of
       Inl e \<Rightarrow> Some (Inl e)
     | Inr nn \<Rightarrow> if nn = NULL then Some (Inr m)
                else (case set_nxt m add nn of Inl e \<Rightarrow> Some (Inl e) | Inr m' \<Rightarrow> append_loop m' add)))"

definition LL_APPEND2_VS2008 :: "lmem \<Rightarrow> addr \<Rightarrow> addr \<Rightarrow> lres option" where
  "LL_APPEND2_VS2008 m head add =
     obind (if head = NULL then Some (Inr (m, add))
            else obind (Some (set_nxt m add head)) (\<lambda>m.
                 obind (append_loop m add) (\<lambda>m.
                 obind (Some (set_nxt m (lm_next m add) add)) (\<lambda>m. Some (Inr (m, head)))))) (\<lambda>(m, head).
     obind (Some (set_nxt m add NULL)) (\<lambda>m. Some (Inr (m, head))))"

definition LL_DELETE2_VS2008 :: "lmem \<Rightarrow> addr \<Rightarrow> addr \<Rightarrow> lres option" where
  "LL_DELETE2_VS2008 m head del =
     (if head = del then obind (Some (at m head (lm_next m head))) (\<lambda>n. Some (Inr (m, n)))
      else let tmp = head in
           obind (seek_loop m del head) (\<lambda>head.
           obind (if lm_next m head = NULL then Some (Inr m)
                  else obind (Some (at m del (lm_next m del))) (\<lambda>n. Some (set_nxt m head n))) (\<lambda>m.
           Some (Inr (m, tmp)))))"

text \<open>
  \<^verbatim>\<open>LL_FOREACH2\<close> with a body that only looks at the elements: the elements it is run on, in order
  (\<open>seen\<close> are those before \<^verbatim>\<open>el\<close>).
  \<^verbatim>\<open>LL_COUNT2\<close> counts them, \<^verbatim>\<open>LL_SEARCH2\<close> stops at the first one that compares equal.
\<close>

partial_function (option) LL_FOREACH2 :: "lmem \<Rightarrow> addr \<Rightarrow> addr list \<Rightarrow> addr list res option" where
  "LL_FOREACH2 m el seen = (if el = NULL then Some (Inr seen)
     else case at m el (lm_next m el) of
       Inl e \<Rightarrow> Some (Inl e)
     | Inr n \<Rightarrow> LL_FOREACH2 m n (seen @ [el]))"

definition LL_COUNT2 :: "lmem \<Rightarrow> addr \<Rightarrow> nat res option" where
  "LL_COUNT2 m head = obind (LL_FOREACH2 m head []) (\<lambda>els. Some (Inr (fold (\<lambda>_ n. Suc n) els 0)))"

partial_function (option) LL_SEARCH2 :: "(addr \<Rightarrow> bool) \<Rightarrow> lmem \<Rightarrow> addr \<Rightarrow> addr res option" where
  "LL_SEARCH2 eq m out = (if out = NULL then Some (Inr NULL)
     else case at m out (lm_next m out) of
       Inl e \<Rightarrow> Some (Inl e)
     | Inr n \<Rightarrow> if eq out then Some (Inr out) else LL_SEARCH2 eq m n)"

definition LL_SEARCH_SCALAR2 :: "(addr \<Rightarrow> 'v) \<Rightarrow> 'v \<Rightarrow> lmem \<Rightarrow> addr \<Rightarrow> addr res option" where
  "LL_SEARCH_SCALAR2 field val m head = LL_SEARCH2 (\<lambda>out. field out = val) m head"

text \<open>\<^verbatim>\<open>LL_FOREACH_SAFE2\<close>: the successor is read before the body runs, which may change the memory.\<close>

partial_function (option) LL_FOREACH_SAFE2 :: "(lmem \<Rightarrow> addr \<Rightarrow> lmem res) \<Rightarrow> lmem \<Rightarrow> addr \<Rightarrow> lmem res option" where
  "LL_FOREACH_SAFE2 body m el = (if el = NULL then Some (Inr m)
     else case at m el (lm_next m el) of
       Inl e \<Rightarrow> Some (Inl e)
     | Inr tmp \<Rightarrow> (case body m el of Inl e \<Rightarrow> Some (Inl e) | Inr m' \<Rightarrow> LL_FOREACH_SAFE2 body m' tmp))"

definition LL_REPLACE_ELEM :: "lmem \<Rightarrow> addr \<Rightarrow> addr \<Rightarrow> addr \<Rightarrow> lres option" where
  "LL_REPLACE_ELEM m head el add =
     obind (Some (assert_all [head \<noteq> NULL, el \<noteq> NULL, add \<noteq> NULL] (at m el (lm_next m el)))) (\<lambda>n.
     obind (Some (set_nxt m add n)) (\<lambda>m.
     if head = el then Some (Inr (m, add))
     else obind (seek_loop m el head) (\<lambda>tmp.
          if lm_next m tmp = NULL then Some (Inr (m, head))
          else obind (Some (set_nxt m tmp add)) (\<lambda>m. Some (Inr (m, head))))))"

definition LL_PREPEND_ELEM :: "lmem \<Rightarrow> addr \<Rightarrow> addr \<Rightarrow> addr \<Rightarrow> lres option" where
  "LL_PREPEND_ELEM m head el add =
     obind (Some (assert_all [head \<noteq> NULL, el \<noteq> NULL, add \<noteq> NULL] (set_nxt m add el))) (\<lambda>m.
     if head = el then Some (Inr (m, add))
     else obind (seek_loop m el head) (\<lambda>tmp.
          if lm_next m tmp = NULL then Some (Inr (m, head))
          else obind (Some (set_nxt m tmp add)) (\<lambda>m. Some (Inr (m, head)))))"

section \<open>Doubly linked lists\<close>

text \<open>The loops over a doubly linked list are those over a singly linked one.\<close>

definition DL_FOREACH2 :: "lmem \<Rightarrow> addr \<Rightarrow> addr list \<Rightarrow> addr list res option" where
  "DL_FOREACH2 = LL_FOREACH2"

definition DL_COUNT2 :: "lmem \<Rightarrow> addr \<Rightarrow> nat res option" where
  "DL_COUNT2 m head = obind (DL_FOREACH2 m head []) (\<lambda>els. Some (Inr (fold (\<lambda>_ n. Suc n) els 0)))"

definition DL_FOREACH_SAFE2 :: "(lmem \<Rightarrow> addr \<Rightarrow> lmem res) \<Rightarrow> lmem \<Rightarrow> addr \<Rightarrow> lmem res option" where
  "DL_FOREACH_SAFE2 = LL_FOREACH_SAFE2"

definition DL_SEARCH2 :: "(addr \<Rightarrow> bool) \<Rightarrow> lmem \<Rightarrow> addr \<Rightarrow> addr res option" where
  "DL_SEARCH2 = LL_SEARCH2"

definition DL_PREPEND2 :: "lmem \<Rightarrow> addr \<Rightarrow> addr \<Rightarrow> lres" where
  "DL_PREPEND2 m head add = rbind (set_nxt m add head) (\<lambda>m.
     rbind (if head = NULL then set_prv m add add
            else rbind (at m head (lm_prev m head)) (\<lambda>p.
                 rbind (set_prv m add p) (\<lambda>m. set_prv m head add))) (\<lambda>m.
     Inr (m, add)))"

definition DL_APPEND2 :: "lmem \<Rightarrow> addr \<Rightarrow> addr \<Rightarrow> lres" where
  "DL_APPEND2 m head add =
     (if head = NULL then rbind (set_prv m add add) (\<lambda>m. rbind (set_nxt m add NULL) (\<lambda>m. Inr (m, add)))
      else rbind (at m head (lm_prev m head)) (\<lambda>p.
           rbind (set_prv m add p) (\<lambda>m.
           rbind (set_nxt m (lm_prev m head) add) (\<lambda>m.
           rbind (set_prv m head add) (\<lambda>m.
           rbind (set_nxt m add NULL) (\<lambda>m. Inr (m, head)))))))"

definition DL_CONCAT2 :: "lmem \<Rightarrow> addr \<Rightarrow> addr \<Rightarrow> lres" where
  "DL_CONCAT2 m head1 head2 =
     (if head2 = NULL then Inr (m, head1)
      else if head1 = NULL then Inr (m, head2)
      else rbind (at m head2 (lm_prev m head2)) (\<lambda>tmp.
           rbind (at m head1 (lm_prev m head1)) (\<lambda>p.
           rbind (set_prv m head2 p) (\<lambda>m.
           rbind (set_nxt m (lm_prev m head1) head2) (\<lambda>m.
           rbind (set_prv m head1 tmp) (\<lambda>m. Inr (m, head1)))))))"

definition DL_DELETE2 :: "lmem \<Rightarrow> addr \<Rightarrow> addr \<Rightarrow> lres" where
  "DL_DELETE2 m head del = rbind (at m del (lm_prev m del)) (\<lambda>p.
     assert_all [p \<noteq> NULL]
       (if p = del then Inr (m, NULL)
        else if del = head then
          rbind (set_prv m (lm_next m del) p) (\<lambda>m. Inr (m, lm_next m del))
        else
          rbind (set_nxt m p (lm_next m del)) (\<lambda>m.
          rbind (if lm_next m del = NULL then set_prv m head (lm_prev m del)
                 else set_prv m (lm_next m del) (lm_prev m del)) (\<lambda>m.
          Inr (m, head)))))"

definition DL_REPLACE_ELEM :: "lmem \<Rightarrow> addr \<Rightarrow> addr \<Rightarrow> addr \<Rightarrow> lres" where
  "DL_REPLACE_ELEM m head el add = assert_all [head \<noteq> NULL, el \<noteq> NULL, add \<noteq> NULL]
     (rbind (at m el (lm_next m el)) (\<lambda>n.
      rbind (set_nxt m add n) (\<lambda>m.
      if head = el then
        rbind (if lm_next m el = NULL then set_prv m add add
               else rbind (set_prv m add (lm_prev m el)) (\<lambda>m. set_prv m (lm_next m add) add)) (\<lambda>m.
        Inr (m, add))
      else
        rbind (set_prv m add (lm_prev m el)) (\<lambda>m.
        rbind (set_nxt m (lm_prev m add) add) (\<lambda>m.
        rbind (if lm_next m el = NULL then set_prv m head add else set_prv m (lm_next m add) add) (\<lambda>m.
        Inr (m, head)))))))"

definition DL_PREPEND_ELEM :: "lmem \<Rightarrow> addr \<Rightarrow> addr \<Rightarrow> addr \<Rightarrow> lres" where
  "DL_PREPEND_ELEM m head el add = assert_all [head \<noteq> NULL, el \<noteq> NULL, add \<noteq> NULL]
     (rbind (set_nxt m add el) (\<lambda>m.
      rbind (at m el (lm_prev m el)) (\<lambda>p.
      rbind (set_prv m add p) (\<lambda>m.
      rbind (set_prv m el add) (\<lambda>m.
      if head = el then Inr (m, add)
      else rbind (set_nxt m (lm_prev m add) add) (\<lambda>m. Inr (m, head)))))))"

section \<open>Circular lists\<close>

definition CDL_PREPEND2 :: "lmem \<Rightarrow> addr \<Rightarrow> addr \<Rightarrow> lres" where
  "CDL_PREPEND2 m head add =
     rbind (if head = NULL then rbind (set_prv m add add) (\<lambda>m. set_nxt m add add)
            else rbind (at m head (lm_prev m head)) (\<lambda>p.
                 rbind (set_prv m add p) (\<lambda>m.
                 rbind (set_nxt m add head) (\<lambda>m.
                 rbind (set_prv m head add) (\<lambda>m. set_nxt m (lm_prev m add) add))))) (\<lambda>m.
     Inr (m, add))"

definition CDL_DELETE2 :: "lmem \<Rightarrow> addr \<Rightarrow> addr \<Rightarrow> lres" where
  "CDL_DELETE2 m head del = rbind (at m del (lm_next m del, lm_prev m del)) (\<lambda>(n, p).
     if head = del \<and> n = head then Inr (m, NULL)
     else rbind (set_prv m n p) (\<lambda>m.
          rbind (set_nxt m (lm_prev m del) (lm_next m del)) (\<lambda>m.
          Inr (m, if del = head then lm_next m del else head))))"

definition CDL_REPLACE_ELEM :: "lmem \<Rightarrow> addr \<Rightarrow> addr \<Rightarrow> addr \<Rightarrow> lres" where
  "CDL_REPLACE_ELEM m head el add = assert_all [head \<noteq> NULL, el \<noteq> NULL, add \<noteq> NULL]
     (rbind (at m el (lm_next m el)) (\<lambda>n.
      if n = el then rbind (set_nxt m add add) (\<lambda>m. rbind (set_prv m add add) (\<lambda>m. Inr (m, add)))
      else rbind (set_nxt m add n) (\<lambda>m.
           rbind (set_prv m add (lm_prev m el)) (\<lambda>m.
           rbind (set_prv m (lm_next m add) add) (\<lambda>m.
           rbind (set_nxt m (lm_prev m add) add) (\<lambda>m.
           Inr (m, if head = el then add else head)))))))"

definition CDL_PREPEND_ELEM :: "lmem \<Rightarrow> addr \<Rightarrow> addr \<Rightarrow> addr \<Rightarrow> lres" where
  "CDL_PREPEND_ELEM m head el add = assert_all [head \<noteq> NULL, el \<noteq> NULL, add \<noteq> NULL]
     (rbind (set_nxt m add el) (\<lambda>m.
      rbind (at m el (lm_prev m el)) (\<lambda>p.
      rbind (set_prv m add p) (\<lambda>m.
      rbind (set_prv m el add) (\<lambda>m.
      rbind (set_nxt m (lm_prev m add) add) (\<lambda>m.
      Inr (m, if head = el then add else head)))))))"

text \<open>\<^verbatim>\<open>CDL_FOREACH2\<close> ends when the successor is the head; \<^verbatim>\<open>CDL_FOREACH_SAFE2\<close> when the last element has had its turn.\<close>

partial_function (option) CDL_FOREACH2 :: "lmem \<Rightarrow> addr \<Rightarrow> addr \<Rightarrow> addr list \<Rightarrow> addr list res option" where
  "CDL_FOREACH2 m head el seen = (if el = NULL then Some (Inr seen)
     else case at m el (lm_next m el) of
       Inl e \<Rightarrow> Some (Inl e)
     | Inr n \<Rightarrow> CDL_FOREACH2 m head (if n = head then NULL else n) (seen @ [el]))"

definition CDL_COUNT2 :: "lmem \<Rightarrow> addr \<Rightarrow> nat res option" where
  "CDL_COUNT2 m head = obind (CDL_FOREACH2 m head head []) (\<lambda>els. Some (Inr (fold (\<lambda>_ n. Suc n) els 0)))"

partial_function (option) CDL_SEARCH2 :: "(addr \<Rightarrow> bool) \<Rightarrow> lmem \<Rightarrow> addr \<Rightarrow> addr \<Rightarrow> addr res option" where
  "CDL_SEARCH2 eq m head out = (if out = NULL then Some (Inr NULL)
     else case at m out (lm_next m out) of
       Inl e \<Rightarrow> Some (Inl e)
     | Inr n \<Rightarrow> if eq out then Some (Inr out) else CDL_SEARCH2 eq m head (if n = head then NULL else n))"

definition CDL_SEARCH_SCALAR2 :: "(addr \<Rightarrow> 'v) \<Rightarrow> 'v \<Rightarrow> lmem \<Rightarrow> addr \<Rightarrow> addr res option" where
  "CDL_SEARCH_SCALAR2 field val m head = CDL_SEARCH2 (\<lambda>out. field out = val) m head head"

partial_function (option) CDL_safe_loop :: "(lmem \<Rightarrow> addr \<Rightarrow> lmem res) \<Rightarrow> addr \<Rightarrow> lmem \<Rightarrow> addr \<Rightarrow> lmem res option" where
  "CDL_safe_loop body tmp1 m el = (if el = NULL then Some (Inr m)
     else case at m el (lm_next m el) of
       Inl e \<Rightarrow> Some (Inl e)
     | Inr tmp2 \<Rightarrow> (case body m el of
         Inl e \<Rightarrow> Some (Inl e)
       | Inr m' \<Rightarrow> CDL_safe_loop body tmp1 m' (if el = tmp1 then NULL else tmp2)))"

definition CDL_FOREACH_SAFE2 :: "(lmem \<Rightarrow> addr \<Rightarrow> lmem res) \<Rightarrow> lmem \<Rightarrow> addr \<Rightarrow> lmem res option" where
  "CDL_FOREACH_SAFE2 body m head =
     obind (Some (if head = NULL then Inr NULL else at m head (lm_prev m head))) (\<lambda>tmp1.
       CDL_safe_loop body tmp1 m head)"

section \<open>Lists of elements\<close>

text \<open>The operations all three kinds of lists have, on the list of elements.\<close>

datatype lop = Prepend addr | Delete addr | Replace_elem addr addr | Prepend_elem addr addr

fun insert_before :: "addr \<Rightarrow> addr \<Rightarrow> addr list \<Rightarrow> addr list" where
  "insert_before el a [] = []"
| "insert_before el a (x # xs) = (if x = el then a # x # xs else x # insert_before el a xs)"

fun lop_list :: "lop \<Rightarrow> addr list \<Rightarrow> addr list" where
  "lop_list (Prepend a) xs = a # xs"
| "lop_list (Delete d) xs = remove1 d xs"
| "lop_list (Replace_elem el a) xs = map (\<lambda>x. if x = el then a else x) xs"
| "lop_list (Prepend_elem el a) xs = insert_before el a xs"

text \<open>When an operation may be used: new elements are allocated and not in the list, old ones are in it.\<close>

definition fresh_elem :: "(addr \<Rightarrow> bool) \<Rightarrow> addr \<Rightarrow> addr list \<Rightarrow> bool" where
  "fresh_elem live a xs \<longleftrightarrow> a \<noteq> NULL \<and> live a \<and> a \<notin> set xs"

fun lop_ok :: "(addr \<Rightarrow> bool) \<Rightarrow> lop \<Rightarrow> addr list \<Rightarrow> bool" where
  "lop_ok live (Prepend a) xs \<longleftrightarrow> fresh_elem live a xs"
| "lop_ok live (Delete d) xs \<longleftrightarrow> d \<in> set xs"
| "lop_ok live (Replace_elem el a) xs \<longleftrightarrow> el \<in> set xs \<and> fresh_elem live a xs"
| "lop_ok live (Prepend_elem el a) xs \<longleftrightarrow> el \<in> set xs \<and> fresh_elem live a xs"

fun ll_step :: "lmem \<Rightarrow> addr \<Rightarrow> lop \<Rightarrow> lres option" where
  "ll_step m head (Prepend a) = Some (LL_PREPEND2 m head a)"
| "ll_step m head (Delete d) = LL_DELETE2 m head d"
| "ll_step m head (Replace_elem el a) = LL_REPLACE_ELEM m head el a"
| "ll_step m head (Prepend_elem el a) = LL_PREPEND_ELEM m head el a"

fun dl_step :: "lmem \<Rightarrow> addr \<Rightarrow> lop \<Rightarrow> lres option" where
  "dl_step m head (Prepend a) = Some (DL_PREPEND2 m head a)"
| "dl_step m head (Delete d) = Some (DL_DELETE2 m head d)"
| "dl_step m head (Replace_elem el a) = Some (DL_REPLACE_ELEM m head el a)"
| "dl_step m head (Prepend_elem el a) = Some (DL_PREPEND_ELEM m head el a)"

fun cdl_step :: "lmem \<Rightarrow> addr \<Rightarrow> lop \<Rightarrow> lres option" where
  "cdl_step m head (Prepend a) = Some (CDL_PREPEND2 m head a)"
| "cdl_step m head (Delete d) = Some (CDL_DELETE2 m head d)"
| "cdl_step m head (Replace_elem el a) = Some (CDL_REPLACE_ELEM m head el a)"
| "cdl_step m head (Prepend_elem el a) = Some (CDL_PREPEND_ELEM m head el a)"

text \<open>Running a sequence of operations; whether each of them may be used when its turn comes.\<close>

fun run_ops :: "('m \<Rightarrow> addr \<Rightarrow> lop \<Rightarrow> ('m \<times> addr) res option) \<Rightarrow> lop list \<Rightarrow> 'm \<Rightarrow> addr \<Rightarrow> ('m \<times> addr) res option" where
  "run_ops step [] m head = Some (Inr (m, head))"
| "run_ops step (op # ops) m head = obind (step m head op) (\<lambda>(m, head). run_ops step ops m head)"

fun ops_ok :: "(addr \<Rightarrow> bool) \<Rightarrow> lop list \<Rightarrow> addr list \<Rightarrow> bool" where
  "ops_ok live [] xs \<longleftrightarrow> True"
| "ops_ok live (op # ops) xs \<longleftrightarrow> lop_ok live op xs \<and> ops_ok live ops (lop_list op xs)"

section \<open>What the memory holds\<close>

definition ll_rep :: "lmem \<Rightarrow> addr \<Rightarrow> addr list \<Rightarrow> bool" where
  "ll_rep m head as \<longleftrightarrow> sseg (lm_next m) head as NULL \<and> (\<forall>a \<in> set as. lm_live m a)"

definition cells_ok :: "lmem \<Rightarrow> addr list \<Rightarrow> bool" where
  "cells_ok m as \<longleftrightarrow> linked (lm_next m) (lm_prev m) as \<and> distinct as \<and> NULL \<notin> set as \<and> (\<forall>a \<in> set as. lm_live m a)"

definition dl_rep :: "lmem \<Rightarrow> addr \<Rightarrow> addr list \<Rightarrow> bool" where
  "dl_rep m head as \<longleftrightarrow> cells_ok m as \<and> (if as = [] then head = NULL
     else head = hd as \<and> lm_prev m head = last as \<and> lm_next m (last as) = NULL)"

definition cdl_rep :: "lmem \<Rightarrow> addr \<Rightarrow> addr list \<Rightarrow> bool" where
  "cdl_rep m head as \<longleftrightarrow> cells_ok m as \<and> (if as = [] then head = NULL
     else head = hd as \<and> lm_prev m head = last as \<and> lm_next m (last as) = head)"

lemma access_live [simp]:
  "a \<noteq> NULL \<Longrightarrow> lm_live m a \<Longrightarrow> at m a x = Inr x"
  "a \<noteq> NULL \<Longrightarrow> lm_live m a \<Longrightarrow> set_nxt m a v = Inr (m\<lparr>lm_next := (lm_next m)(a := v)\<rparr>)"
  "a \<noteq> NULL \<Longrightarrow> lm_live m a \<Longrightarrow> set_prv m a v = Inr (m\<lparr>lm_prev := (lm_prev m)(a := v)\<rparr>)"
  by (simp_all add: at_def set_nxt_def set_prv_def)

lemma remove1_middle: "distinct (us @ d # vs) \<Longrightarrow> remove1 d (us @ d # vs) = us @ vs"
  by (induction us) auto

lemma map_middle: "distinct (us @ d # vs) \<Longrightarrow> map (\<lambda>x. if x = d then a else x) (us @ d # vs) = us @ a # vs"
  by (auto intro!: map_idI)

lemma insert_before_middle: "distinct (us @ d # vs) \<Longrightarrow> insert_before d a (us @ d # vs) = us @ a # d # vs"
  by (induction us) auto

section \<open>Doubly linked lists are lists\<close>

lemmas rep_simps = dl_rep_def cdl_rep_def cells_ok_def assert_all_def linked_Cons linked_append

lemma dl_prepend:
  assumes "dl_rep m head as" and "fresh_elem (lm_live m) a as"
  shows "\<exists>m'. DL_PREPEND2 m head a = Inr (m', a) \<and> dl_rep m' a (a # as) \<and> lm_live m' = lm_live m"
  using assms by (cases as) (auto simp: rep_simps fresh_elem_def ends_not_in DL_PREPEND2_def)

text \<open>An element between two parts of a list: its neighbours, and what it is not.\<close>

lemma cells_middle:
  assumes "cells_ok m (us @ d # vs)"
  shows "d \<noteq> NULL" "lm_live m d" "cells_ok m us" "cells_ok m vs" "d \<notin> set us" "d \<notin> set vs" "set us \<inter> set vs = {}"
    "us \<noteq> [] \<Longrightarrow> lm_prev m d = last us" "us \<noteq> [] \<Longrightarrow> lm_next m (last us) = d"
    "vs \<noteq> [] \<Longrightarrow> lm_next m d = hd vs" "vs \<noteq> [] \<Longrightarrow> lm_prev m (hd vs) = d"
  using assms by (auto simp: cells_ok_def linked_append linked_Cons)

lemma cells_ends:
  assumes "cells_ok m (us @ d # vs)"
  shows "us \<noteq> [] \<Longrightarrow> hd us \<noteq> NULL \<and> last us \<noteq> NULL \<and> lm_live m (hd us) \<and> lm_live m (last us) \<and> hd us \<noteq> d \<and> last us \<noteq> d"
    "vs \<noteq> [] \<Longrightarrow> hd vs \<noteq> NULL \<and> last vs \<noteq> NULL \<and> lm_live m (hd vs) \<and> lm_live m (last vs) \<and> hd vs \<noteq> d \<and> last vs \<noteq> d"
  using assms ends_not_in(1) [of us NULL] ends_not_in(1) [of vs NULL] ends_not_in(1) [of us d] ends_not_in(1) [of vs d]
  by (auto simp: cells_ok_def)

lemma apart:
  assumes "set us \<inter> set vs = {}" and "us \<noteq> []" and "vs \<noteq> []"
  shows "last us \<notin> set vs \<and> hd us \<notin> set vs \<and> hd vs \<notin> set us \<and> last vs \<notin> set us
    \<and> last us \<noteq> hd vs \<and> last us \<noteq> last vs \<and> hd us \<noteq> hd vs \<and> hd us \<noteq> last vs"
  using assms by (metis IntI empty_iff hd_in_set last_in_set)

lemma fresh_middle:
  assumes "fresh_elem live a (us @ d # vs)"
  shows "a \<noteq> NULL" "live a" "a \<noteq> d" "a \<notin> set us" "a \<notin> set vs" "us \<noteq> [] \<Longrightarrow> hd us \<noteq> a \<and> last us \<noteq> a" "vs \<noteq> [] \<Longrightarrow> hd vs \<noteq> a \<and> last vs \<noteq> a"
  using assms ends_not_in(1) [of us a] ends_not_in(1) [of vs a] by (auto simp: fresh_elem_def)

lemma dl_delete:
  assumes "dl_rep m head (us @ d # vs)"
  shows "\<exists>m' head'. DL_DELETE2 m head d = Inr (m', head') \<and> dl_rep m' head' (us @ vs) \<and> lm_live m' = lm_live m"
proof -
  have c: "cells_ok m (us @ d # vs)" using assms by (simp add: dl_rep_def)
  show ?thesis using assms cells_middle [OF c] cells_ends [OF c] apart [OF cells_middle(7) [OF c]]
    by (cases "us = []"; cases "vs = []"; auto simp: rep_simps DL_DELETE2_def)
qed

lemma dl_replace:
  assumes "dl_rep m head (us @ d # vs)" and "fresh_elem (lm_live m) a (us @ d # vs)"
  shows "\<exists>m' head'. DL_REPLACE_ELEM m head d a = Inr (m', head') \<and> dl_rep m' head' (us @ a # vs) \<and> lm_live m' = lm_live m"
proof -
  have c: "cells_ok m (us @ d # vs)" using assms by (simp add: dl_rep_def)
  show ?thesis using assms(1) cells_middle [OF c] cells_ends [OF c] apart [OF cells_middle(7) [OF c]] fresh_middle [OF assms(2)]
    by (cases "us = []"; cases "vs = []"; auto simp: rep_simps DL_REPLACE_ELEM_def)
qed

lemma dl_prepend_elem:
  assumes "dl_rep m head (us @ d # vs)" and "fresh_elem (lm_live m) a (us @ d # vs)"
  shows "\<exists>m' head'. DL_PREPEND_ELEM m head d a = Inr (m', head') \<and> dl_rep m' head' (us @ a # d # vs) \<and> lm_live m' = lm_live m"
proof -
  have c: "cells_ok m (us @ d # vs)" and p: "lm_prev m head = last (d # vs)" "head = hd (us @ [d])" "lm_next m (last (d # vs)) = NULL"
    using assms(1) by (cases us; simp add: dl_rep_def)+
  note mid = cells_middle [OF c] and f = fresh_middle [OF assms(2)]
  have pv: "linked nx ((lm_prev m)(a := q, d := a)) (d # vs) = linked nx (lm_prev m) (d # vs)" for nx q
    using c f linked_upd_ends(2) [of "d # vs"] by (simp add: cells_ok_def del: linked.simps)
  show ?thesis
  proof (cases "us = []")
    case True
    let ?m = "m\<lparr>lm_next := (lm_next m)(a := d), lm_prev := (lm_prev m)(a := last (d # vs), d := a)\<rparr>"
    have "DL_PREPEND_ELEM m head d a = Inr (?m, a)"
      using True mid(1,2) f p by (simp add: DL_PREPEND_ELEM_def assert_all_def)
    moreover have "dl_rep ?m a (us @ a # d # vs)"
      using True c f p pv [of "lm_next ?m" "last (d # vs)"] by (auto simp: dl_rep_def cells_ok_def)
    ultimately show ?thesis by auto
  next
    case False
    let ?m = "m\<lparr>lm_next := (lm_next m)(a := d, last us := a), lm_prev := (lm_prev m)(a := last us, d := a)\<rparr>"
    have h: "head = hd us" "head \<noteq> d" using False p(2) mid(5) by (cases us; auto)+
    have "DL_PREPEND_ELEM m head d a = Inr (?m, head)"
      using False h mid(1,2,8) f cells_ends(1) [OF c] by (simp add: DL_PREPEND_ELEM_def assert_all_def)
    moreover have "last us \<notin> set (d # vs)" using last_in_set [OF False] mid(5,7) by auto
    then have "linked (lm_next ?m) (lm_prev ?m) us" "linked (lm_next ?m) (lm_prev ?m) (d # vs)"
      using False c f pv [of "lm_next ?m" "last us"] by (auto simp: cells_ok_def linked_append simp del: linked.simps)
    then have "dl_rep ?m head (us @ a # d # vs)"
      using False c f p h by (auto simp: dl_rep_def cells_ok_def linked_append)
    ultimately show ?thesis by auto
  qed
qed

lemma dl_append:
  assumes "dl_rep m head as" and "fresh_elem (lm_live m) a as"
  shows "\<exists>m' head'. DL_APPEND2 m head a = Inr (m', head') \<and> dl_rep m' head' (as @ [a]) \<and> lm_live m' = lm_live m"
  using assms by (cases as) (auto simp: rep_simps fresh_elem_def ends_not_in DL_APPEND2_def)

lemma dl_concat:
  assumes "dl_rep m head1 as" and "dl_rep m head2 bs" and "set as \<inter> set bs = {}"
  shows "\<exists>m' head'. DL_CONCAT2 m head1 head2 = Inr (m', head') \<and> dl_rep m' head' (as @ bs) \<and> lm_live m' = lm_live m"
  using assms ends_not_in(1) [of as NULL] ends_not_in(1) [of bs NULL] apart [OF assms(3)]
  by (cases "as = []"; cases "bs = []"; auto simp: rep_simps DL_CONCAT2_def)

section \<open>Circular lists are lists\<close>

lemma cdl_prepend:
  assumes "cdl_rep m head as" and "fresh_elem (lm_live m) a as"
  shows "\<exists>m'. CDL_PREPEND2 m head a = Inr (m', a) \<and> cdl_rep m' a (a # as) \<and> lm_live m' = lm_live m"
  using assms by (cases as) (auto simp: rep_simps fresh_elem_def ends_not_in CDL_PREPEND2_def)

lemma cdl_delete:
  assumes "cdl_rep m head (us @ d # vs)"
  shows "\<exists>m' head'. CDL_DELETE2 m head d = Inr (m', head') \<and> cdl_rep m' head' (us @ vs) \<and> lm_live m' = lm_live m"
proof -
  have c: "cells_ok m (us @ d # vs)" using assms by (simp add: cdl_rep_def)
  show ?thesis using assms cells_middle [OF c] cells_ends [OF c] apart [OF cells_middle(7) [OF c]]
    by (cases "us = []"; cases "vs = []"; auto simp: rep_simps CDL_DELETE2_def)
qed

lemma cdl_replace:
  assumes "cdl_rep m head (us @ d # vs)" and "fresh_elem (lm_live m) a (us @ d # vs)"
  shows "\<exists>m' head'. CDL_REPLACE_ELEM m head d a = Inr (m', head') \<and> cdl_rep m' head' (us @ a # vs) \<and> lm_live m' = lm_live m"
proof -
  have c: "cells_ok m (us @ d # vs)" using assms by (simp add: cdl_rep_def)
  show ?thesis using assms(1) cells_middle [OF c] cells_ends [OF c] apart [OF cells_middle(7) [OF c]] fresh_middle [OF assms(2)]
    by (cases "us = []"; cases "vs = []"; auto simp: rep_simps CDL_REPLACE_ELEM_def)
qed

lemma cdl_prepend_elem:
  assumes "cdl_rep m head (us @ d # vs)" and "fresh_elem (lm_live m) a (us @ d # vs)"
  shows "\<exists>m' head'. CDL_PREPEND_ELEM m head d a = Inr (m', head') \<and> cdl_rep m' head' (us @ a # d # vs) \<and> lm_live m' = lm_live m"
proof -
  have c: "cells_ok m (us @ d # vs)" and p: "lm_prev m head = last (d # vs)" "head = hd (us @ [d])" "lm_next m (last (d # vs)) = head"
    using assms(1) by (cases us; simp add: cdl_rep_def)+
  note mid = cells_middle [OF c] and f = fresh_middle [OF assms(2)]
  define q where "q = lm_prev m d"
  have q: "q = last (if us = [] then d # vs else us)" using mid(8) p by (auto simp: q_def)
  have qs: "q \<in> set (us @ d # vs)" unfolding q by (auto simp: last_ConsR)
  then have live: "q \<noteq> NULL" "lm_live m q" "q \<noteq> a" using c f by (auto simp: cells_ok_def)
  let ?m = "m\<lparr>lm_next := (lm_next m)(a := d, q := a), lm_prev := (lm_prev m)(a := q, d := a)\<rparr>"
  have "CDL_PREPEND_ELEM m head d a = Inr (?m, if head = d then a else head)"
    using c f(1,2,3) live p(2) by (cases us) (auto simp: CDL_PREPEND_ELEM_def assert_all_def q_def cells_ok_def)
  moreover have "cdl_rep ?m (if head = d then a else head) (us @ a # d # vs)"
  proof (cases "us = []")
    case True
    then have "linked (lm_next ?m) (lm_prev ?m) (d # vs)"
      using c f q linked_upd_ends(1) [of "d # vs"] linked_upd_ends(2) [of "d # vs"] by (simp add: cells_ok_def del: linked.simps)
    then show ?thesis using True c f p q live by (auto simp: cdl_rep_def cells_ok_def)
  next
    case False
    have "last us \<notin> set (d # vs)" using last_in_set [OF False] mid(5,7) by auto
    then have "linked (lm_next ?m) (lm_prev ?m) us" "linked (lm_next ?m) (lm_prev ?m) (d # vs)"
      using False c f q linked_upd_ends(2) [of "d # vs"] by (auto simp: cells_ok_def linked_append simp del: linked.simps)
    then show ?thesis using False c f p q live by (auto simp: cdl_rep_def cells_ok_def linked_append)
  qed
  ultimately show ?thesis by auto
qed

section \<open>Singly linked lists are lists\<close>

lemma ll_repD:
  assumes "ll_rep m head as"
  shows "distinct as" "NULL \<notin> set as" "a \<in> set as \<Longrightarrow> lm_live m a" "a \<in> set as \<Longrightarrow> a \<noteq> NULL" "head = NULL \<longleftrightarrow> as = []"
proof -
  have s: "sseg (lm_next m) head as NULL" "\<forall>a \<in> set as. lm_live m a" using assms by (simp_all add: ll_rep_def)
  show "distinct as" using s(1) by (rule sseg_distinct)
  show n: "NULL \<notin> set as" using s(1) by (rule sseg_nonnull)
  show "a \<in> set as \<Longrightarrow> lm_live m a" using s(2) by blast
  show "a \<in> set as \<Longrightarrow> a \<noteq> NULL" using n by metis
  show "head = NULL \<longleftrightarrow> as = []" using s(1) by (cases as) auto
qed

lemma last_loop_ok:
  "sseg (lm_next m) p (as @ [b]) NULL \<Longrightarrow> \<forall>a \<in> set (as @ [b]). lm_live m a \<Longrightarrow> last_loop m p = Some (Inr b)"
proof (induction as arbitrary: p)
  case Nil
  then show ?case by (simp add: last_loop.simps)
next
  case (Cons a as)
  then have "lm_next m a \<noteq> NULL" by (cases as) auto
  then show ?case using Cons by (simp add: last_loop.simps [of m a])
qed

lemma seek_loop_ok:
  "sseg (lm_next m) p (us @ u # d # vs) NULL \<Longrightarrow> d \<notin> set (us @ [u]) \<Longrightarrow> \<forall>a \<in> set (us @ [u]). lm_live m a \<Longrightarrow> seek_loop m d p = Some (Inr u)"
proof (induction us arbitrary: p)
  case Nil
  then show ?case by (simp add: seek_loop.simps)
next
  case (Cons a us)
  then have "lm_next m a \<noteq> NULL" "lm_next m a \<noteq> d" by (cases us; auto)+
  then show ?case using Cons by (simp add: seek_loop.simps [of m d a])
qed

lemma ll_prepend:
  assumes "ll_rep m head as" and "fresh_elem (lm_live m) a as"
  shows "\<exists>m'. LL_PREPEND2 m head a = Inr (m', a) \<and> ll_rep m' a (a # as) \<and> lm_live m' = lm_live m"
  using assms by (simp add: LL_PREPEND2_def ll_rep_def fresh_elem_def)

lemma ll_concat:
  assumes "ll_rep m head1 as" and "ll_rep m head2 bs" and "set as \<inter> set bs = {}"
  shows "\<exists>m' head'. LL_CONCAT2 m head1 head2 = Some (Inr (m', head')) \<and> ll_rep m' head' (as @ bs) \<and> lm_live m' = lm_live m"
proof (cases as rule: rev_cases)
  case Nil
  then show ?thesis using assms by (simp add: LL_CONCAT2_def ll_rep_def)
next
  case (snoc as' b)
  have seg: "sseg (lm_next m) head1 (as' @ [b]) NULL" "\<forall>a \<in> set (as' @ [b]). lm_live m a" using assms(1) snoc by (auto simp: ll_rep_def)
  have b: "b \<noteq> NULL" "lm_live m b" "b \<notin> set as'" "head1 \<noteq> NULL" "b \<notin> set bs" using ll_repD [OF assms(1)] snoc assms(3) by auto
  have "LL_CONCAT2 m head1 head2 = Some (Inr (m\<lparr>lm_next := (lm_next m)(b := head2)\<rparr>, head1))"
    using last_loop_ok [OF seg] b by (simp add: LL_CONCAT2_def)
  moreover have "ll_rep (m\<lparr>lm_next := (lm_next m)(b := head2)\<rparr>) head1 (as @ bs)"
    using seg b snoc assms by (auto simp: ll_rep_def sseg_append)
  ultimately show ?thesis by auto
qed

lemma ll_append_mem:
  assumes "ll_rep m head as" and "fresh_elem (lm_live m) a as"
  shows "LL_APPEND2 m head a = Some (Inr (if as = [] then (m\<lparr>lm_next := (lm_next m)(a := NULL)\<rparr>, a)
     else (m\<lparr>lm_next := (lm_next m)(a := NULL, last as := a)\<rparr>, head)))"
proof (cases as rule: rev_cases)
  case Nil
  then show ?thesis using assms by (simp add: LL_APPEND2_def ll_rep_def fresh_elem_def)
next
  case (snoc as' b)
  let ?m = "m\<lparr>lm_next := (lm_next m)(a := NULL)\<rparr>"
  have "sseg (lm_next ?m) head (as' @ [b]) NULL" "\<forall>x \<in> set (as' @ [b]). lm_live ?m x"
    using assms snoc by (auto simp: ll_rep_def fresh_elem_def)
  then have "last_loop ?m head = Some (Inr b)" by (rule last_loop_ok)
  then show ?thesis using snoc ll_repD [OF assms(1)] assms(2) by (simp add: LL_APPEND2_def fresh_elem_def)
qed

lemma ll_append:
  assumes "ll_rep m head as" and "fresh_elem (lm_live m) a as"
  shows "\<exists>m' head'. LL_APPEND2 m head a = Some (Inr (m', head')) \<and> ll_rep m' head' (as @ [a]) \<and> lm_live m' = lm_live m"
  using assms ll_repD(1) [OF assms(1)] unfolding ll_append_mem [OF assms]
  by (cases as rule: rev_cases) (auto simp: ll_rep_def fresh_elem_def sseg_append)

text \<open>The three macros that look for the element before \<^verbatim>\<open>d\<close>.\<close>

lemma ll_seek:
  assumes "ll_rep m head (us @ d # vs)"
  shows "d \<noteq> NULL" "lm_live m d" "head = d \<longleftrightarrow> us = []" "head \<noteq> NULL"
    "us \<noteq> [] \<Longrightarrow> seek_loop m d head = Some (Inr (last us)) \<and> lm_next m (last us) = d \<and> last us \<noteq> NULL \<and> lm_live m (last us) \<and> last us \<noteq> d"
proof -
  have s: "sseg (lm_next m) head (us @ d # vs) NULL" "\<forall>a \<in> set (us @ d # vs). lm_live m a" using assms by (simp_all add: ll_rep_def)
  have dist: "distinct (us @ d # vs)" using s(1) by (rule sseg_distinct)
  show "d \<noteq> NULL" "lm_live m d" using s by (auto simp: sseg_middle)
  show "head = d \<longleftrightarrow> us = []" "head \<noteq> NULL" using s(1) dist by (cases us; auto)+
  assume "us \<noteq> []"
  then obtain us' u where u: "us = us' @ [u]" by (cases us rule: rev_cases) auto
  then show "seek_loop m d head = Some (Inr (last us)) \<and> lm_next m (last us) = d \<and> last us \<noteq> NULL \<and> lm_live m (last us) \<and> last us \<noteq> d"
    using s dist seek_loop_ok [of m head us' u d vs] by (auto simp: sseg_append)
qed

lemma ll_delete:
  assumes "ll_rep m head (us @ d # vs)"
  shows "\<exists>m' head'. LL_DELETE2 m head d = Some (Inr (m', head')) \<and> ll_rep m' head' (us @ vs) \<and> lm_live m' = lm_live m"
proof (cases us rule: rev_cases)
  case Nil
  then show ?thesis using assms ll_seek [OF assms] by (auto simp: LL_DELETE2_def ll_rep_def)
next
  case (snoc us' u)
  then show ?thesis using assms ll_seek [OF assms] ll_repD(1) [OF assms] by (auto simp: LL_DELETE2_def ll_rep_def sseg_append)
qed

lemma ll_replace:
  assumes "ll_rep m head (us @ d # vs)" and "fresh_elem (lm_live m) a (us @ d # vs)"
  shows "\<exists>m' head'. LL_REPLACE_ELEM m head d a = Some (Inr (m', head')) \<and> ll_rep m' head' (us @ a # vs) \<and> lm_live m' = lm_live m"
proof -
  let ?m = "m\<lparr>lm_next := (lm_next m)(a := lm_next m d)\<rparr>"
  note f = fresh_middle [OF assms(2)] and s = ll_seek [OF assms(1)]
  have "ll_rep ?m head (us @ d # vs)" using assms(1) f by (simp add: ll_rep_def)
  note s1 = ll_seek [OF this]
  show ?thesis
  proof (cases us rule: rev_cases)
    case Nil
    then show ?thesis using assms(1) s f by (auto simp: LL_REPLACE_ELEM_def assert_all_def ll_rep_def)
  next
    case (snoc us' u)
    then show ?thesis using assms(1) s f s1 ll_repD(1) [OF assms(1)]
      by (auto simp: LL_REPLACE_ELEM_def assert_all_def ll_rep_def sseg_append)
  qed
qed

lemma ll_prepend_elem:
  assumes "ll_rep m head (us @ d # vs)" and "fresh_elem (lm_live m) a (us @ d # vs)"
  shows "\<exists>m' head'. LL_PREPEND_ELEM m head d a = Some (Inr (m', head')) \<and> ll_rep m' head' (us @ a # d # vs) \<and> lm_live m' = lm_live m"
proof -
  let ?m = "m\<lparr>lm_next := (lm_next m)(a := d)\<rparr>"
  note f = fresh_middle [OF assms(2)] and s = ll_seek [OF assms(1)]
  have "ll_rep ?m head (us @ d # vs)" using assms(1) f by (simp add: ll_rep_def)
  note s1 = ll_seek [OF this]
  show ?thesis
  proof (cases us rule: rev_cases)
    case Nil
    then show ?thesis using assms(1) s f by (auto simp: LL_PREPEND_ELEM_def assert_all_def ll_rep_def)
  next
    case (snoc us' u)
    then show ?thesis using assms(1) s f s1 ll_repD(1) [OF assms(1)]
      by (auto simp: LL_PREPEND_ELEM_def assert_all_def ll_rep_def sseg_append)
  qed
qed

section \<open>The variants without \<^verbatim>\<open>decltype\<close>\<close>

lemma append_loop_ok:
  assumes "sseg (lm_next m) p (as @ [b]) NULL" and "\<forall>x \<in> set (as @ [b]). lm_live m x"
    and "a \<noteq> NULL" and "lm_live m a" and "a \<notin> set (as @ [b])" and "lm_next m a = p"
  shows "append_loop m a = Some (Inr (m\<lparr>lm_next := (lm_next m)(a := b)\<rparr>))"
  using assms
proof (induction as arbitrary: m p)
  case Nil
  then show ?case by (simp add: append_loop.simps fun_upd_idem)
next
  case (Cons c as)
  let ?m = "m\<lparr>lm_next := (lm_next m)(a := lm_next m c)\<rparr>"
  have n: "lm_next m c \<noteq> NULL" "c \<noteq> NULL" "lm_live m c" "p = c" "lm_next m a = c" using Cons.prems by (cases as; auto)+
  have "sseg (lm_next ?m) (lm_next m c) (as @ [b]) NULL" using Cons.prems by simp
  then have "append_loop ?m a = Some (Inr (?m\<lparr>lm_next := (lm_next ?m)(a := b)\<rparr>))" by (rule Cons.IH) (use Cons.prems in auto)
  moreover have "append_loop m a = append_loop ?m a"
    using n Cons.prems(3,4) by (subst append_loop.simps) simp
  ultimately have "append_loop m a = Some (Inr (m\<lparr>lm_next := (lm_next m)(a := b)\<rparr>))" by simp
  then show ?case .
qed

lemma append_VS2008:
  assumes "ll_rep m head as" and "fresh_elem (lm_live m) a as"
  shows "LL_APPEND2_VS2008 m head a = LL_APPEND2 m head a"
proof (cases as rule: rev_cases)
  case Nil
  then show ?thesis using assms unfolding ll_append_mem [OF assms] by (simp add: LL_APPEND2_VS2008_def ll_rep_def fresh_elem_def)
next
  case (snoc as' b)
  let ?m = "m\<lparr>lm_next := (lm_next m)(a := head)\<rparr>"
  have f: "a \<noteq> NULL" "lm_live m a" "a \<notin> set (as' @ [b])" "b \<noteq> NULL" "lm_live m b" "head \<noteq> NULL"
    using assms snoc ll_repD [OF assms(1)] by (auto simp: fresh_elem_def)
  have "append_loop ?m a = Some (Inr (?m\<lparr>lm_next := (lm_next ?m)(a := b)\<rparr>))"
    using assms(1) snoc f by (intro append_loop_ok [of ?m head as' b a]) (auto simp: ll_rep_def)
  moreover have "(lm_next m)(a := b, b := a, a := NULL) = (lm_next m)(a := NULL, b := a)" using f(3) by auto
  ultimately show ?thesis using snoc f unfolding ll_append_mem [OF assms] by (simp add: LL_APPEND2_VS2008_def)
qed

lemma delete_VS2008: "LL_DELETE2_VS2008 m head d = LL_DELETE2 m head d"
  by (auto simp: LL_DELETE2_VS2008_def LL_DELETE2_def obind_def Let_def split: option.splits sum.splits)

section \<open>Loops over lists\<close>

lemma ll_foreach: "ll_rep m el as \<Longrightarrow> LL_FOREACH2 m el seen = Some (Inr (seen @ as))"
proof (induction as arbitrary: el seen)
  case Nil
  then show ?case by (simp add: LL_FOREACH2.simps ll_rep_def)
next
  case (Cons a as)
  then have "LL_FOREACH2 m (lm_next m a) (seen @ [a]) = Some (Inr ((seen @ [a]) @ as))" by (auto simp: ll_rep_def)
  then show ?case using Cons.prems by (simp add: LL_FOREACH2.simps [of m a] ll_rep_def)
qed

lemma ll_search: "ll_rep m el as \<Longrightarrow> LL_SEARCH2 eq m el = Some (Inr (case find eq as of None \<Rightarrow> NULL | Some a \<Rightarrow> a))"
proof (induction as arbitrary: el)
  case Nil
  then show ?case by (simp add: LL_SEARCH2.simps ll_rep_def)
next
  case (Cons a as)
  then have "LL_SEARCH2 eq m (lm_next m a) = Some (Inr (case find eq as of None \<Rightarrow> NULL | Some a \<Rightarrow> a))" by (auto simp: ll_rep_def)
  then show ?case using Cons.prems by (simp add: LL_SEARCH2.simps [of eq m a] ll_rep_def)
qed

lemma count_fold: "fold (\<lambda>_ n. Suc n) els k = k + length els"
  by (induction els arbitrary: k) auto

lemma dl_ll: "dl_rep m head as \<Longrightarrow> ll_rep m head as"
proof (induction as arbitrary: head)
  case Nil
  then show ?case by (simp add: dl_rep_def ll_rep_def)
next
  case (Cons a as)
  have "sseg (lm_next m) p bs NULL" if "linked (lm_next m) (lm_prev m) bs" "NULL \<notin> set bs" "p = hd (bs @ [NULL])"
      "bs \<noteq> [] \<Longrightarrow> lm_next m (last bs) = NULL" for p bs
    using that
  proof (induction bs arbitrary: p)
    case (Cons b bs)
    then show ?case by (cases "bs = []") (auto simp: linked_Cons)
  qed simp
  from this [of "a # as" head] show ?case using Cons.prems by (auto simp: dl_rep_def ll_rep_def cells_ok_def)
qed

text \<open>The rest \<open>bs\<close> of a circular list, up to the element whose successor is the head.\<close>

definition cdl_rest :: "lmem \<Rightarrow> addr \<Rightarrow> addr \<Rightarrow> addr list \<Rightarrow> bool" where
  "cdl_rest m head el bs \<longleftrightarrow> cells_ok m bs \<and> head \<notin> set (tl bs)
     \<and> (if bs = [] then el = NULL else el = hd bs \<and> lm_next m (last bs) = head)"

lemma cdl_rest_Cons:
  assumes "cdl_rest m head el (b # bs)"
  shows "el = b" "b \<noteq> NULL" "lm_live m b" "cdl_rest m head (if lm_next m b = head then NULL else lm_next m b) bs"
  using assms by (cases bs; auto simp: cdl_rest_def cells_ok_def)+

lemma cdl_rep_rest: "cdl_rep m head as \<Longrightarrow> cdl_rest m head head as"
  by (cases as) (auto simp: cdl_rep_def cdl_rest_def cells_ok_def)

lemma cdl_foreach: "cdl_rest m head el bs \<Longrightarrow> CDL_FOREACH2 m head el seen = Some (Inr (seen @ bs))"
proof (induction bs arbitrary: el seen)
  case Nil
  then show ?case by (simp add: CDL_FOREACH2.simps cdl_rest_def)
next
  case (Cons b bs)
  note r = cdl_rest_Cons [OF Cons.prems]
  from Cons.IH [OF r(4), of "seen @ [b]"] r(1-3) show ?case by (simp add: CDL_FOREACH2.simps [of m head b])
qed

lemma cdl_search: "cdl_rest m head el bs \<Longrightarrow>
  CDL_SEARCH2 eq m head el = Some (Inr (case find eq bs of None \<Rightarrow> NULL | Some a \<Rightarrow> a))"
proof (induction bs arbitrary: el)
  case Nil
  then show ?case by (simp add: CDL_SEARCH2.simps cdl_rest_def)
next
  case (Cons b bs)
  note r = cdl_rest_Cons [OF Cons.prems]
  from Cons.IH [OF r(4)] r(1-3) show ?case by (simp add: CDL_SEARCH2.simps [of eq m head b])
qed

text \<open>Releasing every element from inside the loop that reads the successor first.\<close>

definition free_elem :: "lmem \<Rightarrow> addr \<Rightarrow> lmem res" where
  "free_elem m el = at m el (m\<lparr>lm_live := (lm_live m)(el := False)\<rparr>)"

lemma free_elem_live: "a \<noteq> NULL \<Longrightarrow> lm_live m a \<Longrightarrow> free_elem m a = Inr (m\<lparr>lm_live := (lm_live m)(a := False)\<rparr>)"
  by (simp add: free_elem_def)

lemma ll_foreach_safe:
  "ll_rep m el as \<Longrightarrow> LL_FOREACH_SAFE2 free_elem m el = Some (Inr (m\<lparr>lm_live := \<lambda>a. lm_live m a \<and> a \<notin> set as\<rparr>))"
proof (induction as arbitrary: m el)
  case Nil
  then show ?case by (simp add: LL_FOREACH_SAFE2.simps ll_rep_def)
next
  case (Cons a as)
  let ?m = "m\<lparr>lm_live := (lm_live m)(a := False)\<rparr>"
  have "a \<notin> set as" "a \<noteq> NULL" "lm_live m a" "el = a" using ll_repD(1) [OF Cons.prems] Cons.prems by (auto simp: ll_rep_def)
  moreover have "ll_rep ?m (lm_next m a) as" using Cons.prems calculation by (auto simp: ll_rep_def)
  note Cons.IH [OF this]
  moreover have "(\<lambda>x. lm_live ?m x \<and> x \<notin> set as) = (\<lambda>x. lm_live m x \<and> x \<notin> set (a # as))" by auto
  ultimately show ?case by (simp add: LL_FOREACH_SAFE2.simps [of free_elem m a] free_elem_live)
qed

text \<open>A circular list ends at the element that was the predecessor of the head when the loop began.\<close>

lemma cdl_safe_loop:
  "cells_ok m bs \<Longrightarrow> bs \<noteq> [] \<Longrightarrow>
     CDL_safe_loop free_elem (last bs) m (hd bs) = Some (Inr (m\<lparr>lm_live := \<lambda>a. lm_live m a \<and> a \<notin> set bs\<rparr>))"
proof (induction bs arbitrary: m)
  case (Cons b bs)
  let ?m = "m\<lparr>lm_live := (lm_live m)(b := False)\<rparr>"
  have b: "b \<notin> set bs" "b \<noteq> NULL" "lm_live m b" using Cons.prems by (auto simp: cells_ok_def)
  have l: "(\<lambda>x. lm_live ?m x \<and> x \<notin> set bs) = (\<lambda>x. lm_live m x \<and> x \<notin> set (b # bs))" by auto
  show ?case
  proof (cases bs)
    case Nil
    have "(lm_live m)(b := False) = (\<lambda>a. lm_live m a \<and> a \<noteq> b)" by (intro ext) auto
    with Nil show ?thesis using b
      by (simp add: CDL_safe_loop.simps [of free_elem b m b] CDL_safe_loop.simps [of _ _ _ NULL] free_elem_live)
  next
    case (Cons c cs)
    have "cells_ok ?m bs" using Cons.prems(1) b(1) Cons by (auto simp: cells_ok_def)
    then have "CDL_safe_loop free_elem (last bs) ?m (hd bs) = Some (Inr (?m\<lparr>lm_live := \<lambda>x. lm_live ?m x \<and> x \<notin> set bs\<rparr>))"
      using Cons.IH [of ?m] Cons by simp
    moreover have "b \<noteq> last bs" "lm_next m b = hd bs" using b(1) Cons Cons.prems(1) by (auto simp: cells_ok_def)
    then have "CDL_safe_loop free_elem (last bs) m b = CDL_safe_loop free_elem (last bs) ?m (hd bs)"
      using b by (simp add: CDL_safe_loop.simps [of free_elem "last bs" m b] free_elem_live)
    moreover have "last (b # bs) = last bs" using Cons by simp
    ultimately show ?thesis using l by simp
  qed
qed simp

lemma cdl_foreach_safe:
  assumes "cdl_rep m head as"
  shows "CDL_FOREACH_SAFE2 free_elem m head = Some (Inr (m\<lparr>lm_live := \<lambda>a. lm_live m a \<and> a \<notin> set as\<rparr>))"
proof (cases as)
  case Nil
  then show ?thesis using assms by (simp add: CDL_FOREACH_SAFE2_def CDL_safe_loop.simps cdl_rep_def)
next
  case (Cons b bs)
  then have "cells_ok m as" "head = hd as" "lm_prev m head = last as" "head \<noteq> NULL" "lm_live m head"
    using assms by (auto simp: cdl_rep_def cells_ok_def)
  then show ?thesis using cdl_safe_loop [of m as] Cons by (simp add: CDL_FOREACH_SAFE2_def)
qed

section \<open>The interface of a list\<close>

text \<open>
  What a user of any of the three kinds relies on: each operation that may be used returns and does to
  the list of elements what its name says.
\<close>

locale element_list =
  fixes rep :: "'m \<Rightarrow> addr \<Rightarrow> addr list \<Rightarrow> bool"
    and live :: "'m \<Rightarrow> addr \<Rightarrow> bool"
    and step :: "'m \<Rightarrow> addr \<Rightarrow> lop \<Rightarrow> ('m \<times> addr) res option"
  assumes step_ok: "rep m head xs \<Longrightarrow> lop_ok (live m) op xs \<Longrightarrow>
    \<exists>m' head'. step m head op = Some (Inr (m', head')) \<and> rep m' head' (lop_list op xs) \<and> live m' = live m"
begin

lemma run_ok:
  "rep m head xs \<Longrightarrow> ops_ok (live m) ops xs \<Longrightarrow>
    \<exists>m' head'. run_ops step ops m head = Some (Inr (m', head')) \<and> rep m' head' (fold lop_list ops xs) \<and> live m' = live m"
proof (induction ops arbitrary: m head xs)
  case Nil
  then show ?case by simp
next
  case (Cons op ops)
  then obtain m1 head1 where 1: "step m head op = Some (Inr (m1, head1))" "rep m1 head1 (lop_list op xs)" "live m1 = live m"
    using step_ok [OF Cons.prems(1), of op] by auto
  then show ?case using Cons.IH [OF 1(2)] Cons.prems(2) by simp
qed

end

lemma lop_split:
  assumes "distinct xs" and "lop_ok live op xs"
    and "\<And>a. op = Prepend a \<Longrightarrow> fresh_elem live a xs \<Longrightarrow> P (a # xs)"
    and "\<And>d us vs. op = Delete d \<Longrightarrow> xs = us @ d # vs \<Longrightarrow> P (us @ vs)"
    and "\<And>d a us vs. op = Replace_elem d a \<Longrightarrow> xs = us @ d # vs \<Longrightarrow> fresh_elem live a (us @ d # vs) \<Longrightarrow> P (us @ a # vs)"
    and "\<And>d a us vs. op = Prepend_elem d a \<Longrightarrow> xs = us @ d # vs \<Longrightarrow> fresh_elem live a (us @ d # vs) \<Longrightarrow> P (us @ a # d # vs)"
  shows "P (lop_list op xs)"
proof (cases op)
  case (Prepend a)
  then show ?thesis using assms(2,3) by simp
next
  case (Delete d)
  then obtain us vs where "xs = us @ d # vs" using assms(2) by (auto simp: in_set_conv_decomp)
  then show ?thesis using Delete assms(1) assms(4) [of d us vs] remove1_middle [of us d vs] by simp
next
  case (Replace_elem d a)
  then obtain us vs where "xs = us @ d # vs" using assms(2) by (auto simp: in_set_conv_decomp)
  then show ?thesis using Replace_elem assms(1,2) assms(5) [of d a us vs] map_middle [of us d vs a] by simp
next
  case (Prepend_elem d a)
  then obtain us vs where "xs = us @ d # vs" using assms(2) by (auto simp: in_set_conv_decomp)
  then show ?thesis using Prepend_elem assms(1,2) assms(6) [of d a us vs] insert_before_middle [of us d vs a] by simp
qed

interpretation ll: element_list ll_rep lm_live ll_step
proof
  fix m head xs op assume R: "ll_rep m head xs" and ok: "lop_ok (lm_live m) op xs"
  show "\<exists>m' head'. ll_step m head op = Some (Inr (m', head')) \<and> ll_rep m' head' (lop_list op xs) \<and> lm_live m' = lm_live m"
    by (rule lop_split [OF ll_repD(1) [OF R] ok])
      (use R in \<open>auto dest: ll_prepend ll_delete ll_replace ll_prepend_elem\<close>)
qed

lemma cells_distinct: "dl_rep m head xs \<Longrightarrow> distinct xs" "cdl_rep m head xs \<Longrightarrow> distinct xs"
  by (simp_all add: dl_rep_def cdl_rep_def cells_ok_def)

interpretation dl: element_list dl_rep lm_live dl_step
proof
  fix m head xs op assume R: "dl_rep m head xs" and ok: "lop_ok (lm_live m) op xs"
  show "\<exists>m' head'. dl_step m head op = Some (Inr (m', head')) \<and> dl_rep m' head' (lop_list op xs) \<and> lm_live m' = lm_live m"
    by (rule lop_split [OF cells_distinct(1) [OF R] ok])
      (use R in \<open>auto dest: dl_prepend dl_delete dl_replace dl_prepend_elem\<close>)
qed

interpretation cdl: element_list cdl_rep lm_live cdl_step
proof
  fix m head xs op assume R: "cdl_rep m head xs" and ok: "lop_ok (lm_live m) op xs"
  show "\<exists>m' head'. cdl_step m head op = Some (Inr (m', head')) \<and> cdl_rep m' head' (lop_list op xs) \<and> lm_live m' = lm_live m"
    by (rule lop_split [OF cells_distinct(2) [OF R] ok])
      (use R in \<open>auto dest: cdl_prepend cdl_delete cdl_replace cdl_prepend_elem\<close>)
qed

section \<open>Properties\<close>

text \<open>What the loops of each kind give on a list: all elements, their number, the first match, and a memory without them.\<close>

definition releases :: "lmem \<Rightarrow> addr list \<Rightarrow> lmem res option \<Rightarrow> bool" where
  "releases m ys r \<longleftrightarrow> r = Some (Inr (m\<lparr>lm_live := \<lambda>a. lm_live m a \<and> a \<notin> set ys\<rparr>))"

definition first_match :: "(addr \<Rightarrow> bool) \<Rightarrow> addr list \<Rightarrow> addr" where
  "first_match eq ys = (case find eq ys of None \<Rightarrow> NULL | Some a \<Rightarrow> a)"

lemmas loop_defs = LL_COUNT2_def DL_COUNT2_def CDL_COUNT2_def DL_FOREACH2_def DL_SEARCH2_def DL_FOREACH_SAFE2_def
  LL_SEARCH_SCALAR2_def CDL_SEARCH_SCALAR2_def count_fold releases_def first_match_def

lemma ll_loops:
  assumes "ll_rep m h ys"
  shows "LL_FOREACH2 m h [] = Some (Inr ys) \<and> LL_COUNT2 m h = Some (Inr (length ys))
    \<and> LL_SEARCH2 eq m h = Some (Inr (first_match eq ys)) \<and> releases m ys (LL_FOREACH_SAFE2 free_elem m h)"
  using ll_foreach [OF assms, of "[]"] ll_search [OF assms] ll_foreach_safe [OF assms] by (simp add: loop_defs)

lemma dl_loops:
  assumes "dl_rep m h ys"
  shows "DL_FOREACH2 m h [] = Some (Inr ys) \<and> DL_COUNT2 m h = Some (Inr (length ys))
    \<and> DL_SEARCH2 eq m h = Some (Inr (first_match eq ys)) \<and> releases m ys (DL_FOREACH_SAFE2 free_elem m h)"
  using ll_loops [OF dl_ll [OF assms], of eq] by (simp add: loop_defs)

lemma cdl_loops:
  assumes "cdl_rep m h ys"
  shows "CDL_FOREACH2 m h h [] = Some (Inr ys) \<and> CDL_COUNT2 m h = Some (Inr (length ys))
    \<and> CDL_SEARCH2 eq m h h = Some (Inr (first_match eq ys)) \<and> releases m ys (CDL_FOREACH_SAFE2 free_elem m h)"
  using cdl_foreach [OF cdl_rep_rest [OF assms], of "[]"] cdl_search [OF cdl_rep_rest [OF assms]] cdl_foreach_safe [OF assms]
  by (simp add: loop_defs)

text \<open>
  C15: all three kinds of lists are lists.  Started on the memory of the same list of elements, any sequence
  of prepending, deleting, replacing and inserting before an element, each used as the macros ask for,
  returns without touching released memory on singly linked, doubly linked and circular lists, and
  the memory then holds the list that the sequence makes of the elements; the loops over it visit its elements
  in order, count them, find the first one that matches, and can release every element on the way.
\<close>

theorem utlist_lists:
  assumes "ll_rep m1 head1 xs" and "dl_rep m2 head2 xs" and "cdl_rep m3 head3 xs"
    and "ops_ok (lm_live m1) ops xs" and "ops_ok (lm_live m2) ops xs" and "ops_ok (lm_live m3) ops xs"
  defines "ys \<equiv> fold lop_list ops xs"
  shows "(\<exists>m h. run_ops ll_step ops m1 head1 = Some (Inr (m, h)) \<and> ll_rep m h ys
        \<and> (\<forall>eq. LL_FOREACH2 m h [] = Some (Inr ys) \<and> LL_COUNT2 m h = Some (Inr (length ys))
             \<and> LL_SEARCH2 eq m h = Some (Inr (first_match eq ys)) \<and> releases m ys (LL_FOREACH_SAFE2 free_elem m h)))
    \<and> (\<exists>m h. run_ops dl_step ops m2 head2 = Some (Inr (m, h)) \<and> dl_rep m h ys
        \<and> (\<forall>eq. DL_FOREACH2 m h [] = Some (Inr ys) \<and> DL_COUNT2 m h = Some (Inr (length ys))
             \<and> DL_SEARCH2 eq m h = Some (Inr (first_match eq ys)) \<and> releases m ys (DL_FOREACH_SAFE2 free_elem m h)))
    \<and> (\<exists>m h. run_ops cdl_step ops m3 head3 = Some (Inr (m, h)) \<and> cdl_rep m h ys
        \<and> (\<forall>eq. CDL_FOREACH2 m h h [] = Some (Inr ys) \<and> CDL_COUNT2 m h = Some (Inr (length ys))
             \<and> CDL_SEARCH2 eq m h h = Some (Inr (first_match eq ys)) \<and> releases m ys (CDL_FOREACH_SAFE2 free_elem m h)))"
proof (intro conjI, goal_cases)
  case 1
  show ?case using ll.run_ok [OF assms(1,4)] ll_loops unfolding ys_def by blast
next
  case 2
  show ?case using dl.run_ok [OF assms(2,5)] dl_loops unfolding ys_def by blast
next
  case 3
  show ?case using cdl.run_ok [OF assms(3,6)] cdl_loops unfolding ys_def by blast
qed

theorem utlist_lists_witness:
  "\<exists>m h. run_ops cdl_step [Prepend 3, Prepend 1, Prepend_elem 3 2, Delete 1] \<lparr>lm_live = \<lambda>_. True, lm_next = \<lambda>_. 0, lm_prev = \<lambda>_. 0\<rparr> 0
      = Some (Inr (m, h)) \<and> cdl_rep m h [2, 3]"
proof -
  let ?m = "\<lparr>lm_live = \<lambda>_. True, lm_next = \<lambda>_. 0, lm_prev = \<lambda>_. 0\<rparr>" and ?ops = "[Prepend 3, Prepend 1, Prepend_elem 3 2, Delete 1]"
  have "ll_rep ?m 0 []" "dl_rep ?m 0 []" "cdl_rep ?m 0 []" "ops_ok (lm_live ?m) ?ops []"
    by (simp_all add: ll_rep_def dl_rep_def cdl_rep_def cells_ok_def fresh_elem_def)
  from utlist_lists [OF this(1-4) this(4,4)] show ?thesis by auto
qed

text \<open>
  Appending and concatenating.  On a singly and on a doubly linked list \<^verbatim>\<open>APPEND\<close> puts the new element behind
  the last one and \<^verbatim>\<open>CONCAT\<close> joins two lists without a common element, returning and touching no released
  memory; and the variants of \<^verbatim>\<open>LL_APPEND\<close> and \<^verbatim>\<open>LL_DELETE\<close> for compilers without \<^verbatim>\<open>decltype\<close>, which walk along the list
  with \<^verbatim>\<open>add->next\<close> or with the head itself, leave exactly the memory and the head that the others leave.
\<close>

theorem utlist_appends:
  assumes "fresh_elem (lm_live m) a xs" and "set xs \<inter> set zs = {}"
  shows "(ll_rep m head xs \<and> ll_rep m head2 zs \<longrightarrow>
        (\<exists>m' h. LL_APPEND2 m head a = Some (Inr (m', h)) \<and> ll_rep m' h (xs @ [a]))
      \<and> (\<exists>m' h. LL_CONCAT2 m head head2 = Some (Inr (m', h)) \<and> ll_rep m' h (xs @ zs))
      \<and> LL_APPEND2_VS2008 m head a = LL_APPEND2 m head a \<and> LL_DELETE2_VS2008 m head d = LL_DELETE2 m head d)
    \<and> (dl_rep m head xs \<and> dl_rep m head2 zs \<longrightarrow>
        (\<exists>m' h. DL_APPEND2 m head a = Inr (m', h) \<and> dl_rep m' h (xs @ [a]))
      \<and> (\<exists>m' h. DL_CONCAT2 m head head2 = Inr (m', h) \<and> dl_rep m' h (xs @ zs)))"
proof (intro conjI impI, goal_cases)
  case 1
  then show ?case using ll_append [OF _ assms(1)] by blast
next
  case 2
  then show ?case using ll_concat [OF _ _ assms(2)] by blast
next
  case 3
  then show ?case using append_VS2008 [OF _ assms(1)] by blast
next
  case 4
  show ?case by (rule delete_VS2008)
next
  case 5
  then show ?case using dl_append [OF _ assms(1)] by blast
next
  case 6
  then show ?case using dl_concat [OF _ _ assms(2)] by blast
qed

theorem utlist_appends_witness:
  "\<exists>m' h. LL_APPEND2_VS2008 \<lparr>lm_live = \<lambda>_. True, lm_next = \<lambda>_. 0, lm_prev = \<lambda>_. 0\<rparr> 4 7 = Some (Inr (m', h)) \<and> ll_rep m' h [4, 7]"
proof -
  let ?m = "\<lparr>lm_live = \<lambda>_. True, lm_next = \<lambda>_. 0, lm_prev = \<lambda>_. 0\<rparr>"
  have "fresh_elem (lm_live ?m) 7 [4]" "set [4] \<inter> set [5] = ({} :: addr set)" "ll_rep ?m 4 [4]" "ll_rep ?m 5 [5]"
    by (simp_all add: ll_rep_def fresh_elem_def)
  with utlist_appends [OF this(1,2), of 4 5] show ?thesis by auto
qed

end
