(* ===== verification/Utlist_Sort.thy ===== *)
theory Utlist_Sort
  imports Utlist Merge_Sort
begin

text \<open>
  \<^verbatim>\<open>LL_SORT2\<close>, \<^verbatim>\<open>DL_SORT2\<close> and \<^verbatim>\<open>CDL_SORT2\<close> as instances of the merge sort template, and the proof that
  all three sort stably: the memory holds the library's \<open>sort\<close> of the list.
\<close>

section \<open>The three sorts\<close>

text \<open>\<^verbatim>\<open>_ls_insize *= 2\<close> on an \<^verbatim>\<open>int\<close>\<close>

definition double_int :: "nat \<Rightarrow> nat res" where
  "double_int n = (if 2 * n < 2 ^ 31 then Inr (2 * n) else Inl Signed_overflow)"

definition ll_sort_ops :: "lmem sort_ops" where
  "ll_sort_ops = \<lparr>
     so_next = \<lambda>oldhead m q. at m q (lm_next m q),
     so_link = \<lambda>m tail e. if tail = NULL then Inr m else set_nxt m tail e,
     so_finish = \<lambda>m lst tail. if tail = NULL then Inr m else set_nxt m tail NULL,
     so_double = double_int\<rparr>"

definition LL_SORT2 :: "addr comparator \<Rightarrow> lmem \<Rightarrow> addr \<Rightarrow> lres option" where
  "LL_SORT2 cmp m lst = obind (list_sort ll_sort_ops cmp m lst) (\<lambda>(m, lst, tail). Some (Inr (m, lst)))"

definition dl_link :: "lmem \<Rightarrow> addr \<Rightarrow> addr \<Rightarrow> lmem res" where
  "dl_link m tail e = rbind (if tail = NULL then Inr m else set_nxt m tail e) (\<lambda>m. set_prv m e tail)"

definition dl_sort_ops :: "lmem sort_ops" where
  "dl_sort_ops = \<lparr>
     so_next = \<lambda>oldhead m q. at m q (lm_next m q),
     so_link = dl_link,
     so_finish = \<lambda>m lst tail. rbind (set_prv m lst tail) (\<lambda>m. set_nxt m tail NULL),
     so_double = double_int\<rparr>"

definition DL_SORT2 :: "addr comparator \<Rightarrow> lmem \<Rightarrow> addr \<Rightarrow> lres option" where
  "DL_SORT2 cmp m lst = obind (list_sort dl_sort_ops cmp m lst) (\<lambda>(m, lst, tail). Some (Inr (m, lst)))"

definition cdl_next :: "addr \<Rightarrow> lmem \<Rightarrow> addr \<Rightarrow> addr" where
  "cdl_next oldhead m q = (if lm_next m q = oldhead then NULL else lm_next m q)"

definition cdl_sort_ops :: "lmem sort_ops" where
  "cdl_sort_ops = \<lparr>
     so_next = \<lambda>oldhead m q. at m q (cdl_next oldhead m q),
     so_link = dl_link,
     so_finish = \<lambda>m lst tail. rbind (set_prv m lst tail) (\<lambda>m. set_nxt m tail lst),
     so_double = double_int\<rparr>"

definition CDL_SORT2 :: "addr comparator \<Rightarrow> lmem \<Rightarrow> addr \<Rightarrow> lres option" where
  "CDL_SORT2 cmp m lst = obind (list_sort cdl_sort_ops cmp m lst) (\<lambda>(m, lst, tail). Some (Inr (m, lst)))"

section \<open>The lists of utlist.h are memories that can be sorted\<close>

lemma double_int_ok: "n < 2 ^ 30 \<Longrightarrow> double_int n = Inr (2 * n)"
  by (simp add: double_int_def)

lemma last_NULL: "NULL \<notin> set os \<Longrightarrow> last (NULL # os) = NULL \<longleftrightarrow> os = []"
  by (cases os rule: rev_cases) auto

definition ll_out :: "lmem \<Rightarrow> addr list \<Rightarrow> bool" where
  "ll_out m os \<longleftrightarrow> (\<exists>q. sseg (lm_next m) (hd (os @ [q])) os q)"

lemma ll_link_ok:
  assumes "ll_out m os" and "distinct (os @ [e])" and "NULL \<notin> set (os @ [e])" and "\<forall>x \<in> set (os @ [e]). lm_live m x"
  shows "\<exists>m'. so_link ll_sort_ops m (last (NULL # os)) e = Inr m' \<and> ll_out m' (os @ [e]) \<and> lm_live m' = lm_live m
    \<and> (\<forall>(oh::addr) x. x \<notin> set os \<longrightarrow> lm_next m' x = lm_next m x)"
proof (cases os rule: rev_cases)
  case Nil
  then show ?thesis using assms by (simp add: ll_sort_ops_def ll_out_def)
next
  case (snoc us u)
  let ?m = "m\<lparr>lm_next := (lm_next m)(u := e)\<rparr>"
  have "so_link ll_sort_ops m (last (NULL # os)) e = Inr ?m" using assms(3,4) snoc by (simp add: ll_sort_ops_def)
  moreover have "ll_out ?m (os @ [e])"
    using assms(1-3) snoc by (cases us) (auto simp: ll_out_def sseg_append)
  ultimately show ?thesis using snoc by (intro exI [of _ ?m]) simp
qed

lemma ll_finish_ok:
  assumes "ll_out m os" and "os \<noteq> []" and "distinct os" and "NULL \<notin> set os" and "\<forall>x \<in> set os. lm_live m x"
  shows "\<exists>m'. so_finish ll_sort_ops m (hd os) (last os) = Inr m' \<and> ll_rep m' (hd os) os \<and> lm_live m' = lm_live m"
proof (cases os rule: rev_cases)
  case Nil
  then show ?thesis using assms by simp
next
  case (snoc us u)
  let ?m = "m\<lparr>lm_next := (lm_next m)(u := NULL)\<rparr>"
  have "so_finish ll_sort_ops m (hd os) (last os) = Inr ?m" using assms(4,5) snoc by (simp add: ll_sort_ops_def)
  moreover have "ll_rep ?m (hd os) os"
    using assms snoc by (cases us) (auto simp: ll_out_def ll_rep_def sseg_append)
  ultimately show ?thesis by (intro exI [of _ ?m]) simp
qed

interpretation llsort: sort_memory ll_sort_ops lm_live "\<lambda>oh. lm_next" ll_out ll_rep
proof (unfold_locales, goal_cases)
  case (1 a m oh)
  then show ?case by (simp add: ll_sort_ops_def)
next
  case (2 m os e)
  then show ?case by (rule ll_link_ok)
next
  case (3 m os)
  then show ?case by (rule ll_finish_ok)
next
  case (4 m head xs)
  then show ?case by (simp add: ll_rep_def ll_out_def)
next
  case (5 n)
  then show ?case by (simp add: ll_sort_ops_def double_int_ok)
qed

text \<open>The doubly linked and the circular sort link in the same way.\<close>

definition dl_out :: "lmem \<Rightarrow> addr list \<Rightarrow> bool" where
  "dl_out m os \<longleftrightarrow> linked (lm_next m) (lm_prev m) os"

lemma dl_link_ok:
  assumes "dl_out m os" and "distinct (os @ [e])" and "NULL \<notin> set (os @ [e])" and "\<forall>x \<in> set (os @ [e]). lm_live m x"
  shows "\<exists>m'. dl_link m (last (NULL # os)) e = Inr m' \<and> dl_out m' (os @ [e]) \<and> lm_live m' = lm_live m
    \<and> (\<forall>x. x \<notin> set os \<longrightarrow> lm_next m' x = lm_next m x)"
proof (cases "os = []")
  case True
  then show ?thesis using assms by (auto simp: dl_link_def dl_out_def)
next
  case False
  let ?m = "m\<lparr>lm_next := (lm_next m)(last os := e), lm_prev := (lm_prev m)(e := last os)\<rparr>"
  note l = last_in_set [OF False]
  have "last os \<noteq> NULL" "lm_live m (last os)" using assms(3,4) l by (metis Un_iff set_append, simp)
  then have "dl_link m (last (NULL # os)) e = Inr ?m" using False assms(3,4) by (simp add: dl_link_def)
  moreover have "dl_out ?m (os @ [e])" using assms(1,2) False by (simp add: dl_out_def linked_append)
  ultimately show ?thesis using l by (intro exI [of _ ?m]) auto
qed

lemma dl_ends_ok:
  assumes "dl_out m os" and "os \<noteq> []" and "distinct os" and "NULL \<notin> set os" and "\<forall>x \<in> set os. lm_live m x"
  shows "\<exists>m'. rbind (set_prv m (hd os) (last os)) (\<lambda>m. set_nxt m (last os) v) = Inr m' \<and> cells_ok m' os
    \<and> lm_prev m' (hd os) = last os \<and> lm_next m' (last os) = v \<and> lm_live m' = lm_live m"
proof -
  let ?m = "m\<lparr>lm_next := (lm_next m)(last os := v), lm_prev := (lm_prev m)(hd os := last os)\<rparr>"
  have "hd os \<noteq> NULL" "lm_live m (hd os)" "last os \<noteq> NULL" "lm_live m (last os)"
    using assms(4,5) hd_in_set [OF assms(2)] last_in_set [OF assms(2)] by metis+
  then have "rbind (set_prv m (hd os) (last os)) (\<lambda>m. set_nxt m (last os) v) = Inr ?m" by simp
  moreover have "cells_ok ?m os" using assms by (simp add: dl_out_def cells_ok_def)
  ultimately show ?thesis by (intro exI [of _ ?m]) simp
qed

lemma dl_start: "dl_rep m head xs \<Longrightarrow> sseg (lm_next m) head xs NULL \<and> (\<forall>x \<in> set xs. lm_live m x) \<and> dl_out m []"
  using dl_ll [of m head xs] by (simp add: ll_rep_def dl_out_def)

interpretation dlsort: sort_memory dl_sort_ops lm_live "\<lambda>oh. lm_next" dl_out dl_rep
proof (unfold_locales, goal_cases)
  case (1 a m oh)
  then show ?case by (simp add: dl_sort_ops_def)
next
  case (2 m os e)
  then show ?case using dl_link_ok by (simp add: dl_sort_ops_def)
next
  case (3 m os)
  from dl_ends_ok [OF this, of NULL] show ?case using 3(2) by (auto simp: dl_sort_ops_def dl_rep_def)
next
  case (4 m head xs)
  then show ?case by (rule dl_start)
next
  case (5 n)
  then show ?case by (simp add: dl_sort_ops_def double_int_ok)
qed

lemma cdl_rest_sseg: "cdl_rest m head el bs \<Longrightarrow> sseg (cdl_next head m) el bs NULL"
proof (induction bs arbitrary: el)
  case Nil
  then show ?case by (simp add: cdl_rest_def)
next
  case (Cons b bs)
  note r = cdl_rest_Cons [OF Cons.prems]
  from Cons.IH [OF r(4)] r(1,2) show ?case by (simp add: cdl_next_def)
qed

interpretation cdlsort: sort_memory cdl_sort_ops lm_live cdl_next dl_out cdl_rep
proof (unfold_locales, goal_cases)
  case (1 a m oh)
  then show ?case by (simp add: cdl_sort_ops_def)
next
  case (2 m os e)
  from dl_link_ok [OF this] show ?case by (auto simp: cdl_sort_ops_def cdl_next_def)
next
  case (3 m os)
  from dl_ends_ok [OF this, of "hd os"] show ?case using 3(2) by (auto simp: cdl_sort_ops_def cdl_rep_def)
next
  case (4 m head xs)
  then show ?case using cdl_rest_sseg [OF cdl_rep_rest] by (simp add: cdl_rep_def cells_ok_def dl_out_def)
next
  case (5 n)
  then show ?case by (simp add: cdl_sort_ops_def double_int_ok)
qed

section \<open>Sorting\<close>

lemma sorts_ok:
  assumes "length xs \<le> 2 ^ 30"
  shows "ll_rep m head xs \<Longrightarrow> \<exists>m' head'. LL_SORT2 cmp m head = Some (Inr (m', head')) \<and> ll_rep m' head' (Sorting_Algorithms.sort cmp xs)"
    and "dl_rep m head xs \<Longrightarrow> \<exists>m' head'. DL_SORT2 cmp m head = Some (Inr (m', head')) \<and> dl_rep m' head' (Sorting_Algorithms.sort cmp xs)"
    and "cdl_rep m head xs \<Longrightarrow> \<exists>m' head'. CDL_SORT2 cmp m head = Some (Inr (m', head')) \<and> cdl_rep m' head' (Sorting_Algorithms.sort cmp xs)"
  using llsort.list_sort_ok [OF _ assms, of m head cmp] dlsort.list_sort_ok [OF _ assms, of m head cmp]
    cdlsort.list_sort_ok [OF _ assms, of m head cmp]
  by (auto simp: LL_SORT2_def DL_SORT2_def CDL_SORT2_def split: if_splits)

text \<open>
  C16: On every list of at most 2^30 elements, \<^verbatim>\<open>LL_SORT\<close>, \<^verbatim>\<open>DL_SORT\<close> and \<^verbatim>\<open>CDL_SORT\<close> return, without an
  invalid access or an overflow of the run length, and what the memory then holds is the stable sort
  of the list under the given comparison: each of the three bottom-up merge sorts on pointers
  is equivalent to the library's sorting function on lists.
\<close>

theorem utlist_sorts:
  assumes "length xs \<le> 2 ^ 30"
  shows "(ll_rep m head xs \<longrightarrow> (\<exists>m' head'. LL_SORT2 cmp m head = Some (Inr (m', head')) \<and> ll_rep m' head' (Sorting_Algorithms.sort cmp xs)))
    \<and> (dl_rep m head xs \<longrightarrow> (\<exists>m' head'. DL_SORT2 cmp m head = Some (Inr (m', head')) \<and> dl_rep m' head' (Sorting_Algorithms.sort cmp xs)))
    \<and> (cdl_rep m head xs \<longrightarrow> (\<exists>m' head'. CDL_SORT2 cmp m head = Some (Inr (m', head')) \<and> cdl_rep m' head' (Sorting_Algorithms.sort cmp xs)))"
  using sorts_ok [OF assms, of m head cmp] by simp

theorem utlist_sorts_witness:
  "\<exists>m' head'. CDL_SORT2 default \<lparr>lm_live = \<lambda>_. True, lm_next = (\<lambda>_. 0)(3 := 1, 1 := 2, 2 := 3), lm_prev = (\<lambda>_. 0)(3 := 2, 1 := 3, 2 := 1)\<rparr> 3
     = Some (Inr (m', head')) \<and> cdl_rep m' head' [1, 2, 3]"
proof -
  let ?m = "\<lparr>lm_live = \<lambda>_. True, lm_next = (\<lambda>_. 0)(3 := 1, 1 := 2, 2 := 3), lm_prev = (\<lambda>_. 0)(3 := 2, 1 := 3, 2 := 1)\<rparr>"
  have "cdl_rep ?m 3 [3, 1, 2]" by (simp add: cdl_rep_def cells_ok_def)
  moreover have "Sorting_Algorithms.sort default [3, 1, 2 :: addr] = [1, 2, 3]" by code_simp
  moreover have "length [3, 1, 2 :: addr] \<le> 2 ^ 30" by simp
  ultimately show ?thesis using utlist_sorts [of "[3, 1, 2]" ?m 3 default] by auto
qed

end
