(* ===== verification/Hash_Functions.thy ===== *)
theory Hash_Functions
  imports Uthash
begin

text \<open>
  The hash functions of \<^verbatim>\<open>uthash.h\<close> that can be chosen with \<^verbatim>\<open>HASH_FUNCTION\<close> in place of Jenkins' one, and
  how much of a key their steps keep.  A plain \<^verbatim>\<open>char\<close> is signed, as gcc has it on x86, so a byte of the key is
  sign-extended where the macro reads it through a \<^verbatim>\<open>char*\<close>.
\<close>

section \<open>The functions\<close>

definition ber_step :: "u8 \<Rightarrow> u32 \<Rightarrow> u32" where
  "ber_step c hashv = hashv * 33 + scast c"

definition HASH_BER :: "u8 list \<Rightarrow> u32" where
  "HASH_BER key = fold ber_step key 0"

definition sax_step :: "u8 \<Rightarrow> u32 \<Rightarrow> u32" where
  "sax_step c hashv = hashv XOR (push_bit 5 hashv + drop_bit 2 hashv + scast c)"

definition HASH_SAX :: "u8 list \<Rightarrow> u32" where
  "HASH_SAX key = fold sax_step key 0"

definition fnv_step :: "u8 \<Rightarrow> u32 \<Rightarrow> u32" where
  "fnv_step c hashv = (hashv * 16777619) XOR scast c"

definition HASH_FNV :: "u8 list \<Rightarrow> u32" where
  "HASH_FNV key = fold fnv_step key 2166136261"

definition oat_step :: "u8 \<Rightarrow> u32 \<Rightarrow> u32" where
  "oat_step c hashv =
     (let hashv = hashv + scast c;
          hashv = hashv + push_bit 10 hashv
      in hashv XOR drop_bit 6 hashv)"

definition oat_end :: "u32 \<Rightarrow> u32" where
  "oat_end hashv =
     (let hashv = hashv + push_bit 3 hashv;
          hashv = hashv XOR drop_bit 11 hashv
      in hashv + push_bit 15 hashv)"

definition HASH_OAT :: "u8 list \<Rightarrow> u32" where
  "HASH_OAT key = oat_end (fold oat_step key 0)"

text \<open>Paul Hsieh's function: four bytes per turn of the loop, then the rest, then the final mixing.\<close>

definition get16bits :: "u8 \<Rightarrow> u8 \<Rightarrow> u32" where
  "get16bits d0 d1 = push_bit 8 (ucast d1) + ucast d0"

definition sfh_turn :: "u8 \<Rightarrow> u8 \<Rightarrow> u8 \<Rightarrow> u8 \<Rightarrow> u32 \<Rightarrow> u32" where
  "sfh_turn a b c d hashv =
     (let hashv = hashv + get16bits a b;
          tmp = push_bit 11 (get16bits c d) XOR hashv;
          hashv = push_bit 16 hashv XOR tmp
      in hashv + drop_bit 11 hashv)"

fun sfh_loop :: "u8 list \<Rightarrow> u32 \<Rightarrow> u32" where
  "sfh_loop (a # b # c # d # key) hashv = sfh_loop key (sfh_turn a b c d hashv)"
| "sfh_loop [a, b, c] hashv =
     (let hashv = hashv + get16bits a b;
          hashv = hashv XOR push_bit 16 hashv;
          hashv = hashv XOR push_bit 18 (ucast c)
      in hashv + drop_bit 11 hashv)"
| "sfh_loop [a, b] hashv =
     (let hashv = hashv + get16bits a b;
          hashv = hashv XOR push_bit 11 hashv
      in hashv + drop_bit 17 hashv)"
| "sfh_loop [a] hashv =
     (let hashv = hashv + ucast a;
          hashv = hashv XOR push_bit 10 hashv
      in hashv + drop_bit 1 hashv)"
| "sfh_loop [] hashv = hashv"

definition sfh_end :: "u32 \<Rightarrow> u32" where
  "sfh_end hashv =
     (let hashv = hashv XOR push_bit 3 hashv;
          hashv = hashv + drop_bit 5 hashv;
          hashv = hashv XOR push_bit 4 hashv;
          hashv = hashv + drop_bit 17 hashv;
          hashv = hashv XOR push_bit 25 hashv
      in hashv + drop_bit 6 hashv)"

definition HASH_SFH :: "u8 list \<Rightarrow> u32" where
  "HASH_SFH key = sfh_end (sfh_loop key 0xcafebabe)"

text \<open>
  MurmurHash.  A block is read as a 32-bit word of an x86 machine.  The constant \<^verbatim>\<open>0xc2b2ae35l\<close> of the final
  mixing is a \<^verbatim>\<open>long\<close>, 64 bits wide and signed there, and so is its product with the hash value.
\<close>

definition MUR_GETBLOCK :: "u8 \<Rightarrow> u8 \<Rightarrow> u8 \<Rightarrow> u8 \<Rightarrow> u32" where
  "MUR_GETBLOCK a b c d = ucast a OR push_bit 8 (ucast b) OR push_bit 16 (ucast c) OR push_bit 24 (ucast d)"

definition MUR_ROTL32 :: "nat \<Rightarrow> u32 \<Rightarrow> u32" where
  "MUR_ROTL32 r x = push_bit r x OR drop_bit (32 - r) x"

definition mur_k1 :: "u32 \<Rightarrow> u32" where
  "mur_k1 k1 = MUR_ROTL32 15 (k1 * 0xcc9e2d51) * 0x1b873593"

definition mur_h1 :: "u32 \<Rightarrow> u32 \<Rightarrow> u32" where
  "mur_h1 k1 h1 = MUR_ROTL32 13 (h1 XOR mur_k1 k1) * 5 + 0xe6546b64"

text \<open>The \<^verbatim>\<open>switch\<close> over the bytes that are left falls through from case 3 to case 1.\<close>

fun mur_loop :: "u8 list \<Rightarrow> u32 \<Rightarrow> u32" where
  "mur_loop (a # b # c # d # key) h1 = mur_loop key (mur_h1 (MUR_GETBLOCK a b c d) h1)"
| "mur_loop [a, b, c] h1 = h1 XOR mur_k1 (push_bit 16 (ucast c) XOR push_bit 8 (ucast b) XOR ucast a)"
| "mur_loop [a, b] h1 = h1 XOR mur_k1 (push_bit 8 (ucast b) XOR ucast a)"
| "mur_loop [a] h1 = h1 XOR mur_k1 (ucast a)"
| "mur_loop [] h1 = h1"

definition MUR_FMIX :: "u32 \<Rightarrow> u32 res" where
  "MUR_FMIX h =
     (let h = h XOR drop_bit 16 h;
          h = h * 0x85ebca6b;
          h = h XOR drop_bit 13 h
      in if unat h * 0xc2b2ae35 < 2 ^ 63
         then let h = h * 0xc2b2ae35 in Inr (h XOR drop_bit 16 h)
         else Inl Signed_overflow)"

definition HASH_MUR :: "u8 list \<Rightarrow> u32 res" where
  "HASH_MUR key = MUR_FMIX (mur_loop key 0xf88D5353 XOR of_nat (length key))"

section \<open>Steps that can be undone\<close>

lemma mult_cancel_unit:
  fixes x y c :: "'a::len word"
  assumes "c * d = 1"
  shows "x * c = y * c \<longleftrightarrow> x = y"
  using assms by (metis mult.assoc mult.right_neutral)

text \<open>Adding a word shifted to the left multiplies it by an odd number.\<close>

lemma add_push_bit: "x + push_bit n x = x * (1 + 2 ^ n)" for x :: "'a::len word"
  by (simp add: push_bit_eq_mult distrib_left)

lemma xor_drop_bit_cancel:
  fixes x y :: "'a::len word"
  assumes "0 < n"
  shows "x XOR drop_bit n x = y XOR drop_bit n y \<longleftrightarrow> x = y"
proof
  assume eq: "x XOR drop_bit n x = y XOR drop_bit n y"
  let ?d = "x XOR y"
  have "drop_bit n ?d = drop_bit n x XOR drop_bit n y" by (rule drop_bit_xor)
  also have "\<dots> = ?d" using eq by (metis xor.assoc xor.commute xor_self_eq xor.left_neutral)
  finally have "unat ?d div 2 ^ n = unat ?d" by (metis drop_bit_eq_div unat_drop_bit_eq)
  moreover have "1 < (2 :: nat) ^ n" using assms one_less_power [of "2 :: nat" n] by simp
  ultimately have "unat ?d = 0" using div_less_dividend [of "2 ^ n" "unat ?d"] by (metis less_irrefl neq0_conv)
  then have "?d = 0" by (simp add: unat_eq_0)
  then show "x = y" by (metis xor.assoc xor_self_eq xor.left_neutral xor.right_neutral)
qed simp

lemma xor_cancel: "x XOR z = y XOR z \<longleftrightarrow> x = y" for x y z :: "'a::len word"
  by (metis xor.assoc xor_self_eq xor.right_neutral)

lemma xor_cancel_left: "z XOR x = z XOR y \<longleftrightarrow> x = y" for x y z :: "'a::len word"
  by (metis xor_cancel xor.commute)

lemma ber_step_cancel: "ber_step c x = ber_step c y \<longleftrightarrow> x = y"
  using mult_cancel_unit [of 33 "0x3e0f83e1" x y] by (simp add: ber_step_def)

lemma fnv_step_cancel: "fnv_step c x = fnv_step c y \<longleftrightarrow> x = y"
  using mult_cancel_unit [of 16777619 "0x359c449b" x y] by (simp add: fnv_step_def xor_cancel)

lemma oat_step_cancel: "oat_step c x = oat_step c y \<longleftrightarrow> x = y"
  using mult_cancel_unit [of 1025 "0xc00ffc01" "x + scast c" "y + scast c"]
  by (simp add: oat_step_def Let_def xor_drop_bit_cancel add_push_bit)

lemma oat_end_cancel: "oat_end x = oat_end y \<longleftrightarrow> x = y"
  using mult_cancel_unit [of 32769 "0x3fff8001" "x * 9 XOR drop_bit 11 (x * 9)" "y * 9 XOR drop_bit 11 (y * 9)"]
    mult_cancel_unit [of 9 "0x38e38e39" x y]
  by (simp add: oat_end_def Let_def add_push_bit xor_drop_bit_cancel)

lemma fold_cancel:
  assumes "\<And>c x y. step c x = step c y \<longleftrightarrow> x = y"
  shows "fold step s x = fold step s y \<longleftrightarrow> x = y"
  by (induction s arbitrary: x y) (simp_all add: assms)

lemma rotl_undo: "0 < r \<Longrightarrow> r < 32 \<Longrightarrow> drop_bit r (MUR_ROTL32 r x) OR push_bit (32 - r) (MUR_ROTL32 r x) = x"
proof (rule bit_word_eqI)
  fix n
  assume r: "0 < r" "r < 32" "n < LENGTH(32)"
  have "\<not> n + r < 32 \<Longrightarrow> 32 + (n + r - 32) - r = n" by simp
  then show "bit (drop_bit r (MUR_ROTL32 r x) OR push_bit (32 - r) (MUR_ROTL32 r x)) n \<longleftrightarrow> bit x n"
    using r by (cases "n + r < 32") (auto simp: MUR_ROTL32_def bit_simps)
qed

lemma rotl_cancel: "0 < r \<Longrightarrow> r < 32 \<Longrightarrow> MUR_ROTL32 r x = MUR_ROTL32 r y \<longleftrightarrow> x = y"
  using rotl_undo by metis

lemma mur_k1_cancel: "mur_k1 x = mur_k1 y \<longleftrightarrow> x = y"
  using mult_cancel_unit [of "0x1b873593" "0x56ed309b" "MUR_ROTL32 15 (x * 0xcc9e2d51)" "MUR_ROTL32 15 (y * 0xcc9e2d51)"]
    mult_cancel_unit [of "0xcc9e2d51" "0xdee13bb1" x y]
  by (simp add: mur_k1_def rotl_cancel)

lemma mur_h1_cancel: "mur_h1 k x = mur_h1 k' x \<longleftrightarrow> k = k'"
  using mult_cancel_unit [of 5 "0xcccccccd" "MUR_ROTL32 13 (x XOR mur_k1 k)" "MUR_ROTL32 13 (x XOR mur_k1 k')"]
  by (simp add: mur_h1_def rotl_cancel xor_cancel_left mur_k1_cancel)

lemma fmix_cancel:
  assumes "MUR_FMIX x = Inr h" and "MUR_FMIX y = Inr h"
  shows "x = y"
proof -
  let ?s = "\<lambda>x :: u32. (x XOR drop_bit 16 x) * 0x85ebca6b"
  let ?t = "\<lambda>x. ?s x XOR drop_bit 13 (?s x)"
  have "Inr h = (Inr (?t z * 0xc2b2ae35 XOR drop_bit 16 (?t z * 0xc2b2ae35)) :: u32 res)" if "MUR_FMIX z = Inr h" for z
    using that by (simp add: MUR_FMIX_def Let_def split: if_splits)
  from this [OF assms(1)] this [OF assms(2)] have "?t x * 0xc2b2ae35 = ?t y * 0xc2b2ae35"
    using xor_drop_bit_cancel [of 16 "?t x * 0xc2b2ae35" "?t y * 0xc2b2ae35"] by simp
  then have "?s x = ?s y"
    using mult_cancel_unit [of "0xc2b2ae35" "0x7ed1b41d" "?t x" "?t y"] xor_drop_bit_cancel [of 13 "?s x" "?s y"] by simp
  then show ?thesis
    using mult_cancel_unit [of "0x85ebca6b" "0xa5cb9243" "x XOR drop_bit 16 x" "y XOR drop_bit 16 y"]
      xor_drop_bit_cancel [of 16 x y] by simp
qed

lemma getblock_bytes:
  "ucast (MUR_GETBLOCK a b c d) = a" "ucast (drop_bit 8 (MUR_GETBLOCK a b c d)) = b"
  "ucast (drop_bit 16 (MUR_GETBLOCK a b c d)) = c" "ucast (drop_bit 24 (MUR_GETBLOCK a b c d)) = d"
  by (rule bit_word_eqI; auto simp: MUR_GETBLOCK_def bit_simps dest: bit_imp_le_length)+

lemma getblock_cancel: "MUR_GETBLOCK a b c d = MUR_GETBLOCK a' b' c' d' \<longleftrightarrow> a = a' \<and> b = b' \<and> c = c' \<and> d = d'"
  using getblock_bytes by metis

text \<open>Jenkins' mixing is undone line by line.\<close>

lemma jen_undo:
  "(\<lambda>(a, b, c). ((a XOR drop_bit n c) + c + b, b, c)) (jen_a n m) = m"
  "(\<lambda>(a, b, c). (a, (b XOR push_bit n a) + a + c, c)) (jen_b n m) = m"
  "(\<lambda>(a, b, c). (a, b, (c XOR drop_bit n b) + b + a)) (jen_c n m) = m"
  by (cases m; simp add: xor.assoc)+

lemma undo_cancel: "(\<And>m. g (f m) = m) \<Longrightarrow> f x = f y \<longleftrightarrow> x = y"
  by metis

lemma jen_cancel: "jen_a n m = jen_a n m' \<longleftrightarrow> m = m'" "jen_b n m = jen_b n m' \<longleftrightarrow> m = m'" "jen_c n m = jen_c n m' \<longleftrightarrow> m = m'"
  by (rule undo_cancel, rule jen_undo)+

lemma jen_mix_inj: "inj HASH_JEN_MIX"
  by (rule injI) (simp add: HASH_JEN_MIX_def jen_cancel)

lemma jen_mix_bij: "bij HASH_JEN_MIX"
  using jen_mix_inj finite_UNIV_inj_surj [OF _ jen_mix_inj] by (simp add: bij_def)

lemma four_bytes:
  assumes "length key = 4"
  obtains a b c d where "key = [a, b, c, d]"
  using assms by (auto simp: length_Suc_conv eval_nat_numeral)

lemmas mur_eval = HASH_MUR_def MUR_FMIX_def mur_h1_def mur_k1_def MUR_ROTL32_def MUR_GETBLOCK_def

lemma mur_overflow: "HASH_MUR [1, 0, 0, 0] = Inl Signed_overflow"
  by (simp add: mur_eval)

text \<open>
  How much of a key the hash functions keep.  Jenkins' mixing, the only one the server compiles in, is a
  permutation of the three words it works on.  MurmurHash never gives two different keys of four bytes, the size of every
  integer key, the same hash value, where it gives one: for the key 1, among others, the product of its final mixing
  overflows a signed \<^verbatim>\<open>long\<close>.  Under Bernstein's function, FNV and
  one-at-a-time a common suffix neither makes nor removes a collision.
\<close>

theorem hash_mixing:
  "bij HASH_JEN_MIX
    \<and> (length k1 = 4 \<and> length k2 = 4 \<and> HASH_MUR k1 = Inr h \<and> HASH_MUR k2 = Inr h \<longrightarrow> k1 = k2)
    \<and> HASH_MUR [1, 0, 0, 0] = Inl Signed_overflow
    \<and> (HASH_BER (key1 @ s) = HASH_BER (key2 @ s) \<longleftrightarrow> HASH_BER key1 = HASH_BER key2)
    \<and> (HASH_FNV (key1 @ s) = HASH_FNV (key2 @ s) \<longleftrightarrow> HASH_FNV key1 = HASH_FNV key2)
    \<and> (HASH_OAT (key1 @ s) = HASH_OAT (key2 @ s) \<longleftrightarrow> HASH_OAT key1 = HASH_OAT key2)"
proof (intro conjI impI)
  assume "length k1 = 4 \<and> length k2 = 4 \<and> HASH_MUR k1 = Inr h \<and> HASH_MUR k2 = Inr h"
  then have k: "length k1 = 4" "length k2 = 4" "HASH_MUR k1 = Inr h" "HASH_MUR k2 = Inr h" by simp_all
  then obtain a b c d a' b' c' d' where k12: "k1 = [a, b, c, d]" "k2 = [a', b', c', d']"
    using four_bytes by metis
  have "mur_loop k1 0xf88D5353 XOR 4 = mur_loop k2 0xf88D5353 XOR 4"
    using k by (intro fmix_cancel [of _ h]) (simp_all add: HASH_MUR_def)
  then show "k1 = k2" using k12 by (simp add: xor_cancel mur_h1_cancel getblock_cancel)
qed (simp_all add: jen_mix_bij mur_overflow HASH_BER_def HASH_FNV_def HASH_OAT_def oat_end_cancel
  fold_cancel [OF ber_step_cancel] fold_cancel [OF fnv_step_cancel] fold_cancel [OF oat_step_cancel])

theorem hash_mixing_witness:
  "\<exists>h. HASH_MUR [0, 0, 0, 0] = Inr h \<and> HASH_MUR [1, 0, 0, 0] \<noteq> Inr h"
proof -
  have "HASH_MUR [0, 0, 0, 0] = Inr 1200274763"
    by (simp add: mur_eval)
  then obtain h where "HASH_MUR [0, 0, 0, 0] = Inr h" by blast
  then show ?thesis using hash_mixing [of "[0, 0, 0, 0]" "[1, 0, 0, 0]" h] by auto
qed

end
