(* ===== verification/Mur_Portable.thy ===== *)
theory Mur_Portable
  imports Hash_Functions
begin

text \<open>
  How \<^verbatim>\<open>HASH_MUR\<close> reads its key on processors that cannot load a word from every address (\<^verbatim>\<open>MUR_GETBLOCK\<close> for
  \<^verbatim>\<open>non intel\<close>, in both byte orders): it loads the two aligned words that an unaligned one lies in and puts it
  together by shifts.  The memory is a function from addresses to bytes.
\<close>

section \<open>The macros\<close>

text \<open>The word at an address; the code only loads from multiples of four.\<close>

definition load32 :: "bool \<Rightarrow> (int \<Rightarrow> u8) \<Rightarrow> int \<Rightarrow> u32" where
  "load32 big m a = (if big then MUR_GETBLOCK (m (a + 3)) (m (a + 2)) (m (a + 1)) (m a)
     else MUR_GETBLOCK (m a) (m (a + 1)) (m (a + 2)) (m (a + 3)))"

definition WP :: "int \<Rightarrow> int" where
  "WP p = p AND NOT 3"

definition MUR_THREE_ONE :: "bool \<Rightarrow> (int \<Rightarrow> u8) \<Rightarrow> int \<Rightarrow> u32" where
  "MUR_THREE_ONE big m p = (let w = load32 big m (WP p); w' = load32 big m (WP p + 4) in
     if big then push_bit 8 (w AND 0x00ffffff) OR drop_bit 24 (w' AND 0xff000000)
     else drop_bit 8 (w AND 0xffffff00) OR push_bit 24 (w' AND 0x000000ff))"

definition MUR_TWO_TWO :: "bool \<Rightarrow> (int \<Rightarrow> u8) \<Rightarrow> int \<Rightarrow> u32" where
  "MUR_TWO_TWO big m p = (let w = load32 big m (WP p); w' = load32 big m (WP p + 4) in
     if big then push_bit 16 (w AND 0x0000ffff) OR drop_bit 16 (w' AND 0xffff0000)
     else drop_bit 16 (w AND 0xffff0000) OR push_bit 16 (w' AND 0x0000ffff))"

definition MUR_ONE_THREE :: "bool \<Rightarrow> (int \<Rightarrow> u8) \<Rightarrow> int \<Rightarrow> u32" where
  "MUR_ONE_THREE big m p = (let w = load32 big m (WP p); w' = load32 big m (WP p + 4) in
     if big then push_bit 24 (w AND 0x000000ff) OR drop_bit 8 (w' AND 0xffffff00)
     else drop_bit 24 (w AND 0xff000000) OR push_bit 8 (w' AND 0x00ffffff))"

definition MUR_GETBLOCK_any :: "bool \<Rightarrow> (int \<Rightarrow> u8) \<Rightarrow> int \<Rightarrow> int \<Rightarrow> u32" where
  "MUR_GETBLOCK_any big m p i =
     (if p AND 3 = 0 then load32 big m (p + 4 * i)
      else if p AND 3 = 1 then MUR_THREE_ONE big m p
      else if p AND 3 = 2 then MUR_TWO_TWO big m p
      else MUR_ONE_THREE big m p)"

text \<open>The loop over the blocks: \<^verbatim>\<open>_mur_blocks\<close> points behind them, and \<^verbatim>\<open>_mur_i\<close> counts up from \<open>-n\<close> to \<open>-1\<close>.\<close>

definition mur_blocks :: "bool \<Rightarrow> (int \<Rightarrow> u8) \<Rightarrow> int \<Rightarrow> nat \<Rightarrow> u32 \<Rightarrow> u32" where
  "mur_blocks big m p n h1 = fold (\<lambda>i. mur_h1 (MUR_GETBLOCK_any big m p i)) (map (\<lambda>k. int k - int n) [0..<n]) h1"

section \<open>What they read\<close>

lemma low_bits: "p AND 3 = p mod 4" for p :: int
  using take_bit_eq_mask [of 2 p] by (simp add: take_bit_eq_mod mask_eq_exp_minus_1)

lemma WP_eq: "WP p = p - p mod 4"
proof -
  have "p AND NOT (mask 2) = push_bit 2 (drop_bit 2 p)"
  proof (rule bit_eqI)
    fix n
    have "Suc (Suc (n - 2)) = n" if "\<not> n < 2" using that by arith
    then show "bit (p AND NOT (mask 2)) n \<longleftrightarrow> bit (push_bit 2 (drop_bit 2 p)) n"
      by (cases "n < 2") (simp_all add: bit_simps not_less)
  qed
  then show ?thesis by (simp add: WP_def mask_eq_exp_minus_1 push_bit_eq_mult drop_bit_eq_div minus_mod_eq_mult_div)
qed

text \<open>The upper bytes of one word followed by the lower bytes of another, with the shifts and masks of the macros.\<close>

definition join :: "nat \<Rightarrow> u32 \<Rightarrow> u32 \<Rightarrow> u32" where
  "join r w w' = drop_bit r (w AND NOT (mask r)) OR push_bit (32 - r) (w' AND mask r)"

lemma join_bit: "r < 32 \<Longrightarrow> n < 32 \<Longrightarrow> bit (join r w w') n \<longleftrightarrow> (if n + r < 32 then bit w (n + r) else bit w' (n + r - 32))"
  by (auto simp: join_def bit_simps add.commute dest: bit_imp_le_length)

lemma getblock_bit:
  "n < 32 \<Longrightarrow> bit (MUR_GETBLOCK a b c d) n \<longleftrightarrow>
     (if n < 8 then bit a n else if n < 16 then bit b (n - 8) else if n < 24 then bit c (n - 16) else bit d (n - 24))"
  by (auto simp: MUR_GETBLOCK_def bit_simps dest: bit_imp_le_length)

lemma join_bytes:
  "join 8 (MUR_GETBLOCK a b c d) (MUR_GETBLOCK a' b' c' d') = MUR_GETBLOCK b c d a'"
  "join 16 (MUR_GETBLOCK a b c d) (MUR_GETBLOCK a' b' c' d') = MUR_GETBLOCK c d a' b'"
  "join 24 (MUR_GETBLOCK a b c d) (MUR_GETBLOCK a' b' c' d') = MUR_GETBLOCK d a' b' c'"
  by (rule bit_word_eqI; simp add: join_bit getblock_bit; auto)+

lemma masks: "0x00ffffff = (mask 24 :: u32)" "0x0000ffff = (mask 16 :: u32)" "0x000000ff = (mask 8 :: u32)"
  "0xff000000 = (NOT (mask 24) :: u32)" "0xffff0000 = (NOT (mask 16) :: u32)" "0xffffff00 = (NOT (mask 8) :: u32)"
  by (simp_all add: mask_eq_exp_minus_1)

lemma joins:
  "MUR_THREE_ONE big m p = (if big then join 24 (load32 big m (WP p + 4)) (load32 big m (WP p))
     else join 8 (load32 big m (WP p)) (load32 big m (WP p + 4)))"
  "MUR_TWO_TWO big m p = (if big then join 16 (load32 big m (WP p + 4)) (load32 big m (WP p))
     else join 16 (load32 big m (WP p)) (load32 big m (WP p + 4)))"
  "MUR_ONE_THREE big m p = (if big then join 8 (load32 big m (WP p + 4)) (load32 big m (WP p))
     else join 24 (load32 big m (WP p)) (load32 big m (WP p + 4)))"
  unfolding MUR_THREE_ONE_def MUR_TWO_TWO_def MUR_ONE_THREE_def Let_def masks join_def
  by (simp_all add: or.commute)

lemma getblock_any:
  "MUR_GETBLOCK_any big m p i = load32 big m (if p mod 4 = 0 then p + 4 * i else p)"
proof -
  obtain q r where p: "p = 4 * q + r" "r = p mod 4" by (metis mult_div_mod_eq)
  have r: "r = 0 \<or> r = 1 \<or> r = 2 \<or> r = 3" using p(2) by presburger
  have w: "WP p = 4 * q" using p by (simp add: WP_eq)
  have "MUR_GETBLOCK_any big m p i = load32 big m p" if "r \<noteq> 0"
    using r that unfolding MUR_GETBLOCK_any_def low_bits p(2) [symmetric] joins w
    by (cases big) (auto simp: load32_def join_bytes p(1) add.assoc)
  then show ?thesis using p(2) by (auto simp: MUR_GETBLOCK_any_def low_bits)
qed

section \<open>Properties\<close>

lemma whole_blocks:
  "fold (\<lambda>k. mur_h1 (MUR_GETBLOCK (f (4 * k)) (f (4 * k + 1)) (f (4 * k + 2)) (f (4 * k + 3)))) [0..<n] h1 = mur_loop (map f [0..<4 * n]) h1"
proof (induction n arbitrary: f h1)
  case 0
  then show ?case by simp
next
  case (Suc n)
  have s: "[0..<4 * Suc n] = [0, 1, 2, 3] @ map (\<lambda>k. k + 4) [0..<4 * n]"
    using map_add_upt [of 4 "4 * n"] upt_add_eq_append [of 0 4 "4 * n"] by (simp add: upt_rec numeral_eq_Suc)
  have z: "[0..<Suc n] = 0 # map Suc [0..<n]" by (simp add: map_Suc_upt upt_conv_Cons)
  show ?case unfolding s z using Suc.IH [of "\<lambda>k. f (k + 4)"] by (simp add: fold_map comp_def algebra_simps numeral_2_eq_2)
qed

lemma blocks_aligned:
  assumes "a mod 4 = 0"
  shows "mur_blocks False m (a + 4 * int n) n h1 = mur_loop (map (\<lambda>k. m (a + int k)) [0..<4 * n]) h1"
proof -
  have "fold (\<lambda>i. mur_h1 (MUR_GETBLOCK_any False m (a + 4 * int n) i)) (map (\<lambda>k. int k - int n) [0..<n]) h1
      = fold (\<lambda>k. mur_h1 (load32 False m (a + 4 * int k))) [0..<n] h1"
    using assms by (simp add: fold_map comp_def getblock_any algebra_simps)
  also have "\<dots> = mur_loop (map (\<lambda>k. m (a + int k)) [0..<4 * n]) h1"
    using whole_blocks [of "\<lambda>k. m (a + int k)" n h1] by (simp add: load32_def algebra_simps)
  finally show ?thesis unfolding mur_blocks_def .
qed

text \<open>
  A key that starts at a multiple of four is read block by block, as on Intel processors.  From any other address the
  index of the block is ignored: the loop mixes in the same word \<open>n\<close> times, and it is the word behind the
  blocks.  So the hash does not depend on the key but for its last bytes, and the word goes beyond the key.
\<close>

theorem mur_unaligned:
  "(if a mod 4 = 0
    then mur_blocks False m (a + 4 * int n) n h1 = mur_loop (map (\<lambda>k. m (a + int k)) [0..<4 * n]) h1
    else mur_blocks big m (a + 4 * int n) n h1 = (mur_h1 (load32 big m (a + 4 * int n)) ^^ n) h1)"
proof -
  have "fold (\<lambda>i. f) xs h = (f ^^ length xs) h" for f :: "u32 \<Rightarrow> u32" and xs :: "int list" and h
    by (induction xs arbitrary: h) (simp_all add: funpow_swap1)
  then have "mur_blocks big m (a + 4 * int n) n h1 = (mur_h1 (load32 big m (a + 4 * int n)) ^^ n) h1" if "a mod 4 \<noteq> 0"
    using that by (simp add: mur_blocks_def getblock_any)
  then show ?thesis using blocks_aligned by simp
qed

end
