(* ===== verification/Bloom.thy ===== *)
theory Bloom
  imports Uthash
begin

text \<open>
  The Bloom filter that \<^verbatim>\<open>uthash.h\<close> can be compiled with (\<^verbatim>\<open>HASH_BLOOM\<close> is the logarithm of its size in bits).
  It is set when an item is added, never cleared when one is deleted, and asked before a bucket is
  searched.  The theory shows that lookups do not change.
\<close>

section \<open>The filter\<close>

record bloom =
  bloom_nbits :: nat
  bloom_bv :: "u8 list"

definition HASH_BLOOM_BYTELEN :: "nat \<Rightarrow> nat" where
  "HASH_BLOOM_BYTELEN n = 2 ^ n div 8 + (if 2 ^ n mod 8 \<noteq> (0 :: nat) then 1 else 0)"

definition HASH_BLOOM_MAKE :: "nat \<Rightarrow> bloom" where
  "HASH_BLOOM_MAKE n = \<lparr>bloom_nbits = n, bloom_bv = replicate (HASH_BLOOM_BYTELEN n) 0\<rparr>"

definition HASH_BLOOM_BITSET :: "u8 list \<Rightarrow> nat \<Rightarrow> u8 list res" where
  "HASH_BLOOM_BITSET bv idx =
     (if idx div 8 < length bv then Inr (bv[idx div 8 := bv ! (idx div 8) OR push_bit (idx mod 8) 1])
      else Inl Out_of_bounds)"

definition HASH_BLOOM_BITTEST :: "u8 list \<Rightarrow> nat \<Rightarrow> bool res" where
  "HASH_BLOOM_BITTEST bv idx =
     (if idx div 8 < length bv then Inr (bv ! (idx div 8) AND push_bit (idx mod 8) 1 \<noteq> 0)
      else Inl Out_of_bounds)"

text \<open>\<^verbatim>\<open>hashv & (uint32_t)((1ULL << (tbl)->bloom_nbits) - 1)\<close>\<close>

definition bloom_idx :: "bloom \<Rightarrow> u32 \<Rightarrow> nat" where
  "bloom_idx b hashv = unat (hashv AND of_nat (2 ^ bloom_nbits b - 1))"

definition HASH_BLOOM_ADD :: "bloom \<Rightarrow> u32 \<Rightarrow> bloom res" where
  "HASH_BLOOM_ADD b hashv = rbind (HASH_BLOOM_BITSET (bloom_bv b) (bloom_idx b hashv)) (\<lambda>bv. Inr (b\<lparr>bloom_bv := bv\<rparr>))"

definition HASH_BLOOM_TEST :: "bloom \<Rightarrow> u32 \<Rightarrow> bool res" where
  "HASH_BLOOM_TEST b hashv = HASH_BLOOM_BITTEST (bloom_bv b) (bloom_idx b hashv)"

text \<open>
  A table with its filter.  Insertion makes the filter together with the table and then adds the hash value; the
  filter goes with the table when the last item is deleted.
\<close>

type_synonym bloom_head = "(UT_hash_table \<times> bloom) option"

definition ADD_bloom :: "nat \<Rightarrow> bloom_head \<Rightarrow> u8 list \<Rightarrow> addr \<Rightarrow> bloom_head res" where
  "ADD_bloom n head key add =
     rbind (HASH_BLOOM_ADD (case head of None \<Rightarrow> HASH_BLOOM_MAKE n | Some (t, b) \<Rightarrow> b) (HASH_JEN key)) (\<lambda>b.
       Inr (map_option (\<lambda>t. (t, b)) (HASH_ADD (map_option fst head) key add)))"

definition DELETE_bloom :: "bloom_head \<Rightarrow> addr \<Rightarrow> bloom_head res" where
  "DELETE_bloom head delptr =
     rbind (HASH_DELETE (map_option fst head) delptr) (\<lambda>h.
       Inr (map_option (\<lambda>t. (t, snd (the head))) h))"

definition FIND_bloom :: "bloom_head \<Rightarrow> u8 list \<Rightarrow> addr option res" where
  "FIND_bloom head key = (case head of None \<Rightarrow> Inr None
     | Some (t, b) \<Rightarrow> rbind (HASH_BLOOM_TEST b (HASH_JEN key)) (\<lambda>ok. Inr (if ok then HASH_FIND (Some t) key else None)))"

section \<open>Bits\<close>

definition bloom_ok :: "bloom \<Rightarrow> bool" where
  "bloom_ok b \<longleftrightarrow> bloom_nbits b \<le> 32 \<and> length (bloom_bv b) = HASH_BLOOM_BYTELEN (bloom_nbits b)"

lemma bloom_idx_bound:
  assumes "bloom_ok b"
  shows "bloom_idx b hashv div 8 < length (bloom_bv b)"
proof -
  let ?n = "bloom_nbits b"
  have "(of_nat (2 ^ ?n - 1) :: u32) = mask ?n" by (simp add: mask_eq_exp_minus_1 of_nat_diff)
  then have "bloom_idx b hashv = unat (take_bit ?n hashv)" by (simp add: bloom_idx_def take_bit_eq_mask)
  also have "\<dots> < 2 ^ ?n" by (simp add: unsigned_take_bit_eq)
  finally have "bloom_idx b hashv < 2 ^ ?n" .
  moreover have "2 ^ ?n \<le> 8 * HASH_BLOOM_BYTELEN ?n"
  proof -
    have "x \<le> 8 * (x div 8 + (if x mod 8 \<noteq> 0 then 1 else 0))" for x :: nat by simp presburger
    then show ?thesis unfolding HASH_BLOOM_BYTELEN_def .
  qed
  ultimately show ?thesis using assms by (simp add: bloom_ok_def less_mult_imp_div_less mult.commute)
qed

lemma bloom_test:
  "bloom_ok b \<Longrightarrow> HASH_BLOOM_TEST b h = Inr (bit (bloom_bv b ! (bloom_idx b h div 8)) (bloom_idx b h mod 8))"
  using bloom_idx_bound [of b h] by (simp add: HASH_BLOOM_TEST_def HASH_BLOOM_BITTEST_def and_exp_eq_0_iff_not_bit)

lemma bloom_add:
  assumes "bloom_ok b"
  shows "\<exists>b'. HASH_BLOOM_ADD b g = Inr b' \<and> bloom_ok b'
    \<and> (\<forall>h. HASH_BLOOM_TEST b' h = Inr (bloom_idx b h = bloom_idx b g \<or> HASH_BLOOM_TEST b h = Inr True))"
proof -
  let ?i = "bloom_idx b g"
  let ?b = "b\<lparr>bloom_bv := (bloom_bv b)[?i div 8 := bloom_bv b ! (?i div 8) OR push_bit (?i mod 8) 1]\<rparr>"
  have add: "HASH_BLOOM_ADD b g = Inr ?b" using bloom_idx_bound [OF assms] by (simp add: HASH_BLOOM_ADD_def HASH_BLOOM_BITSET_def)
  have ok: "bloom_ok ?b" using assms by (simp add: bloom_ok_def)
  have "HASH_BLOOM_TEST ?b h = Inr (bloom_idx b h = ?i \<or> HASH_BLOOM_TEST b h = Inr True)" for h
  proof -
    let ?j = "bloom_idx b h"
    have "?j = ?i \<longleftrightarrow> ?j div 8 = ?i div 8 \<and> ?j mod 8 = ?i mod 8" by (metis div_mult_mod_eq)
    moreover have "bloom_idx ?b h = ?j" by (simp add: bloom_idx_def)
    ultimately show ?thesis
      using bloom_test [OF ok, of h] bloom_test [OF assms, of h] bloom_idx_bound [OF assms, of g]
      by (auto simp: nth_list_update bit_simps)
  qed
  then show ?thesis using add ok by blast
qed

section \<open>Lookups with the filter\<close>

text \<open>The tables that insertions and deletions make.\<close>

inductive bloom_table :: "nat \<Rightarrow> bloom_head \<Rightarrow> bool" for n where
  empty: "bloom_table n None"
| add: "bloom_table n head \<Longrightarrow> hash_room (map_option fst head) \<Longrightarrow> a \<notin> snd ` set (hash_entries (map_option fst head))
    \<Longrightarrow> ADD_bloom n head k a = Inr head' \<Longrightarrow> bloom_table n head'"
| del: "bloom_table n head \<Longrightarrow> (k, a) \<in> set (hash_entries (map_option fst head))
    \<Longrightarrow> DELETE_bloom head a = Inr head' \<Longrightarrow> bloom_table n head'"

definition bloom_inv :: "bloom_head \<Rightarrow> bool" where
  "bloom_inv head \<longleftrightarrow> hash_ok (map_option fst head) \<and> (case head of None \<Rightarrow> True | Some (t, b) \<Rightarrow>
     bloom_ok b \<and> (\<forall>k \<in> fst ` set (hash_entries (Some t)). HASH_BLOOM_TEST b (HASH_JEN k) = Inr True))"

lemma add_bloom_inv:
  assumes "bloom_inv head" and "n \<le> 32" and "hash_room (map_option fst head)"
    and "a \<notin> snd ` set (hash_entries (map_option fst head))"
  shows "\<exists>head'. ADD_bloom n head k a = Inr head' \<and> bloom_inv head'"
proof -
  let ?b = "case head of None \<Rightarrow> HASH_BLOOM_MAKE n | Some (t, b) \<Rightarrow> b" and ?h = "map_option fst head"
  have "bloom_ok ?b" using assms(1,2) by (auto simp: bloom_inv_def bloom_ok_def HASH_BLOOM_MAKE_def split: option.splits)
  from bloom_add [OF this] obtain b' where b': "HASH_BLOOM_ADD ?b (HASH_JEN k) = Inr b'" "bloom_ok b'"
      "\<And>h. HASH_BLOOM_TEST b' h = Inr (bloom_idx ?b h = bloom_idx ?b (HASH_JEN k) \<or> HASH_BLOOM_TEST ?b h = Inr True)"
    by blast
  have ok: "hash_ok (HASH_ADD ?h k a)" "hash_entries (HASH_ADD ?h k a) = hash_entries ?h @ [(k, a)]"
    using HASH_ADD_ok assms by (auto simp: bloom_inv_def)
  obtain t' where t': "HASH_ADD ?h k a = Some t'" by (simp add: HASH_ADD_def Let_def)
  have keys: "fst ` set (hash_entries (Some t')) = insert k (fst ` set (hash_entries ?h))" using ok(2) t' by simp
  have old: "HASH_BLOOM_TEST ?b (HASH_JEN k') = Inr True" if "k' \<in> fst ` set (hash_entries ?h)" for k'
    using that assms(1) by (cases head) (auto simp: bloom_inv_def hash_entries_def)
  have "HASH_BLOOM_TEST b' (HASH_JEN k') = Inr True" if "k' \<in> fst ` set (hash_entries (Some t'))" for k'
    using that old [of k'] b'(3) [of "HASH_JEN k'"] unfolding keys by auto
  then have "bloom_inv (Some (t', b'))" using ok(1) t' b'(2) by (simp add: bloom_inv_def)
  then show ?thesis using b'(1) t' by (simp add: ADD_bloom_def)
qed

lemma delete_bloom_inv:
  assumes "bloom_inv head" and "(k, a) \<in> set (hash_entries (map_option fst head))"
  shows "\<exists>head'. DELETE_bloom head a = Inr head' \<and> bloom_inv head'"
proof -
  obtain t b where head: "head = Some (t, b)" using assms(2) by (cases head) (auto simp: hash_entries_def)
  obtain h' where h': "HASH_DELETE (Some t) a = Inr h'" "hash_ok h'" "hash_entries h' = filter (\<lambda>e. snd e \<noteq> a) (hash_entries (Some t))"
    using HASH_DELETE_ok [OF _ assms(2)] assms(1) head by (auto simp: bloom_inv_def)
  then have "bloom_inv (map_option (\<lambda>t. (t, b)) h')"
    using assms(1) head by (cases h') (auto simp: bloom_inv_def)
  then show ?thesis using h'(1) head by (simp add: DELETE_bloom_def)
qed

lemma bloom_table_inv:
  assumes "bloom_table n head" and "n \<le> 32"
  shows "bloom_inv head"
  using assms(1)
proof induction
  case empty
  then show ?case by (simp add: bloom_inv_def hash_ok_def)
next
  case (add head a k head')
  then show ?case using add_bloom_inv [OF add.IH assms(2), of a k] by auto
next
  case (del head k a head')
  then show ?case using delete_bloom_inv [OF del.IH, of k a] by auto
qed

text \<open>
  C17: compiling with a Bloom filter changes no lookup.  For every filter of at most 2^32 bits and every table made by
  insertions and deletions, the filter is accessed inside its bytes only and \<^verbatim>\<open>HASH_FIND\<close> with the filter
  returns what it returns without; the next insertion and the next deletion succeed.
\<close>

theorem bloom_transparent:
  assumes "bloom_table n head" and "n \<le> 32"
  shows "FIND_bloom head key = Inr (HASH_FIND (map_option fst head) key)
    \<and> (hash_room (map_option fst head) \<and> a \<notin> snd ` set (hash_entries (map_option fst head)) \<longrightarrow>
         (\<exists>head'. ADD_bloom n head k a = Inr head' \<and> bloom_table n head'))
    \<and> ((k', d) \<in> set (hash_entries (map_option fst head)) \<longrightarrow>
         (\<exists>head'. DELETE_bloom head d = Inr head' \<and> bloom_table n head'))"
proof (intro conjI impI)
  have inv: "bloom_inv head" using bloom_table_inv [OF assms] .
  show "FIND_bloom head key = Inr (HASH_FIND (map_option fst head) key)"
  proof (cases head)
    case None
    then show ?thesis by (simp add: FIND_bloom_def HASH_FIND_def)
  next
    case (Some tb)
    obtain t b where tb: "tb = (t, b)" by (cases tb)
    have ok: "bloom_ok b" "hash_ok (Some t)" and inn: "\<And>k. k \<in> fst ` set (hash_entries (Some t)) \<Longrightarrow> HASH_BLOOM_TEST b (HASH_JEN k) = Inr True"
      using inv Some tb by (auto simp: bloom_inv_def)
    obtain r where r: "HASH_BLOOM_TEST b (HASH_JEN key) = Inr r" using bloom_test [OF ok(1)] by blast
    have "HASH_FIND (Some t) key = None" if "\<not> r"
    proof (rule ccontr)
      assume "HASH_FIND (Some t) key \<noteq> None"
      then have "key \<in> fst ` set (hash_entries (Some t))" using HASH_FIND_Some [OF ok(2)] by force
      from inn [OF this] r that show False by simp
    qed
    then show ?thesis using Some tb r by (simp add: FIND_bloom_def)
  qed
  show "\<exists>head'. ADD_bloom n head k a = Inr head' \<and> bloom_table n head'"
    if "hash_room (map_option fst head) \<and> a \<notin> snd ` set (hash_entries (map_option fst head))"
    using add_bloom_inv [OF inv assms(2), of a k] bloom_table.add [OF assms(1), of a k] that by blast
  show "\<exists>head'. DELETE_bloom head d = Inr head' \<and> bloom_table n head'"
    if "(k', d) \<in> set (hash_entries (map_option fst head))"
    using delete_bloom_inv [OF inv that] bloom_table.del [OF assms(1) that] by blast
qed

theorem bloom_transparent_witness:
  "\<exists>head. ADD_bloom 4 None [7, 0, 0, 0] 1 = Inr head \<and> FIND_bloom head [7, 0, 0, 0] = Inr (HASH_FIND (map_option fst head) [7, 0, 0, 0])"
proof -
  have "bloom_table 4 None" by (rule bloom_table.empty)
  from bloom_transparent [OF this, of "[]" 1 "[7, 0, 0, 0]" "[]" 0] obtain head
    where "ADD_bloom 4 None [7, 0, 0, 0] 1 = Inr head" "bloom_table 4 head" by (auto simp: hash_room_def hash_entries_def)
  with bloom_transparent [OF this(2), of "[7, 0, 0, 0]" 1 "[]" "[]" 0] show ?thesis by auto
qed

end
