(* ===== verification/Locks.thy ===== *)
theory Locks
  imports Prelude
begin

text \<open>
  The mutexes of \<^verbatim>\<open>server.c\<close>.  A transition system with one step per mutex operation and per access to
  the shared tables, for the thread that polls the database (thread 0) and one session per client; the client of
  thread \<open>t\<close> is called \<open>t\<close>.  Of the data it keeps what the order of locking depends on: which clients are in
  \<^verbatim>\<open>clients_map\<close>, which are listed under which compiler, and which have been released.  How
  many solutions a queue holds, and what clients send, is open: every choice is a step.  A lock is held by the
  threads whose program counter lies between locking and unlocking it.
\<close>

section \<open>The threads\<close>

datatype lock = Clients_map_mutex | Compilers_map_mutex | Db_mutex | List_mutex nat | Client_mutex nat

text \<open>
  \<open>L_\<close>: the session (\<^verbatim>\<open>client_loop\<close>, \<^verbatim>\<open>process_solutions\<close>, \<^verbatim>\<open>post_result\<close>, \<^verbatim>\<open>remove_client\<close>) and the polling loop;
  \<open>P_\<close>: inside \<^verbatim>\<open>push_solution\<close>, called by the polling loop or by \<^verbatim>\<open>remove_client\<close>.  The names of waiting points are
  those of the mutex that is locked next.
\<close>

datatype lpc =
    L_start | L_reg_map "nat list" | L_in_map "nat list" | L_reg_comp "nat list" | L_in_comp "nat list"
  | L_serve | L_take | L_taking | L_post | L_posting
  | L_rem_comp | L_rem_scan "nat list" | L_rem_list nat "nat list" | L_rem_map | L_rem_in_map
  | L_rem_own | L_rem_push | L_rem_free | L_done | L_crash
  | L_poll | L_poll_db | L_polling | L_poll_push
  | P_map nat | P_list nat | P_scan nat nat "nat option" | P_look nat nat nat | P_looking nat nat nat
  | P_unlist nat "nat option" | P_unmap "nat option" | P_chosen nat | P_pushing nat

text \<open>What the environment decides: the compilers a client announces, what a session does next, which solution is handed on.\<close>

datatype choice = Go | Announce "nat list" | Take | Post | Leave | Quit | Push nat | Stop

record lstate =
  pcs :: "nat \<Rightarrow> lpc"
  in_map :: "nat set"
  lists :: "nat \<Rightarrow> nat list"
  comps :: "nat list"
  freed :: "nat set"
  gone :: "nat list"

text \<open>\<open>gone\<close> is a history variable: the clients in the order in which they were taken out of \<^verbatim>\<open>clients_map\<close>.\<close>

definition linit :: lstate where
  "linit = \<lparr>pcs = (\<lambda>t. if t = 0 then L_poll else L_start), in_map = {}, lists = (\<lambda>_. []), comps = [], freed = {}, gone = []\<rparr>"

text \<open>\<^verbatim>\<open>remove_client\<close> holds its own client's mutex around every call of \<^verbatim>\<open>push_solution\<close>; the polling loop holds nothing.\<close>

definition base :: "nat \<Rightarrow> lock list" where
  "base t = (if t = 0 then [] else [Client_mutex t])"

fun holds :: "nat \<Rightarrow> lpc \<Rightarrow> lock list" where
  "holds t (L_in_map _) = [Clients_map_mutex]"
| "holds t (L_in_comp _) = [Compilers_map_mutex]"
| "holds t L_taking = [Client_mutex t]"
| "holds t L_posting = [Db_mutex]"
| "holds t (L_rem_scan _) = [Compilers_map_mutex]"
| "holds t (L_rem_list k _) = [Compilers_map_mutex, List_mutex k]"
| "holds t L_rem_in_map = [Clients_map_mutex]"
| "holds t L_rem_push = [Client_mutex t]"
| "holds t L_polling = [Db_mutex]"
| "holds t (P_map _) = base t"
| "holds t (P_list _) = Clients_map_mutex # base t"
| "holds t (P_scan k _ _) = List_mutex k # Clients_map_mutex # base t"
| "holds t (P_look k _ _) = List_mutex k # Clients_map_mutex # base t"
| "holds t (P_looking k _ x) = Client_mutex x # List_mutex k # Clients_map_mutex # base t"
| "holds t (P_unlist k _) = List_mutex k # Clients_map_mutex # base t"
| "holds t (P_unmap _) = Clients_map_mutex # base t"
| "holds t (P_chosen _) = base t"
| "holds t (P_pushing x) = Client_mutex x # base t"
| "holds t _ = []"

text \<open>The mutex a thread is about to lock, and where it is when it has it.\<close>

fun wants :: "nat \<Rightarrow> lpc \<Rightarrow> lock option" where
  "wants t (L_reg_map _) = Some Clients_map_mutex"
| "wants t (L_reg_comp _) = Some Compilers_map_mutex"
| "wants t L_take = Some (Client_mutex t)"
| "wants t L_post = Some Db_mutex"
| "wants t L_rem_comp = Some Compilers_map_mutex"
| "wants t (L_rem_scan (k # ks)) = Some (List_mutex k)"
| "wants t L_rem_map = Some Clients_map_mutex"
| "wants t L_rem_own = Some (Client_mutex t)"
| "wants t L_poll_db = Some Db_mutex"
| "wants t (P_map _) = Some Clients_map_mutex"
| "wants t (P_list k) = Some (List_mutex k)"
| "wants t (P_look _ _ x) = Some (Client_mutex x)"
| "wants t (P_chosen x) = Some (Client_mutex x)"
| "wants t _ = None"

fun locked :: "lstate \<Rightarrow> lpc \<Rightarrow> lpc" where
  "locked s (L_reg_map cs) = L_in_map cs"
| "locked s (L_reg_comp cs) = L_in_comp cs"
| "locked s L_take = L_taking"
| "locked s L_post = L_posting"
| "locked s L_rem_comp = L_rem_scan (comps s)"
| "locked s (L_rem_scan (k # ks)) = L_rem_list k ks"
| "locked s L_rem_map = L_rem_in_map"
| "locked s L_rem_own = L_rem_push"
| "locked s L_poll_db = L_polling"
| "locked s (P_map k) = P_list k"
| "locked s (P_list k) = P_scan k 0 None"
| "locked s (P_look k i x) = P_looking k i x"
| "locked s (P_chosen x) = P_pushing x"
| "locked s pc = pc"

definition move :: "lstate \<Rightarrow> nat \<Rightarrow> lpc \<Rightarrow> lstate" where
  "move s t pc = s\<lparr>pcs := (pcs s)(t := pc)\<rparr>"

text \<open>Where \<^verbatim>\<open>push_solution\<close> returns to.\<close>

definition ret :: "nat \<Rightarrow> lpc" where
  "ret t = (if t = 0 then L_poll_push else L_rem_push)"

text \<open>A call of \<^verbatim>\<open>push_solution\<close> for a solution of compiler \<open>k\<close>: the lookup of the compiler takes no lock.\<close>

definition call_push :: "lstate \<Rightarrow> nat \<Rightarrow> nat \<Rightarrow> lstate" where
  "call_push s t k = (if k \<in> set (comps s) then move s t (P_map k) else move s t (ret t))"

section \<open>Steps\<close>

text \<open>The steps that lock nothing, unlocking included.\<close>

definition lact :: "lstate \<Rightarrow> nat \<Rightarrow> choice \<Rightarrow> lpc \<Rightarrow> lstate option" where
  "lact s t c pc = (case pc of
     L_start \<Rightarrow> (case c of Announce cs \<Rightarrow> Some (move s t (L_reg_map cs)) | _ \<Rightarrow> None)
   | L_in_map cs \<Rightarrow> Some (move (s\<lparr>in_map := insert t (in_map s)\<rparr>) t (L_reg_comp cs))
   | L_in_comp ks \<Rightarrow> (case ks of
         [] \<Rightarrow> Some (move s t L_serve)
       | k # cs \<Rightarrow> Some (move (s\<lparr>comps := (if k \<in> set (comps s) then comps s else comps s @ [k]),
                               lists := (lists s)(k := lists s k @ [t])\<rparr>) t (L_in_comp cs)))
   | L_serve \<Rightarrow> (case c of
         Take \<Rightarrow> Some (move s t L_take)
       | Post \<Rightarrow> Some (move s t L_post)
       | Leave \<Rightarrow> Some (move s t (if t \<in> in_map s then L_rem_comp else L_done))
       | Quit \<Rightarrow> Some (move s t L_done)
       | _ \<Rightarrow> None)
   | L_taking \<Rightarrow> Some (move s t L_serve)
   | L_posting \<Rightarrow> Some (move s t L_take)
   | L_rem_scan ks \<Rightarrow> Some (move s t L_rem_map)
   | L_rem_list k ks \<Rightarrow> Some (move (s\<lparr>lists := (lists s)(k := filter (\<lambda>x. x \<noteq> t) (lists s k))\<rparr>) t (L_rem_scan ks))
   | L_rem_in_map \<Rightarrow> Some (move (s\<lparr>in_map := in_map s - {t}, gone := gone s @ [t]\<rparr>) t L_rem_own)
   | L_rem_push \<Rightarrow> (case c of
         Push k \<Rightarrow> Some (call_push s t k)
       | Stop \<Rightarrow> Some (move s t L_rem_free)
       | _ \<Rightarrow> None)
   | L_rem_free \<Rightarrow> Some (move (s\<lparr>freed := insert t (freed s)\<rparr>) t L_done)
   | L_poll \<Rightarrow> (case c of
         Go \<Rightarrow> Some (move s t L_poll_db)
       | Quit \<Rightarrow> Some (move s t L_done)
       | _ \<Rightarrow> None)
   | L_polling \<Rightarrow> Some (move s t L_poll_push)
   | L_poll_push \<Rightarrow> (case c of
         Push k \<Rightarrow> Some (call_push s t k)
       | Stop \<Rightarrow> Some (move s t L_poll)
       | _ \<Rightarrow> None)
   | P_scan k i best \<Rightarrow>
       (if i < length (lists s k)
        then let x = lists s k ! i
             in Some (move s t (if x \<in> in_map s then P_look k i x else P_scan k (Suc i) best))
        else Some (move s t (P_unlist k best)))
   | P_looking k i x \<Rightarrow> (case c of
         Stop \<Rightarrow> Some (move s t (P_unlist k (Some x)))
       | Go \<Rightarrow> Some (move s t (P_scan k (Suc i) (Some x)))
       | _ \<Rightarrow> None)
   | P_unlist k best \<Rightarrow> Some (move s t (P_unmap best))
   | P_unmap best \<Rightarrow> Some (move s t (case best of None \<Rightarrow> ret t | Some x \<Rightarrow> P_chosen x))
   | P_pushing x \<Rightarrow> Some (move s t (if x \<in> freed s then L_crash else ret t))
   | _ \<Rightarrow> None)"

definition lock_free :: "nat \<Rightarrow> lstate \<Rightarrow> lock \<Rightarrow> bool" where
  "lock_free n s l \<longleftrightarrow> list_all (\<lambda>t. l \<notin> set (holds t (pcs s t))) [0..<n]"

text \<open>One step of thread \<open>t\<close> of \<open>n\<close>.  Locking a mutex that was released with its client is undefined.\<close>

definition lstep :: "nat \<Rightarrow> lstate \<Rightarrow> nat \<Rightarrow> choice \<Rightarrow> lstate option" where
  "lstep n s t c =
     (if \<not> t < n then None
      else case wants t (pcs s t) of
        None \<Rightarrow> lact s t c (pcs s t)
      | Some l \<Rightarrow>
          if (case l of Client_mutex x \<Rightarrow> x \<in> freed s | _ \<Rightarrow> False) then Some (move s t L_crash)
          else if lock_free n s l then Some (move s t (locked s (pcs s t)))
          else None)"

fun lrun :: "nat \<Rightarrow> lstate \<Rightarrow> (nat \<times> choice) list \<Rightarrow> lstate option" where
  "lrun n s [] = Some s"
| "lrun n s ((t, c) # tcs) = (case lstep n s t c of None \<Rightarrow> None | Some s' \<Rightarrow> lrun n s' tcs)"

inductive lreach :: "nat \<Rightarrow> lstate \<Rightarrow> bool" for n where
  init: "lreach n linit"
| step: "lreach n s \<Longrightarrow> lstep n s t c = Some s' \<Longrightarrow> lreach n s'"

section \<open>Mutual exclusion\<close>

definition mutex :: "lstate \<Rightarrow> bool" where
  "mutex s \<longleftrightarrow> (\<forall>t u l. l \<in> set (holds t (pcs s t)) \<and> l \<in> set (holds u (pcs s u)) \<longrightarrow> t = u)"

definition parked :: "nat \<Rightarrow> lstate \<Rightarrow> bool" where
  "parked n s \<longleftrightarrow> (\<forall>t \<ge> n. t \<noteq> 0 \<longrightarrow> pcs s t = L_start)"

lemma pcs_move [simp]: "pcs (move s t pc) = (pcs s)(t := pc)" "in_map (move s t pc) = in_map s" "lists (move s t pc) = lists s"
  "comps (move s t pc) = comps s" "freed (move s t pc) = freed s" "gone (move s t pc) = gone s"
  by (simp_all add: move_def)

lemma holds_ret: "holds t (ret t) = base t"
  by (simp add: ret_def base_def)

lemma holds_base: "t \<noteq> 0 \<Longrightarrow> base t = [Client_mutex t]" "base 0 = []"
  by (simp_all add: base_def)

text \<open>A step without locking moves one thread, which holds nothing new.\<close>

lemma lact_holds:
  assumes "lact s t c (pcs s t) = Some s'" and "pcs s t = L_rem_push \<Longrightarrow> t \<noteq> 0" and "pcs s t = L_poll_push \<Longrightarrow> t = 0"
  shows "pcs s' = (pcs s)(t := pcs s' t) \<and> set (holds t (pcs s' t)) \<subseteq> set (holds t (pcs s t))"
proof (cases "pcs s t")
  case (L_in_comp cs)
  then show ?thesis using assms(1) by (cases cs) (auto simp: lact_def)
next
  case (P_unmap best)
  then show ?thesis using assms(1) by (cases best) (auto simp: lact_def holds_ret)
next
  case (P_pushing x)
  then show ?thesis using assms(1) by (auto simp: lact_def holds_ret split: if_splits)
next
  case L_rem_push
  then show ?thesis using assms(1,2) by (auto simp: lact_def holds_base call_push_def holds_ret split: choice.splits if_splits)
next
  case L_poll_push
  then show ?thesis using assms(1,3) by (auto simp: lact_def holds_base call_push_def holds_ret split: choice.splits if_splits)
next
  case (P_scan k i best)
  then show ?thesis using assms(1) by (auto simp: lact_def Let_def split: if_splits)
qed (use assms(1) in \<open>auto simp: lact_def split: choice.splits\<close>)

lemma locked_holds: "wants t pc = Some l \<Longrightarrow> set (holds t (locked s pc)) = insert l (set (holds t pc))"
proof (cases pc)
  case (L_rem_scan ks)
  then show "wants t pc = Some l \<Longrightarrow> ?thesis" by (cases ks) auto
qed auto

lemma lock_free_holds: "lock_free n s l \<Longrightarrow> parked n s \<Longrightarrow> 0 < n \<Longrightarrow> l \<notin> set (holds t (pcs s t))"
  by (cases "t < n") (auto simp: lock_free_def list_all_iff parked_def)

section \<open>Where a client is\<close>

datatype phase = Before | Alive | After | Ended

fun phase_of :: "lpc \<Rightarrow> phase" where
  "phase_of L_start = Before"
| "phase_of (L_reg_map _) = Before"
| "phase_of (L_in_map _) = Before"
| "phase_of (L_reg_comp _) = Alive"
| "phase_of (L_in_comp _) = Alive"
| "phase_of L_serve = Alive"
| "phase_of L_take = Alive"
| "phase_of L_taking = Alive"
| "phase_of L_post = Alive"
| "phase_of L_posting = Alive"
| "phase_of L_rem_comp = Alive"
| "phase_of (L_rem_scan _) = Alive"
| "phase_of (L_rem_list _ _) = Alive"
| "phase_of L_rem_map = Alive"
| "phase_of L_rem_in_map = Alive"
| "phase_of L_done = Ended"
| "phase_of L_crash = Ended"
| "phase_of L_poll = Ended"
| "phase_of L_poll_db = Ended"
| "phase_of L_polling = Ended"
| "phase_of L_poll_push = Ended"
| "phase_of _ = After"

text \<open>The client that a thread inside the locked part of \<^verbatim>\<open>push_solution\<close> has found in the map.\<close>

fun seen :: "lpc \<Rightarrow> nat option" where
  "seen (P_scan _ _ best) = best"
| "seen (P_look _ _ x) = Some x"
| "seen (P_looking _ _ x) = Some x"
| "seen (P_unlist _ best) = best"
| "seen (P_unmap best) = best"
| "seen _ = None"

fun in_push :: "lpc \<Rightarrow> bool" where
  "in_push (P_map _) = True"
| "in_push (P_list _) = True"
| "in_push (P_scan _ _ _) = True"
| "in_push (P_look _ _ _) = True"
| "in_push (P_looking _ _ _) = True"
| "in_push (P_unlist _ _) = True"
| "in_push (P_unmap _) = True"
| "in_push (P_chosen _) = True"
| "in_push (P_pushing _) = True"
| "in_push _ = False"

fun of_poll :: "lpc \<Rightarrow> bool" where
  "of_poll L_poll = True"
| "of_poll L_poll_db = True"
| "of_poll L_polling = True"
| "of_poll L_poll_push = True"
| "of_poll _ = False"

definition role_ok :: "nat \<Rightarrow> lpc \<Rightarrow> bool" where
  "role_ok t pc \<longleftrightarrow> (if t = 0 then of_poll pc \<or> in_push pc \<or> pc = L_done \<or> pc = L_crash else \<not> of_poll pc)"

definition place_ok :: "lstate \<Rightarrow> nat \<Rightarrow> lpc \<Rightarrow> bool" where
  "place_ok s t pc \<longleftrightarrow> (t \<noteq> 0 \<longrightarrow> (case phase_of pc of
     Before \<Rightarrow> t \<notin> in_map s \<and> t \<notin> set (gone s)
   | Alive \<Rightarrow> t \<in> in_map s \<and> t \<notin> set (gone s)
   | After \<Rightarrow> t \<in> set (gone s) \<and> t \<notin> in_map s
   | Ended \<Rightarrow> True))"

text \<open>\<open>before xs a b\<close>: \<open>a\<close> comes before an occurrence of \<open>b\<close>.\<close>

definition before :: "'a list \<Rightarrow> 'a \<Rightarrow> 'a \<Rightarrow> bool" where
  "before xs a b \<longleftrightarrow> (\<exists>us vs. xs = us @ b # vs \<and> a \<in> set us)"

lemma before_append: "before xs a b \<Longrightarrow> before (xs @ ys) a b"
  unfolding before_def by (metis append.assoc append_Cons)

lemma before_snoc: "a \<in> set xs \<Longrightarrow> before (xs @ [b]) a b"
  unfolding before_def by blast

definition pc_ok :: "lstate \<Rightarrow> nat \<Rightarrow> bool" where
  "pc_ok s t \<longleftrightarrow> role_ok t (pcs s t) \<and> place_ok s t (pcs s t)
     \<and> (\<forall>x. seen (pcs s t) = Some x \<longrightarrow> x \<in> in_map s)
     \<and> (\<forall>x. t \<noteq> 0 \<and> pcs s t = P_chosen x \<and> x \<in> set (gone s) \<longrightarrow> before (gone s) t x)
     \<and> (t \<in> freed s \<longrightarrow> pcs s t = L_done)"

definition linv :: "nat \<Rightarrow> lstate \<Rightarrow> bool" where
  "linv n s \<longleftrightarrow> mutex s \<and> parked n s \<and> (\<forall>t. pc_ok s t) \<and> in_map s \<inter> set (gone s) = {} \<and> distinct (gone s)
     \<and> freed s \<subseteq> set (gone s)"

lemmas ok_defs = pc_ok_def role_ok_def place_ok_def

text \<open>What a step changes besides the program counter.\<close>

lemma lact_data:
  assumes "lact s t c (pcs s t) = Some s'"
  obtains "in_map s' = in_map s" "gone s' = gone s" "freed s' = freed s"
  | cs where "pcs s t = L_in_map cs" "in_map s' = insert t (in_map s)" "gone s' = gone s" "freed s' = freed s"
  | "pcs s t = L_rem_in_map" "in_map s' = in_map s - {t}" "gone s' = gone s @ [t]" "freed s' = freed s"
  | "pcs s t = L_rem_free" "in_map s' = in_map s" "gone s' = gone s" "freed s' = insert t (freed s)"
proof (cases "pcs s t")
  case (L_in_comp cs)
  then show ?thesis using assms that by (cases cs) (auto simp: lact_def)
qed (use assms that in \<open>auto simp: lact_def call_push_def Let_def split: choice.splits if_splits\<close>)
lemma lact_mover:
  assumes "lact s t c (pcs s t) = Some s'" and "pc_ok s t" and "in_map s \<inter> set (gone s) = {}"
  shows "pc_ok s' t"
proof (cases "pcs s t")
  case (L_in_comp cs)
  then show ?thesis using assms by (cases cs) (auto simp: lact_def ok_defs)
next
  case (P_unmap best)
  then show ?thesis using assms by (cases best) (auto simp: lact_def ok_defs ret_def)
next
  case (P_scan k i best)
  then show ?thesis using assms by (auto simp: lact_def ok_defs Let_def split: if_splits)
next
  case (P_pushing x)
  then show ?thesis using assms by (auto simp: lact_def ok_defs ret_def split: if_splits)
next
  case L_rem_push
  then show ?thesis using assms by (auto simp: lact_def ok_defs ret_def call_push_def split: choice.splits if_splits)
next
  case L_poll_push
  then show ?thesis using assms by (auto simp: lact_def ok_defs ret_def call_push_def split: choice.splits if_splits)
qed (use assms in \<open>auto simp: lact_def ok_defs split: choice.splits if_splits\<close>)

text \<open>A thread that has found a client in the map holds the lock of the map, so no one takes the client out meanwhile.\<close>

lemma seen_holds: "seen pc = Some x \<Longrightarrow> Clients_map_mutex \<in> set (holds t pc)"
  by (cases pc) auto

lemma lact_other:
  assumes step: "lact s t c (pcs s t) = Some s'" and ok: "linv n s" and u: "u \<noteq> t" "pcs s' u = pcs s u"
  shows "pc_ok s' u"
proof -
  have pu: "pc_ok s u" and mx: "mutex s" using ok by (simp_all add: linv_def)
  from step show ?thesis
  proof (cases rule: lact_data)
    case 1
    show ?thesis using pu unfolding pc_ok_def place_ok_def 1 u(2) .
  next
    case (2 cs)
    then show ?thesis using pu u by (auto simp: ok_defs split: phase.splits)
  next
    case 3
    have "seen (pcs s u) \<noteq> Some t"
    proof
      assume "seen (pcs s u) = Some t"
      then have "Clients_map_mutex \<in> set (holds u (pcs s u))" by (rule seen_holds)
      moreover have "Clients_map_mutex \<in> set (holds t (pcs s t))" using 3 by simp
      ultimately show False using mx u(1) unfolding mutex_def by blast
    qed
    moreover have "before (gone s @ [t]) u x" if "u \<noteq> 0" "pcs s u = P_chosen x" "x \<in> set (gone s @ [t])" for x
    proof (cases "x = t")
      case True
      have "u \<in> set (gone s)" using pu that(1,2) by (simp add: ok_defs)
      then show ?thesis using True before_snoc by metis
    next
      case False
      then have "before (gone s) u x" using pu that by (simp add: pc_ok_def)
      then show ?thesis by (rule before_append)
    qed
    ultimately show ?thesis using pu u 3 by (auto simp: ok_defs split: phase.splits)
  next
    case 4
    show ?thesis using pu u(1) unfolding pc_ok_def place_ok_def 4 u(2) by simp
  qed
qed

lemma lact_inv:
  assumes step: "lact s t c (pcs s t) = Some s'" and ok: "linv n s" and t: "t < n"
  shows "linv n s'"
proof -
  have pt: "pc_ok s t" and mx: "mutex s" and pk: "parked n s" and dj: "in_map s \<inter> set (gone s) = {}" "distinct (gone s)" "freed s \<subseteq> set (gone s)"
    using ok by (simp_all add: linv_def)
  have role: "pcs s t = L_rem_push \<Longrightarrow> t \<noteq> 0" "pcs s t = L_poll_push \<Longrightarrow> t = 0" using pt by (auto simp: ok_defs split: if_splits)
  have h: "pcs s' = (pcs s)(t := pcs s' t)" "set (holds t (pcs s' t)) \<subseteq> set (holds t (pcs s t))"
    using lact_holds [OF step role] by simp_all
  have same: "pcs s' u = pcs s u" if "u \<noteq> t" for u using h(1) that by (metis fun_upd_other)
  have sub: "set (holds u (pcs s' u)) \<subseteq> set (holds u (pcs s u))" for u
    using h(2) same [of u] by (cases "u = t") auto
  have "mutex s'" using mx sub unfolding mutex_def by blast
  moreover have "parked n s'" using pk same t unfolding parked_def by (metis not_le)
  moreover have "pc_ok s' u" for u
    using lact_mover [OF step pt dj(1)] lact_other [OF step ok _ same] by (cases "u = t") auto
  moreover have "in_map s' \<inter> set (gone s') = {} \<and> distinct (gone s') \<and> freed s' \<subseteq> set (gone s')"
    using step
  proof (cases rule: lact_data)
    case 1
    then show ?thesis using dj by simp
  next
    case (2 cs)
    then have "t \<notin> set (gone s)" using pt by (auto simp: ok_defs split: if_splits)
    then show ?thesis using dj 2 by auto
  next
    case 3
    then have "t \<notin> set (gone s)" using pt by (auto simp: ok_defs split: if_splits)
    then show ?thesis using dj 3 by auto
  next
    case 4
    then have "t \<in> set (gone s)" using pt by (auto simp: ok_defs split: if_splits)
    then show ?thesis using dj 4 by auto
  qed
  ultimately show ?thesis by (simp add: linv_def)
qed

text \<open>Locking, and the crash of a thread.\<close>

lemma locked_ok: "pc_ok s t \<Longrightarrow> wants t (pcs s t) = Some l \<Longrightarrow> pc_ok (move s t (locked s (pcs s t))) t"
proof (cases "pcs s t")
  case (L_rem_scan ks)
  then show "pc_ok s t \<Longrightarrow> wants t (pcs s t) = Some l \<Longrightarrow> ?thesis" by (cases ks) (auto simp: ok_defs split: if_splits)
qed (auto simp: ok_defs split: if_splits)

lemma move_other: "u \<noteq> t \<Longrightarrow> pc_ok (move s t pc) u = pc_ok s u"
  unfolding pc_ok_def place_ok_def pcs_move by simp

lemma move_inv:
  assumes ok: "linv n s" and t: "t < n" and pc: "pc_ok (move s t pc) t"
    and mx: "\<And>u l. u \<noteq> t \<Longrightarrow> l \<in> set (holds t pc) \<Longrightarrow> l \<notin> set (holds u (pcs s u))"
  shows "linv n (move s t pc)"
proof -
  have "mutex (move s t pc)" using ok mx by (auto simp: linv_def mutex_def)
  moreover have "parked n (move s t pc)" using ok t by (auto simp: linv_def parked_def)
  moreover have "pc_ok (move s t pc) u" for u
    using ok pc move_other [of u t s pc] by (cases "u = t") (auto simp: linv_def)
  ultimately show ?thesis using ok by (simp add: linv_def)
qed

lemma lstep_inv:
  assumes ok: "linv n s" and n: "0 < n" and step: "lstep n s t c = Some s'"
  shows "linv n s'"
proof -
  have t: "t < n" using step by (simp add: lstep_def split: if_splits)
  have pt: "pc_ok s t" and mx: "mutex s" and pk: "parked n s" using ok by (simp_all add: linv_def)
  show ?thesis
  proof (cases "wants t (pcs s t)")
    case None
    then show ?thesis using step t lact_inv [OF _ ok t] by (simp add: lstep_def)
  next
    case (Some l)
    consider "s' = move s t L_crash" | "lock_free n s l" "s' = move s t (locked s (pcs s t))"
      using step t Some by (auto simp: lstep_def split: if_splits)
    then show ?thesis
    proof cases
      case 1
      have "pcs s t \<noteq> L_done" using Some by auto
      then have "pc_ok (move s t L_crash) t" using pt by (auto simp: ok_defs)
      then show ?thesis unfolding 1 by (intro move_inv [OF ok t]) simp_all
    next
      case 2
      show ?thesis unfolding 2(2)
      proof (rule move_inv [OF ok t locked_ok [OF pt Some]])
        fix u l' assume u: "u \<noteq> t" and l': "l' \<in> set (holds t (locked s (pcs s t)))"
        then consider "l' = l" | "l' \<in> set (holds t (pcs s t))" using locked_holds [OF Some] by auto
        then show "l' \<notin> set (holds u (pcs s u))"
          using lock_free_holds [OF 2(1) pk n] mx u unfolding mutex_def by cases blast+
      qed
    qed
  qed
qed

lemma linit_inv: "linv n linit"
  by (auto simp: linv_def linit_def mutex_def parked_def ok_defs)

lemma lreach_inv: "lreach n s \<Longrightarrow> 0 < n \<Longrightarrow> linv n s"
proof (induction rule: lreach.induct)
  case init
  show ?case by (rule linit_inv)
next
  case (step s t c s')
  then show ?case using lstep_inv by blast
qed
section \<open>No deadlock\<close>

text \<open>A deadlock: threads each of which waits for a mutex that one of them holds.\<close>

definition deadlocked :: "lstate \<Rightarrow> nat set \<Rightarrow> bool" where
  "deadlocked s D \<longleftrightarrow> D \<noteq> {} \<and> (\<forall>t \<in> D. \<exists>l. wants t (pcs s t) = Some l \<and> (\<exists>u \<in> D. l \<in> set (holds u (pcs s u))))"

text \<open>Who can hold a mutex and wait for another one at the same time.\<close>

lemma waiting_holder:
  assumes "wants u pc \<noteq> None" and "role_ok u pc"
  shows "Db_mutex \<notin> set (holds u pc)"
    and "Compilers_map_mutex \<in> set (holds u pc) \<Longrightarrow> \<exists>k. wants u pc = Some (List_mutex k)"
    and "Clients_map_mutex \<in> set (holds u pc) \<Longrightarrow> (\<exists>k. wants u pc = Some (List_mutex k)) \<or> (\<exists>k i x. pc = P_look k i x)"
    and "List_mutex k \<in> set (holds u pc) \<Longrightarrow> \<exists>k i x. pc = P_look k i x"
    and "Client_mutex x \<in> set (holds u pc) \<Longrightarrow> u = x \<and> x \<noteq> 0 \<and> phase_of pc = After"
  using assms by (cases pc rule: lpc.exhaust; auto simp: base_def neq_Nil_conv split: if_splits elim: wants.elims)+

lemma no_deadlock_inv:
  assumes ok: "linv n s"
  shows "\<not> deadlocked s D"
proof
  assume dl: "deadlocked s D"
  have pc: "pc_ok s t" "role_ok t (pcs s t)" for t using ok by (simp_all add: linv_def pc_ok_def)
  have waits: "\<exists>l u. wants t (pcs s t) = Some l \<and> u \<in> D \<and> l \<in> set (holds u (pcs s u)) \<and> wants u (pcs s u) \<noteq> None" if "t \<in> D" for t
    using dl that unfolding deadlocked_def by (metis option.distinct(1))
  have look: "pcs s t \<noteq> P_look k i x" if tD: "t \<in> D" for t k i x
  proof
    assume at: "pcs s t = P_look k i x"
    then obtain u where "Client_mutex x \<in> set (holds u (pcs s u))" "wants u (pcs s u) \<noteq> None" using waits [OF tD] by auto
    from waiting_holder(5) [OF this(2) pc(2) this(1)] have "x \<notin> in_map s" using pc(1) [of x] by (auto simp: pc_ok_def place_ok_def)
    moreover have "x \<in> in_map s" using pc(1) [of t] at by (simp add: pc_ok_def)
    ultimately show False by simp
  qed
  have lst: "wants t (pcs s t) \<noteq> Some (List_mutex k)" if "t \<in> D" for t k
    using waits [OF that] waiting_holder(4) [OF _ pc(2)] look by fastforce
  have own: "\<exists>x \<in> D. wants t (pcs s t) = Some (Client_mutex x) \<and> x \<noteq> 0 \<and> phase_of (pcs s x) = After \<and> wants x (pcs s x) \<noteq> None"
    if t: "t \<in> D" for t
  proof -
    obtain l u where w: "wants t (pcs s t) = Some l" "u \<in> D" "l \<in> set (holds u (pcs s u))" "wants u (pcs s u) \<noteq> None"
      using waits [OF t] by blast
    note h = waiting_holder [OF w(4) pc(2)]
    show ?thesis
    proof (cases l)
      case Clients_map_mutex
      then show ?thesis using h(3) w(2,3) lst look by blast
    next
      case Compilers_map_mutex
      then show ?thesis using h(2) w(2,3) lst by blast
    next
      case Db_mutex
      then show ?thesis using h(1) w(3) by simp
    next
      case (List_mutex k)
      then show ?thesis using lst t w(1) by blast
    next
      case (Client_mutex x)
      then show ?thesis using h(5) [of x] w by auto
    qed
  qed
  let ?D = "{x \<in> D. x \<noteq> 0 \<and> phase_of (pcs s x) = After}"
  have in_gone: "x \<in> set (gone s)" if "x \<in> ?D" for x using pc(1) [of x] that by (auto simp: pc_ok_def place_ok_def)
  obtain t0 where "t0 \<in> D" using dl by (auto simp: deadlocked_def)
  then obtain x0 where "x0 \<in> ?D" using own by blast
  with in_gone have "\<exists>x \<in> set (gone s). x \<in> ?D" by blast
  then obtain us t vs where g: "gone s = us @ t # vs" "t \<in> ?D" "\<forall>z \<in> set vs. z \<notin> ?D" by (rule split_list_last_propE)
  obtain x where x: "x \<in> ?D" "wants t (pcs s t) = Some (Client_mutex x)" using own [of t] g(2) by blast
  have "x \<noteq> t"
  proof
    assume "x = t"
    then have "pcs s t = L_rem_own \<or> pcs s t = P_chosen t" using x(2) g(2) look by (cases "pcs s t") auto
    then show False
    proof
      assume "pcs s t = L_rem_own"
      moreover obtain u where "Client_mutex t \<in> set (holds u (pcs s u))" "wants u (pcs s u) \<noteq> None"
        using waits [of t] g(2) x(2) \<open>x = t\<close> by auto
      moreover have "u = t" using waiting_holder(5) [OF calculation(3) pc(2) calculation(2)] by simp
      ultimately show False by simp
    next
      assume "pcs s t = P_chosen t"
      then have "before (gone s) t t" using pc(1) [of t] g(2) in_gone by (auto simp: pc_ok_def)
      then show False using ok by (auto simp: before_def linv_def)
    qed
  qed
  then have "pcs s t = P_chosen x" using x(2) g(2) look by (cases "pcs s t") auto
  then have "before (gone s) t x" using pc(1) [of t] g(2) in_gone [OF x(1)] by (auto simp: pc_ok_def)
  then obtain ys zs where b: "gone s = ys @ x # zs" "t \<in> set ys" by (auto simp: before_def)
  have "distinct (gone s)" using ok by (simp add: linv_def)
  then have "x \<in> set vs"
    using g(1) b by (auto simp: append_eq_append_conv2 Cons_eq_append_conv append_eq_Cons_conv)
  then show False using g(3) x(1) by blast
qed
section \<open>Properties\<close>

lemma lact_runs:
  assumes "wants t pc = None" and "pc \<noteq> L_done" and "pc \<noteq> L_crash"
  shows "\<exists>c s'. lact s t c pc = Some s'"
proof (cases pc)
  case L_start
  then show ?thesis by (intro exI [of _ "Announce []"]) (simp add: lact_def)
next
  case (L_in_comp ks)
  then show ?thesis by (cases ks) (simp_all add: lact_def)
next
  case L_serve
  then show ?thesis by (intro exI [of _ Take]) (simp add: lact_def)
next
  case L_rem_push
  then show ?thesis by (intro exI [of _ Stop]) (simp add: lact_def)
next
  case L_poll
  then show ?thesis by (intro exI [of _ Go]) (simp add: lact_def)
next
  case L_poll_push
  then show ?thesis by (intro exI [of _ Stop]) (simp add: lact_def)
next
  case (P_looking k i x)
  then show ?thesis by (intro exI [of _ Stop]) (simp add: lact_def)
next
  case (P_scan k i best)
  then show ?thesis by (simp add: lact_def Let_def)
qed (use assms in \<open>auto simp: lact_def\<close>)

definition running :: "lstate \<Rightarrow> nat \<Rightarrow> bool" where
  "running s t \<longleftrightarrow> pcs s t \<noteq> L_done \<and> pcs s t \<noteq> L_crash"

lemma progress:
  assumes ok: "linv n s" and t0: "t0 < n" "running s t0"
  shows "\<exists>t < n. running s t \<and> (\<exists>c s'. lstep n s t c = Some s')"
proof (rule ccontr)
  assume stuck: "\<not> ?thesis"
  let ?D = "{t. t < n \<and> running s t}"
  have "\<exists>l. wants t (pcs s t) = Some l \<and> (\<exists>u \<in> ?D. l \<in> set (holds u (pcs s u)))" if t: "t \<in> ?D" for t
  proof (cases "wants t (pcs s t)")
    case None
    then have "\<exists>c s'. lstep n s t c = Some s'" using lact_runs [OF None] t by (simp add: lstep_def running_def)
    then show ?thesis using stuck t by blast
  next
    case (Some l)
    have "\<not> lock_free n s l"
    proof
      assume "lock_free n s l"
      then have "\<exists>s'. lstep n s t Go = Some s'" using Some t by (simp add: lstep_def)
      then show False using stuck t by blast
    qed
    then obtain u where u: "u < n" "l \<in> set (holds u (pcs s u))" by (auto simp: lock_free_def list_all_iff)
    then have "running s u" by (auto simp: running_def)
    then show ?thesis using Some u by auto
  qed
  then have "deadlocked s ?D" using t0 by (auto simp: deadlocked_def)
  then show False using no_deadlock_inv [OF ok] by blast
qed

lemma client_access:
  assumes ok: "linv n s" and x: "x \<in> freed s" and a: "wants t (pcs s t) = Some (Client_mutex x) \<or> Client_mutex x \<in> set (holds t (pcs s t))"
  shows "pcs s t = P_chosen x \<or> pcs s t = P_pushing x"
proof -
  have ended: "pcs s x = L_done" and gone: "x \<in> set (gone s)" "x \<notin> in_map s" and seen: "seen (pcs s t) \<noteq> Some x"
    using ok x unfolding linv_def pc_ok_def by blast+
  then have "t \<noteq> x" using a by auto
  then show ?thesis using a seen by (cases "pcs s t" rule: lpc.exhaust) (auto simp: base_def split: if_splits elim: wants.elims)
qed

lemma lrun_reach: "lreach n s \<Longrightarrow> lrun n s tcs = Some s' \<Longrightarrow> lreach n s'"
proof (induction tcs arbitrary: s)
  case (Cons tc tcs)
  obtain t c where tc: "tc = (t, c)" by (cases tc)
  then obtain s1 where "lstep n s t c = Some s1" "lrun n s1 tcs = Some s'" using Cons.prems(2) by (auto split: option.splits)
  with Cons show ?case by (blast intro: lreach.step)
qed simp

text \<open>A client registers and is chosen for a solution; then its session ends and releases it.\<close>

definition registers :: "nat \<Rightarrow> nat list \<Rightarrow> (nat \<times> choice) list" where
  "registers t cs = (t, Announce cs) # replicate (4 + length cs) (t, Go)"

definition chooses :: "nat \<Rightarrow> (nat \<times> choice) list" where
  "chooses k = replicate 3 (0, Go) @ [(0, Push k)] @ replicate 4 (0, Go) @ [(0, Stop), (0, Go), (0, Go)]"

definition leaves :: "nat \<Rightarrow> nat \<Rightarrow> (nat \<times> choice) list" where
  "leaves t m = [(t, Leave), (t, Go)] @ replicate (2 * m + 4) (t, Go) @ [(t, Stop), (t, Go)]"

lemmas lrun_eval = linit_def lstep_def lact_def move_def lock_free_def call_push_def base_def ret_def registers_def
  chooses_def leaves_def eval_nat_numeral

text \<open>
  C2: the locking of the server.  With any number of sessions next to the polling loop and in every order of their steps: no
  mutex is held twice; there is never a deadlock, although \<^verbatim>\<open>remove_client\<close> keeps its client's mutex while \<^verbatim>\<open>push_solution\<close>
  locks the tables and other clients (the client is out of the table by then, and a client it waits for left the table
  later); so as long as a thread has not ended, some thread can go on.  And the mutex of a released client is never
  touched, except where \<^verbatim>\<open>push_solution\<close> locks the client it has chosen.
\<close>

theorem locking_safe:
  assumes "lreach n s" and "0 < n"
  shows "mutex s \<and> (\<forall>D. \<not> deadlocked s D)
    \<and> ((\<exists>t < n. running s t) \<longrightarrow> (\<exists>t < n. running s t \<and> (\<exists>c s'. lstep n s t c = Some s')))
    \<and> (\<forall>t x. x \<in> freed s \<and> (wants t (pcs s t) = Some (Client_mutex x) \<or> Client_mutex x \<in> set (holds t (pcs s t))) \<longrightarrow>
         pcs s t = P_chosen x \<or> pcs s t = P_pushing x)"
proof -
  have ok: "linv n s" using lreach_inv [OF assms] .
  then have "mutex s" by (simp add: linv_def)
  then show ?thesis using no_deadlock_inv [OF ok] progress [OF ok] client_access [OF ok] by blast
qed

theorem locking_safe_witness:
  "\<exists>s. lrun 2 linit (registers 1 [7] @ chooses 7) = Some s \<and> pcs s 0 = P_chosen 1 \<and> mutex s \<and> \<not> deadlocked s {0, 1}"
proof -
  obtain s where s: "lrun 2 linit (registers 1 [7] @ chooses 7) = Some s" "pcs s 0 = P_chosen 1" by (simp add: lrun_eval)
  from locking_safe [OF lrun_reach [OF lreach.init s(1)]] s show ?thesis by simp
qed










end
