(* ===== verification/Spec2Isabelle.thy ===== *)
theory Spec2Isabelle
  imports System Thread_Pool Process Uthash_Ops Uthash_Select Utlist_Sort Mur_Portable Bloom Locks
begin

text \<open>
  \<^bold>\<open>A verification development for the judge server.\<close>

  The judge server hands solutions of programming contests from a MySQL database to connected
  checking clients and writes their verdicts back.  A main thread accepts connections and gives every
  client a worker of a thread pool (\<^verbatim>\<open>run_server\<close>, \<^verbatim>\<open>client_loop\<close>); one worker polls the database and
  distributes new solutions (\<^verbatim>\<open>poll_database\<close>, \<^verbatim>\<open>push_solution\<close>); another answers a local control
  socket (\<^verbatim>\<open>local_control_loop\<close>); at the end the pool is destroyed and everything is released
  (\<^verbatim>\<open>cleanup\<close>).  Clients and compilers are kept in hash tables of \<^verbatim>\<open>uthash.h\<close>: \<^verbatim>\<open>clients_map\<close> from ids to
  clients, \<^verbatim>\<open>compilers_map\<close> from compiler ids to compilers, and in each compiler a table of the ids of
  the clients that have it.  Every client owns a queue of solutions (\<^verbatim>\<open>utils.c\<close>).

  \<^bold>\<open>Theories.\<close>

  \<^item> \<open>Prelude\<close>: machine integers, the result type \<open>res\<close> in which every undefined behaviour of C is a
    value (\<open>Null_deref\<close>, \<open>Use_after_free\<close>, \<open>Invalid_free\<close>, \<open>Out_of_bounds\<close>), memories of cells, linked
    segments, decimal text.
  \<^item> \<open>Dlists\<close>: linked segments of cells, with one function per pointer field, and how they change when one
    cell is written.
  \<^item> \<open>Queue\<close> (\<^verbatim>\<open>utils.c\<close>, \<^verbatim>\<open>queue_*\<close>): the pointer code over a memory of cells, the list-level queue
    the server is stated over, the interface \<open>fifo_queue\<close> with both as instances, and the refinement of the list by the
    pointer code for every sequence of operations.
  \<^item> \<open>Net\<close> (\<^verbatim>\<open>utils.c\<close>: \<^verbatim>\<open>transfer_all\<close>, \<^verbatim>\<open>send_all\<close>, \<^verbatim>\<open>recv_all\<close>, \<^verbatim>\<open>data_block\<close>): byte order, reads
    from packet buffers, the transfer loops over an arbitrary network.
  \<^item> \<open>Uthash\<close> (\<^verbatim>\<open>uthash.h\<close>): Jenkins' hash on 32-bit words, tables with buckets and chains, insertion
    with bucket expansion, lookup, deletion, iteration; the interface \<open>key_table\<close> that the registry uses.
  \<^item> \<open>Uthash_Mem\<close>, \<open>Fsck\<close>, \<open>Uthash_Ops\<close> (\<^verbatim>\<open>uthash.h\<close>): the same macros on pointers, refining the tables of \<open>Uthash\<close>; the
    integrity check of a debug build; sorting, replacing and clearing; \<open>Uthash_Select\<close>: selecting items into a second
    table.  \<open>Hash_Functions\<close>, \<open>Mur_Portable\<close>, \<open>Bloom\<close>: the other hash functions and the Bloom filter that can be
    compiled in.
  \<^item> \<open>Utlist\<close> (\<^verbatim>\<open>utlist.h\<close>): singly, doubly and circularly linked lists with the interface \<open>element_list\<close>; \<open>Merge_Sort\<close>,
    \<open>Utlist_Sort\<close>: the bottom-up merge sort that the three kinds of lists and the hash tables share, proved once against the
    interface \<open>sort_memory\<close>, which four memories implement.
  \<^item> \<open>Solutions_Db\<close> (\<^verbatim>\<open>solutions_db.c\<close>): fetching and marking new solutions in one transaction, posting
    results; the MySQL client library is an argument.
  \<^item> \<open>Server\<close> (\<^verbatim>\<open>server.c\<close>: \<^verbatim>\<open>push_solution\<close>, \<^verbatim>\<open>remove_client\<close>, \<^verbatim>\<open>client_create\<close>, \<^verbatim>\<open>client_free\<close>, \<dots>): the
    state of the server, one definition per operation; \<open>Dispatch\<close> and \<open>Registry\<close>: the invariant
    \<open>srv_ok\<close> of the tables, which client gets a solution, registration and removal of clients.
  \<^item> \<open>Client_Loop\<close>, \<open>Sessions\<close> (\<^verbatim>\<open>server.c\<close>: \<^verbatim>\<open>client_loop\<close>, \<^verbatim>\<open>process_solutions\<close>, \<^verbatim>\<open>post_result\<close>): the
    handshake, packets, one round of the session and its loop; what a session does on every kind of input.
  \<^item> \<open>Polling\<close> (\<^verbatim>\<open>poll_database\<close>), \<open>Cleanup\<close> (\<^verbatim>\<open>cleanup\<close>), \<open>Control\<close> (\<^verbatim>\<open>local_control_loop\<close>,
    \<^verbatim>\<open>run_server\<close>), \<open>Startup\<close> (\<^verbatim>\<open>main.c\<close>: \<^verbatim>\<open>read_db_config\<close>), \<open>Process\<close> (\<^verbatim>\<open>main.c\<close>:
    \<^verbatim>\<open>daemon_init\<close>, \<^verbatim>\<open>main\<close>): the program from its start to its exit status, composed of the configuration, the
    logger, the accept loop, the turns of the threads, the end of the pool (\<open>None\<close> while a thread has not ended) and \<open>cleanup\<close>.
  \<^item> \<open>Thread_Pool\<close> (\<^verbatim>\<open>thread_pool.c\<close>) and \<open>Logger\<close> (\<^verbatim>\<open>utils.c\<close>: \<^verbatim>\<open>logger_*\<close>): transition systems with
    one step per access to shared state.
  \<^item> \<open>Locks\<close> (\<^verbatim>\<open>server.c\<close>): every mutex operation of the polling loop and of the sessions as one step, mutual exclusion,
    freedom from deadlock, and the accesses the mutexes do not protect.
  \<^item> \<open>System\<close>: the turn of every thread as a total function \<open>turn_of\<close>, failing turns included, the turns of all threads in any
    order, the invariant \<open>sys_ok\<close> with the conditions \<open>admissible\<close> it needs, and what a shared id does.

  \<^bold>\<open>How state and operations correspond.\<close>  A \<^verbatim>\<open>struct\<close> is a record with the fields of the source, a
  pointer an address into the memory of its type; a solution is an element of the array one fetch
  allocated, so a pointer to it is an array and an index.  An operation takes the state and returns it
  updated, inside \<open>res\<close>.  A loop that may run for ever is a \<open>partial_function (option)\<close>, where \<open>None\<close>
  means that it does not return; that it returns is proved where it is claimed.

  \<^bold>\<open>What the lemmas show.\<close>  Queue, tables, lists and pool implement their abstract counterparts without memory
  errors; the registry keeps its tables intact and conserves solutions (each is held by one client or
  reported as failed); sessions, polling and shutdown are described on every branch, with the exact
  conditions under which they are safe; the error properties show what happens outside these
  conditions.  The properties are numbered C1, C2, \<dots> in the text before each of them.

  \<^bold>\<open>Bounds.\<close>  Queues hold fewer than \<open>2 ^ 32\<close> elements (the count is 32 bits wide); tables have room for
  a new item if their item count does not wrap and they have fewer than \<open>2 ^ 30\<close> buckets (\<open>hash_room\<close>);
  the sorting macros are given at most \<open>2 ^ 30\<close> elements (the run length is an \<^verbatim>\<open>int\<close> that is doubled once more than needed);
  a handshake announces at most 25 compilers where \<open>cspace\<close> asks that even 25 doublings of a
  table stay below that bound.  \<^verbatim>\<open>malloc\<close> never fails, and an address that was released is not given out again,
  so that every later use of it is seen.

  \<^bold>\<open>The environment.\<close>  What sockets deliver and accept, the errors they report, the MySQL library, the
  datagrams of the controller, the configuration file, and the bytes of padding in fresh memory are
  arguments of the definitions.  \<^verbatim>\<open>errno\<close> belongs to the socket whose call set it last.

  \<^bold>\<open>Not modelled.\<close>  Real time; \<^verbatim>\<open>malloc\<close> failing; the addresses of peers; the macros of \<^verbatim>\<open>uthash.h\<close> and \<^verbatim>\<open>utlist.h\<close>
  that only name others with a fixed field, key size or compiler (\<^verbatim>\<open>HASH_FIND_STR\<close>, \<^verbatim>\<open>LL_APPEND\<close>), that print keys
  (\<^verbatim>\<open>HASH_EMIT_KEY\<close>) or that add up sizes (\<^verbatim>\<open>HASH_OVERHEAD\<close>).  \<open>System\<close> composes whole turns of sessions and of the
  polling loop with all their data; \<open>Locks\<close> interleaves them at every mutex operation, but keeps only the data that
  locking depends on.
\<close>

end
